(* ===== verification/Prelude.thy ===== *)
theory Prelude
  imports Main "HOL-Library.Word" "HOL-Library.Signed_Division"
begin

text \<open>
  Shared vocabulary of the development: the machine types of \<open>lib/main.h\<close> and
  \<open>lib/udp.h\<close>, the clock arithmetic of \<open>std::chrono\<close>, little-endian bytes,
  the iteration order of an \<open>unordered_map\<close>, and the lemma collections the
  component theories add to.

  A \<open>Time\<close> is \<open>high_resolution_clock::time_point\<close>, a signed count of nanoseconds; it is
  an \<open>int\<close> here.  Where the program narrows an integer (a \<open>long long\<close> stored in an
  \<open>int\<close>, an \<open>int\<close> in an \<open>int16_t\<close>) the wrap-around is written out.
\<close>

section \<open>Lemma collections\<close>

named_theorems inv_intros \<open>preservation of the components' invariants\<close>
named_theorems result_iff \<open>inversion of operations that may fail\<close>

section \<open>Machine types\<close>

type_synonym ClusterID = "32 word"
type_synonym u16 = "16 word"
type_synonym u32 = "32 word"
type_synonym u64 = "64 word"
type_synonym byte = "8 word"
type_synonym Time = int

text \<open>
  \<open>IP\<close> is \<open>unsigned long\<close>, 64 bits on the LP64 targets of the makefile; the address field
  \<open>s_addr\<close> of a socket address has 32.
\<close>

type_synonym IP = "64 word"

record sockaddr =
  s_addr :: u32
  sin_port :: u16

definition TIME_SERVER_ID :: ClusterID where
  "TIME_SERVER_ID = 0xFFFFFFFF"

definition TRACKER_CLUSTER_ID :: ClusterID where
  "TRACKER_CLUSTER_ID = 0"

definition MULTICAST_PORT :: u16 where
  "MULTICAST_PORT = 5432"

definition MAX_OUTPUT_NODES :: nat where
  "MAX_OUTPUT_NODES = (1456 - 4 * 8) div 4"

definition MAX_MSG_Q_SIZE :: nat where
  "MAX_MSG_Q_SIZE = 256"

definition PACKET_LIFE_TIME_MS :: int where
  "PACKET_LIFE_TIME_MS = 20"

lemmas main_h_defs = TIME_SERVER_ID_def TRACKER_CLUSTER_ID_def MULTICAST_PORT_def
  MAX_OUTPUT_NODES_def MAX_MSG_Q_SIZE_def PACKET_LIFE_TIME_MS_def

lemma MAX_OUTPUT_NODES_eq: "MAX_OUTPUT_NODES = 356"
  by (simp add: MAX_OUTPUT_NODES_def)

section \<open>Clock arithmetic\<close>

definition time_min :: Time where
  "time_min = - (2 ^ 63)"

definition time_max :: Time where
  "time_max = 2 ^ 63 - 1"

definition in_clock :: "Time \<Rightarrow> bool" where
  "in_clock t \<longleftrightarrow> time_min \<le> t \<and> t \<le> time_max"

abbreviation (input) microseconds :: "int \<Rightarrow> int" where
  "microseconds n \<equiv> n * 1000"

abbreviation (input) milliseconds :: "int \<Rightarrow> int" where
  "milliseconds n \<equiv> n * 1000000"

abbreviation (input) seconds :: "int \<Rightarrow> int" where
  "seconds n \<equiv> n * 1000000000"

text \<open>\<open>duration_cast\<close> divides with truncation towards zero.\<close>

definition to_us :: "int \<Rightarrow> int" where
  "to_us d = d sdiv 1000"

definition to_ms :: "int \<Rightarrow> int" where
  "to_ms d = d sdiv 1000000"

lemma sdiv_pos: "0 \<le> a \<Longrightarrow> 0 < b \<Longrightarrow> a sdiv b = a div b" for a b :: int
  by (cases "a = 0") (simp_all add: signed_divide_int_def)

lemma sdiv_neg: "a < 0 \<Longrightarrow> 0 < b \<Longrightarrow> a sdiv b = - ((- a) div b)" for a b :: int
  by (simp add: signed_divide_int_def)

lemma smod_pos: "0 \<le> a \<Longrightarrow> 0 < b \<Longrightarrow> a smod b = a mod b" for a b :: int
  by (cases "a = 0") (simp_all add: signed_modulo_int_def)

lemma to_us_scaled [simp]: "to_us (n * 1000) = n"
  by (cases "0 \<le> n") (simp_all add: to_us_def sdiv_pos sdiv_neg)

lemma to_us_bounds: "\<bar>d - 1000 * to_us d\<bar> < 1000"
proof (cases "0 \<le> d")
  case True
  then have "to_us d = d div 1000" by (simp add: to_us_def sdiv_pos)
  with True show ?thesis by linarith
next
  case False
  then have "to_us d = - ((- d) div 1000)" by (simp add: to_us_def sdiv_neg)
  with False show ?thesis by linarith
qed

section \<open>Narrowing conversions\<close>

text \<open>A signed integer stored in an \<open>int\<close> (32 bits) or read back from one.\<close>

definition as_int32 :: "int \<Rightarrow> int" where
  "as_int32 x = sint (word_of_int x :: u32)"

definition as_int16 :: "u16 \<Rightarrow> int" where
  "as_int16 w = sint w"

lemma as_int32_id: "- (2 ^ 31) \<le> x \<Longrightarrow> x < 2 ^ 31 \<Longrightarrow> as_int32 x = x"
  by (simp add: as_int32_def sint_sbintrunc' signed_take_bit_int_eq_self)

lemma as_int32_bounds: "- (2 ^ 31) \<le> as_int32 x \<and> as_int32 x < 2 ^ 31"
  using sint_greater_eq [of "word_of_int x :: u32"] sint_less [of "word_of_int x :: u32"]
  by (simp add: as_int32_def)

lemma as_int16_of_int: "- (2 ^ 15) \<le> x \<Longrightarrow> x < 2 ^ 15 \<Longrightarrow> as_int16 (word_of_int x) = x"
  by (simp add: as_int16_def sint_sbintrunc' signed_take_bit_int_eq_self)

section \<open>Little-endian bytes\<close>

primrec to_le :: "nat \<Rightarrow> nat \<Rightarrow> byte list" where
  "to_le 0 k = []"
| "to_le (Suc n) k = of_nat (k mod 256) # to_le n (k div 256)"

primrec from_le :: "byte list \<Rightarrow> nat" where
  "from_le [] = 0"
| "from_le (b # bs) = unat b + 256 * from_le bs"

lemma length_to_le [simp]: "length (to_le n k) = n"
  by (induction n arbitrary: k) simp_all

lemma unat_of_nat_byte [simp]: "unat (of_nat (k mod 256) :: byte) = k mod 256"
  by (simp add: unat_of_nat take_bit_eq_mod)

lemma from_to_le: "from_le (to_le n k) = k mod 256 ^ n"
proof (induction n arbitrary: k)
  case 0
  show ?case by simp
next
  case (Suc n)
  have "k mod (256 * 256 ^ n) = 256 * (k div 256 mod 256 ^ n) + k mod 256"
    by (rule mod_mult2_eq)
  with Suc show ?case by simp
qed

lemma from_to_le_word:
  fixes w :: "'a::len word"
  assumes "2 ^ LENGTH('a) = (256::nat) ^ n"
  shows "from_le (to_le n (unat w)) = unat w"
proof -
  have "unat w < 2 ^ LENGTH('a)" by (rule unsigned_less)
  with assms have "unat w < 256 ^ n" by simp
  then show ?thesis by (simp add: from_to_le)
qed

text \<open>\<open>htonl\<close> and \<open>ntohl\<close> of a little-endian host reverse the four bytes of a word.\<close>

definition byte_swap32 :: "u32 \<Rightarrow> u32" where
  "byte_swap32 w = of_nat (from_le (rev (to_le 4 (unat w))))"

lemma from_le_bound: "from_le bs < 256 ^ length bs"
proof (induction bs)
  case Nil
  show ?case by simp
next
  case (Cons b bs)
  have "unat b < 256" using unsigned_less [where w = b and ?'a = nat] by simp
  with Cons show ?case by simp
qed

lemma to_from_le: "to_le (length bs) (from_le bs) = bs"
proof (induction bs)
  case Nil
  show ?case by simp
next
  case (Cons b bs)
  have "unat b < 256" using unsigned_less [where w = b and ?'a = nat] by simp
  with Cons show ?case by simp
qed

lemma byte_swap32_involutive [simp]: "byte_swap32 (byte_swap32 w) = w"
proof -
  let ?bs = "rev (to_le 4 (unat w))"
  have "from_le ?bs < 2 ^ 32"
    using from_le_bound [of ?bs] by simp
  then have "unat (of_nat (from_le ?bs) :: u32) = from_le ?bs"
    by (simp add: unat_of_nat take_bit_nat_eq_self_iff)
  moreover have "to_le 4 (from_le ?bs) = ?bs"
    using to_from_le [of ?bs] by simp
  ultimately show ?thesis
    using from_to_le_word [of 4 w] by (simp add: byte_swap32_def)
qed

lemma byte_swap32_inject: "byte_swap32 v = byte_swap32 w \<longleftrightarrow> v = w"
  by (metis byte_swap32_involutive)

section \<open>Hash maps\<close>

text \<open>
  An \<open>unordered_map\<close> is a map, and a loop over one visits its keys in an order the
  standard leaves open.  An operation with such a loop takes the order as an argument;
  \<open>iterates\<close> says what any order the library picks satisfies.
\<close>

definition iterates :: "'k list \<Rightarrow> ('k \<rightharpoonup> 'v) \<Rightarrow> bool" where
  "iterates ks m \<longleftrightarrow> distinct ks \<and> set ks = dom m"

text \<open>\<open>m[k]\<close> inserts a default value when the key is missing.\<close>

definition at_default :: "'v \<Rightarrow> ('k \<rightharpoonup> 'v) \<Rightarrow> 'k \<Rightarrow> 'v" where
  "at_default d m k = (case m k of None \<Rightarrow> d | Some v \<Rightarrow> v)"

definition touch :: "'v \<Rightarrow> ('k \<rightharpoonup> 'v) \<Rightarrow> 'k \<Rightarrow> ('k \<rightharpoonup> 'v)" where
  "touch d m k = m(k \<mapsto> at_default d m k)"

lemma at_default_simps [simp]:
  "m k = None \<Longrightarrow> at_default d m k = d"
  "m k = Some v \<Longrightarrow> at_default d m k = v"
  by (simp_all add: at_default_def)

lemma at_default_upd [simp]: "at_default d (m(k \<mapsto> v)) j = (if j = k then v else at_default d m j)"
  by (simp add: at_default_def)

lemma touch_same: "m k \<noteq> None \<Longrightarrow> touch d m k = m"
  by (auto simp: touch_def at_default_def)

lemma at_default_touch [simp]: "at_default d (touch d m k) j = at_default d m j"
  by (simp add: touch_def)

lemma dom_touch [simp]: "dom (touch d m k) = insert k (dom m)"
  by (auto simp: touch_def)

end
