(* ===== verification/Fifo.thy ===== *)
theory Fifo
  imports Prelude
begin

text \<open>
  The queue interface the servers and the dispatch loop are written against.  Both queues of
  the program provide \<open>push\<close> and \<open>pop\<close>; \<open>FreeQueue\<close> may refuse an element when its
  ring is full, \<open>BlockingQueue\<close> never does.  A client sees a queue through \<open>items\<close>, the
  elements in the order they will come out.
\<close>

datatype 'a queue_op = Push 'a | Pop

text \<open>
  A client that performs operations one after another: the elements accepted, the elements
  handed out, and the queue at the end.
\<close>

fun run_queue ::
  "('a \<Rightarrow> 'q \<Rightarrow> bool \<times> 'q) \<Rightarrow> ('q \<Rightarrow> 'a option \<times> 'q) \<Rightarrow> 'a queue_op list \<Rightarrow> 'q
    \<Rightarrow> 'a list \<times> 'a list \<times> 'q" where
  "run_queue push pop [] q = ([], [], q)"
| "run_queue push pop (Push x # ops) q =
    (let (ok, q') = push x q; (acc, out, q'') = run_queue push pop ops q'
     in (if ok then x # acc else acc, out, q''))"
| "run_queue push pop (Pop # ops) q =
    (let (r, q') = pop q; (acc, out, q'') = run_queue push pop ops q'
     in (acc, case r of None \<Rightarrow> out | Some x \<Rightarrow> x # out, q''))"

section \<open>Queues\<close>

locale fifo =
  fixes push :: "'a \<Rightarrow> 'q \<Rightarrow> bool \<times> 'q"
    and pop :: "'q \<Rightarrow> 'a option \<times> 'q"
    and items :: "'q \<Rightarrow> 'a list"
    and invar :: "'q \<Rightarrow> bool"
    and room :: "'q \<Rightarrow> bool"
  assumes push_room: "invar q \<Longrightarrow> room q \<Longrightarrow> fst (push x q) \<and> items (snd (push x q)) = items q @ [x]"
    and push_full: "invar q \<Longrightarrow> \<not> room q \<Longrightarrow> push x q = (False, q)"
    and pop_empty: "invar q \<Longrightarrow> items q = [] \<Longrightarrow> pop q = (None, q)"
    and pop_head: "invar q \<Longrightarrow> items q = y # ys \<Longrightarrow> fst (pop q) = Some y \<and> items (snd (pop q)) = ys"
    and invar_push: "invar q \<Longrightarrow> invar (snd (push x q))"
    and invar_pop: "invar q \<Longrightarrow> invar (snd (pop q))"
begin

lemma push_cases:
  assumes "invar q"
  obtains q' where "push x q = (True, q')" "items q' = items q @ [x]" "invar q'"
  | "push x q = (False, q)" "\<not> room q"
  using assms push_room [of q x] push_full [of q x] invar_push [of q x]
  by (cases "room q"; cases "push x q") auto

lemma pop_cases:
  assumes "invar q"
  obtains "items q = []" "pop q = (None, q)"
  | y ys q' where "items q = y # ys" "pop q = (Some y, q')" "items q' = ys" "invar q'"
  using assms pop_empty [of q] pop_head [of q] invar_pop [of q]
  by (cases "items q"; cases "pop q") auto

text \<open>Nothing is lost, duplicated or reordered by any sequence of operations.\<close>

lemma run_queue_order:
  assumes "invar q" and "run_queue push pop ops q = (acc, out, q')"
  shows "items q @ acc = out @ items q' \<and> invar q'"
  using assms
proof (induction ops arbitrary: q acc out q')
  case Nil
  then show ?case by simp
next
  case (Cons op ops)
  show ?case
  proof (cases op)
    case (Push x)
    from Cons.prems(1) show ?thesis
    proof (cases rule: push_cases [of q x])
      case (1 q1)
      with Cons.prems Push obtain acc1 where "acc = x # acc1"
        and r: "run_queue push pop ops q1 = (acc1, out, q')"
        by (auto split: prod.splits)
      with Cons.IH [OF 1(3) r] 1(2) show ?thesis by simp
    next
      case 2
      with Cons.prems Push have r: "run_queue push pop ops q = (acc, out, q')"
        by (auto split: prod.splits)
      then show ?thesis by (rule Cons.IH [OF Cons.prems(1)])
    qed
  next
    case Pop
    from Cons.prems(1) show ?thesis
    proof (cases rule: pop_cases [of q])
      case 1
      with Cons.prems Pop have r: "run_queue push pop ops q = (acc, out, q')"
        by (auto split: prod.splits)
      then show ?thesis by (rule Cons.IH [OF Cons.prems(1)])
    next
      case (2 y ys q1)
      with Cons.prems Pop obtain out1 where "out = y # out1"
        and r: "run_queue push pop ops q1 = (acc, out1, q')"
        by (auto split: prod.splits)
      with Cons.IH [OF 2(4) r] 2(1,3) show ?thesis by simp
    qed
  qed
qed

end

section \<open>Bounded and unbounded queues\<close>

locale bounded_fifo = fifo +
  fixes cap :: nat
  assumes room_iff: "invar q \<Longrightarrow> room q \<longleftrightarrow> length (items q) < cap"
    and items_bound: "invar q \<Longrightarrow> length (items q) \<le> cap"
begin

lemma push_refused_iff: "invar q \<Longrightarrow> \<not> fst (push x q) \<longleftrightarrow> length (items q) = cap"
  by (metis fst_conv items_bound le_neq_implies_less less_irrefl push_full push_room room_iff)

end

locale unbounded_fifo = fifo +
  assumes always_room: "room q"
begin

lemma push_accepted: "invar q \<Longrightarrow> fst (push x q)"
  using push_room [of q x] always_room by simp

lemma run_queue_accepts_all:
  "invar q \<Longrightarrow> run_queue push pop ops q = (acc, out, q') \<Longrightarrow>
     acc = concat (map (\<lambda>op. case op of Push x \<Rightarrow> [x] | Pop \<Rightarrow> []) ops)"
proof (induction ops arbitrary: q acc out q')
  case Nil
  then show ?case by simp
next
  case (Cons op ops)
  show ?case
  proof (cases op)
    case (Push x)
    then obtain q1 where p: "push x q = (True, q1)" and "invar q1"
      using push_accepted [OF Cons.prems(1), of x] invar_push [OF Cons.prems(1), of x]
      by (cases "push x q") auto
    with Cons.prems(2) Push obtain acc1 where "acc = x # acc1"
      and "run_queue push pop ops q1 = (acc1, out, q')"
      by (auto split: prod.splits)
    with Cons.IH [OF \<open>invar q1\<close>] Push show ?thesis by simp
  next
    case Pop
    obtain r q1 where p: "pop q = (r, q1)" by (cases "pop q")
    with invar_pop [OF Cons.prems(1)] have "invar q1" by simp
    from p Cons.prems(2) Pop obtain out1 where "run_queue push pop ops q1 = (acc, out1, q')"
      by (auto split: prod.splits)
    with Cons.IH [OF \<open>invar q1\<close>] Pop show ?thesis by simp
  qed
qed

end

end
