(* ===== verification/Free_Queue.thy ===== *)
theory Free_Queue
  imports Fifo
begin

text \<open>
  \<open>FreeQueue\<close> of \<open>lib/queue.h\<close>: a ring of \<open>SIZE\<close> slots between one producer and one consumer.
  First the two operations as they run alone; then the same code as steps of two threads, one
  step per access to a shared variable, with every interleaving.  \<open>std::atomic\<close> loads and
  stores are sequentially consistent, so an execution is an interleaving.

  The template argument \<open>SIZE\<close> is a \<open>uint16_t\<close>; \<open>in + 1\<close> is computed as an \<open>int\<close> and does
  not wrap, and the result is below \<open>SIZE\<close>, so the indices are natural numbers here.
\<close>

section \<open>The queue run by one thread at a time\<close>

record 'a free_queue =
  ain :: nat
  buff :: "'a list"
  aout :: nat

definition FreeQueue_init :: "'a list \<Rightarrow> 'a free_queue" where
  "FreeQueue_init b = \<lparr>ain = 0, buff = b, aout = 0\<rparr>"

definition FreeQueue_push :: "nat \<Rightarrow> 'a \<Rightarrow> 'a free_queue \<Rightarrow> bool \<times> 'a free_queue" where
  "FreeQueue_push SIZE val q =
    (let inn = ain q;
         nextIn = (inn + 1) mod SIZE;
         out = aout q
     in if nextIn = out then (False, q)
        else (True, q\<lparr>buff := (buff q)[inn := val], ain := nextIn\<rparr>))"

definition FreeQueue_pop :: "nat \<Rightarrow> 'a free_queue \<Rightarrow> 'a option \<times> 'a free_queue" where
  "FreeQueue_pop SIZE q =
    (let out = aout q;
         inn = ain q
     in if inn = out then (None, q)
        else (Some (buff q ! out), q\<lparr>aout := (out + 1) mod SIZE\<rparr>))"

text \<open>The number of stored elements, and the elements from the oldest to the newest.\<close>

definition fq_count :: "nat \<Rightarrow> 'a free_queue \<Rightarrow> nat" where
  "fq_count SIZE q = (ain q + SIZE - aout q) mod SIZE"

definition fq_items :: "nat \<Rightarrow> 'a free_queue \<Rightarrow> 'a list" where
  "fq_items SIZE q = map (\<lambda>k. buff q ! ((aout q + k) mod SIZE)) [0..<fq_count SIZE q]"

definition fq_invar :: "nat \<Rightarrow> 'a free_queue \<Rightarrow> bool" where
  "fq_invar SIZE q \<longleftrightarrow> ain q < SIZE \<and> aout q < SIZE \<and> length (buff q) = SIZE"

lemma mod_neq_near: "a < b \<Longrightarrow> b - a < n \<Longrightarrow> a mod n \<noteq> b mod n" for a b n :: nat
  using mod_eq_dvd_iff_nat [of a b n] by (auto simp: dvd_imp_le dest: dvd_imp_le)

lemma mod_add_inj: "(t + a) mod n = (t + b) mod n \<Longrightarrow> a < n \<Longrightarrow> b < n \<Longrightarrow> a = b" for a b n t :: nat
  using mod_neq_near [of "t + a" "t + b" n] mod_neq_near [of "t + b" "t + a" n]
  by (cases a b rule: linorder_cases) (auto simp: less_imp_diff_less)

lemma fq_count_cases:
  "fq_invar SIZE q \<Longrightarrow>
     fq_count SIZE q = (if aout q \<le> ain q then ain q - aout q else ain q + SIZE - aout q)"
  by (auto simp: fq_invar_def fq_count_def mod_if)

lemma fq_count_bound: "fq_invar SIZE q \<Longrightarrow> fq_count SIZE q < SIZE"
  by (auto simp: fq_count_cases) (auto simp: fq_invar_def)

lemma length_fq_items [simp]: "length (fq_items SIZE q) = fq_count SIZE q"
  by (simp add: fq_items_def)

lemma fq_full_iff:
  "fq_invar SIZE q \<Longrightarrow> (ain q + 1) mod SIZE = aout q \<longleftrightarrow> fq_count SIZE q = SIZE - 1"
  by (auto simp: fq_count_cases mod_if fq_invar_def split: if_splits)

lemma fq_empty_iff: "fq_invar SIZE q \<Longrightarrow> ain q = aout q \<longleftrightarrow> fq_items SIZE q = []"
  by (auto simp: fq_items_def fq_count_cases) (auto simp: fq_invar_def)

lemma fq_slot:
  "fq_invar SIZE q \<Longrightarrow> (aout q + fq_count SIZE q) mod SIZE = ain q"
  by (auto simp: fq_count_cases) (auto simp: fq_invar_def)

lemma fq_slot_distinct:
  assumes "fq_invar SIZE q" "k < fq_count SIZE q"
  shows "(aout q + k) mod SIZE \<noteq> ain q"
  using mod_neq_near [of "aout q + k" "aout q + fq_count SIZE q" SIZE] fq_slot [OF assms(1)]
    fq_count_bound [OF assms(1)] assms(2)
  by auto

lemma FreeQueue_push_room:
  assumes "fq_invar SIZE q" and "fq_count SIZE q < SIZE - 1"
  shows "\<exists>q'. FreeQueue_push SIZE x q = (True, q') \<and> fq_items SIZE q' = fq_items SIZE q @ [x]
    \<and> fq_invar SIZE q'"
proof -
  let ?q' = "q\<lparr>buff := (buff q)[ain q := x], ain := (ain q + 1) mod SIZE\<rparr>"
  have push: "FreeQueue_push SIZE x q = (True, ?q')"
    using assms fq_full_iff [OF assms(1)] by (simp add: FreeQueue_push_def Let_def)
  have inv: "fq_invar SIZE ?q'"
    using assms by (simp add: fq_invar_def)
  have count: "fq_count SIZE ?q' = Suc (fq_count SIZE q)"
    using assms unfolding fq_count_cases [OF inv] fq_count_cases [OF assms(1)]
    by (auto simp: mod_if fq_invar_def split: if_splits)
  have new: "buff ?q' ! ((aout q + fq_count SIZE q) mod SIZE) = x"
    using fq_slot [OF assms(1)] assms(1) by (simp add: fq_invar_def)
  have old: "buff ?q' ! ((aout q + k) mod SIZE) = buff q ! ((aout q + k) mod SIZE)"
    if "k < fq_count SIZE q" for k
    using fq_slot_distinct [OF assms(1) that] by simp
  have "fq_items SIZE ?q' = fq_items SIZE q @ [x]"
    unfolding fq_items_def count using new old by simp
  with push inv show ?thesis by blast
qed

lemma FreeQueue_push_full:
  "fq_invar SIZE q \<Longrightarrow> \<not> fq_count SIZE q < SIZE - 1 \<Longrightarrow> FreeQueue_push SIZE x q = (False, q)"
  using fq_full_iff [of SIZE q] fq_count_bound [of SIZE q]
  by (simp add: FreeQueue_push_def Let_def)

lemma FreeQueue_pop_head:
  assumes "fq_invar SIZE q" and "fq_items SIZE q = y # ys"
  shows "\<exists>q'. FreeQueue_pop SIZE q = (Some y, q') \<and> fq_items SIZE q' = ys \<and> fq_invar SIZE q'"
proof -
  let ?q' = "q\<lparr>aout := (aout q + 1) mod SIZE\<rparr>"
  have ne: "ain q \<noteq> aout q"
    using assms fq_empty_iff [of SIZE q] by auto
  have inv: "fq_invar SIZE ?q'"
    using assms(1) by (simp add: fq_invar_def)
  have count: "fq_count SIZE q = Suc (fq_count SIZE ?q')"
    using assms(1) ne unfolding fq_count_cases [OF inv] fq_count_cases [OF assms(1)]
    by (auto simp: mod_if fq_invar_def split: if_splits)
  have items: "fq_items SIZE q = buff q ! aout q # fq_items SIZE ?q'"
    unfolding fq_items_def count
    using assms(1) by (simp add: upt_conv_Cons map_Suc_upt [symmetric] fq_invar_def mod_Suc_eq
        mod_add_left_eq del: upt_Suc)
  have "FreeQueue_pop SIZE q = (Some (buff q ! aout q), ?q')"
    using ne by (simp add: FreeQueue_pop_def Let_def)
  with items assms(2) inv show ?thesis by simp
qed

lemma FreeQueue_pop_empty:
  "fq_invar SIZE q \<Longrightarrow> fq_items SIZE q = [] \<Longrightarrow> FreeQueue_pop SIZE q = (None, q)"
  using fq_empty_iff [of SIZE q] by (simp add: FreeQueue_pop_def Let_def)

lemma fq_invar_push: "fq_invar SIZE q \<Longrightarrow> fq_invar SIZE (snd (FreeQueue_push SIZE x q))"
  by (auto simp: FreeQueue_push_def fq_invar_def Let_def)

lemma fq_invar_pop: "fq_invar SIZE q \<Longrightarrow> fq_invar SIZE (snd (FreeQueue_pop SIZE q))"
  by (auto simp: FreeQueue_pop_def fq_invar_def Let_def)

interpretation fq: bounded_fifo "FreeQueue_push SIZE" "FreeQueue_pop SIZE" "fq_items SIZE"
  "fq_invar SIZE" "\<lambda>q. fq_count SIZE q < SIZE - 1" "SIZE - 1" for SIZE
proof unfold_locales
  fix q :: "'a free_queue" and x
  assume inv: "fq_invar SIZE q"
  show "fq_count SIZE q < SIZE - 1 \<Longrightarrow> fst (FreeQueue_push SIZE x q) \<and>
      fq_items SIZE (snd (FreeQueue_push SIZE x q)) = fq_items SIZE q @ [x]"
    using FreeQueue_push_room [OF inv, of x] by auto
  show "length (fq_items SIZE q) \<le> SIZE - 1"
    using fq_count_bound [OF inv] by simp
next
  fix q :: "'a free_queue" and y ys
  assume "fq_invar SIZE q" and "fq_items SIZE q = y # ys"
  then show "fst (FreeQueue_pop SIZE q) = Some y \<and> fq_items SIZE (snd (FreeQueue_pop SIZE q)) = ys"
    using FreeQueue_pop_head [of SIZE q y ys] by auto
qed (simp_all add: FreeQueue_push_full FreeQueue_pop_empty fq_invar_push fq_invar_pop)

lemma fq_init_invar: "length b = SIZE \<Longrightarrow> 0 < SIZE \<Longrightarrow> fq_invar SIZE (FreeQueue_init b)"
  by (simp add: fq_invar_def FreeQueue_init_def)

lemma fq_init_items: "length b = SIZE \<Longrightarrow> 0 < SIZE \<Longrightarrow> fq_items SIZE (FreeQueue_init b) = []"
  by (simp add: fq_items_def fq_count_def FreeQueue_init_def)

end
