(* ===== verification/Free_Queue_Threads.thy ===== *)
theory Free_Queue_Threads
  imports Free_Queue
begin

text \<open>
  \<open>FreeQueue::push\<close> and \<open>FreeQueue::pop\<close> (\<open>lib/queue.h\<close>) as two threads.  Every access
  to a shared variable (\<open>ain\<close>, \<open>aout\<close>, a slot of \<open>buff\<close>) is one step; what a thread has
  read so far is kept in its program counter.  \<open>accepted\<close> and \<open>taken\<close> record the elements
  whose \<open>push\<close> returned true and whose \<open>pop\<close> returned true; the code does not read them.
\<close>

section \<open>The steps\<close>

datatype 'a producer =
    PIdle
  | PLoaded 'a nat          \<comment> \<open>value, \<open>in\<close>\<close>
  | PRoom 'a nat nat        \<comment> \<open>value, \<open>in\<close>, \<open>nextIn\<close>: the test for full has failed\<close>
  | PWritten 'a nat         \<comment> \<open>value, \<open>nextIn\<close>: \<open>buff[in]\<close> is assigned\<close>

datatype 'a consumer =
    CIdle
  | CLoaded nat             \<comment> \<open>\<open>out\<close>\<close>
  | CAvail nat              \<comment> \<open>\<open>out\<close>: the test for empty has failed\<close>
  | CRead 'a nat            \<comment> \<open>the element read and the next \<open>out\<close>\<close>

record 'a spsc = "'a free_queue" +
  producer :: "'a producer"
  consumer :: "'a consumer"
  accepted :: "'a list"
  taken :: "'a list"

definition spsc_init :: "'a list \<Rightarrow> 'a spsc" where
  "spsc_init b = \<lparr>ain = 0, buff = b, aout = 0, producer = PIdle, consumer = CIdle,
     accepted = [], taken = []\<rparr>"

inductive spsc_step :: "nat \<Rightarrow> 'a spsc \<Rightarrow> 'a spsc \<Rightarrow> bool" for SIZE where
  push_load_ain: "producer s = PIdle \<Longrightarrow>
     spsc_step SIZE s (s\<lparr>producer := PLoaded v (ain s)\<rparr>)"
| push_full: "producer s = PLoaded v i \<Longrightarrow> (i + 1) mod SIZE = aout s \<Longrightarrow>
     spsc_step SIZE s (s\<lparr>producer := PIdle\<rparr>)"
| push_room: "producer s = PLoaded v i \<Longrightarrow> (i + 1) mod SIZE \<noteq> aout s \<Longrightarrow>
     spsc_step SIZE s (s\<lparr>producer := PRoom v i ((i + 1) mod SIZE)\<rparr>)"
| push_write: "producer s = PRoom v i n \<Longrightarrow>
     spsc_step SIZE s (s\<lparr>buff := (buff s)[i := v], producer := PWritten v n\<rparr>)"
| push_store_ain: "producer s = PWritten v n \<Longrightarrow>
     spsc_step SIZE s (s\<lparr>ain := n, producer := PIdle, accepted := accepted s @ [v]\<rparr>)"
| pop_load_aout: "consumer s = CIdle \<Longrightarrow>
     spsc_step SIZE s (s\<lparr>consumer := CLoaded (aout s)\<rparr>)"
| pop_empty: "consumer s = CLoaded i \<Longrightarrow> ain s = i \<Longrightarrow>
     spsc_step SIZE s (s\<lparr>consumer := CIdle\<rparr>)"
| pop_avail: "consumer s = CLoaded i \<Longrightarrow> ain s \<noteq> i \<Longrightarrow>
     spsc_step SIZE s (s\<lparr>consumer := CAvail i\<rparr>)"
| pop_read: "consumer s = CAvail i \<Longrightarrow>
     spsc_step SIZE s (s\<lparr>consumer := CRead (buff s ! i) ((i + 1) mod SIZE)\<rparr>)"
| pop_store_aout: "consumer s = CRead v n \<Longrightarrow>
     spsc_step SIZE s (s\<lparr>aout := n, consumer := CIdle, taken := taken s @ [v]\<rparr>)"

abbreviation spsc_steps :: "nat \<Rightarrow> 'a spsc \<Rightarrow> 'a spsc \<Rightarrow> bool" where
  "spsc_steps SIZE \<equiv> (spsc_step SIZE)\<^sup>*\<^sup>*"

definition spsc_reachable :: "nat \<Rightarrow> 'a spsc \<Rightarrow> bool" where
  "spsc_reachable SIZE s \<longleftrightarrow>
     (\<exists>b. length b = SIZE \<and> spsc_steps SIZE (spsc_init b) s)"

section \<open>The invariant\<close>

text \<open>
  \<open>length accepted\<close> and \<open>length taken\<close> count positions without bound; the indices of the
  ring are these counts modulo its size.
\<close>

definition spsc_ring :: "nat \<Rightarrow> 'a spsc \<Rightarrow> bool" where
  "spsc_ring SIZE s \<longleftrightarrow>
     length (buff s) = SIZE \<and> length (taken s) \<le> length (accepted s) \<and>
     length (accepted s) - length (taken s) < SIZE \<and>
     ain s = length (accepted s) mod SIZE \<and> aout s = length (taken s) mod SIZE"

definition spsc_content :: "nat \<Rightarrow> 'a spsc \<Rightarrow> bool" where
  "spsc_content SIZE s \<longleftrightarrow>
     taken s = take (length (taken s)) (accepted s) \<and>
     (\<forall>k. length (taken s) \<le> k \<and> k < length (accepted s) \<longrightarrow> buff s ! (k mod SIZE) = accepted s ! k)"

definition producer_ok :: "nat \<Rightarrow> 'a spsc \<Rightarrow> bool" where
  "producer_ok SIZE s \<longleftrightarrow> (case producer s of
     PIdle \<Rightarrow> True
   | PLoaded v i \<Rightarrow> i = ain s
   | PRoom v i n \<Rightarrow> i = ain s \<and> n = (ain s + 1) mod SIZE \<and>
       Suc (length (accepted s)) - length (taken s) < SIZE
   | PWritten v n \<Rightarrow> n = (ain s + 1) mod SIZE \<and> buff s ! ain s = v \<and>
       Suc (length (accepted s)) - length (taken s) < SIZE)"

definition consumer_ok :: "nat \<Rightarrow> 'a spsc \<Rightarrow> bool" where
  "consumer_ok SIZE s \<longleftrightarrow> (case consumer s of
     CIdle \<Rightarrow> True
   | CLoaded i \<Rightarrow> i = aout s
   | CAvail i \<Rightarrow> i = aout s \<and> length (taken s) < length (accepted s)
   | CRead v n \<Rightarrow> n = (aout s + 1) mod SIZE \<and> length (taken s) < length (accepted s) \<and>
       v = accepted s ! length (taken s))"

definition spsc_invar :: "nat \<Rightarrow> 'a spsc \<Rightarrow> bool" where
  "spsc_invar SIZE s \<longleftrightarrow> spsc_ring SIZE s \<and> spsc_content SIZE s \<and> producer_ok SIZE s \<and> consumer_ok SIZE s"

lemmas spsc_invar_defs = spsc_invar_def spsc_ring_def spsc_content_def producer_ok_def consumer_ok_def

lemma spsc_init_invar: "length b = SIZE \<Longrightarrow> 0 < SIZE \<Longrightarrow> spsc_invar SIZE (spsc_init b)"
  by (simp add: spsc_invar_defs spsc_init_def)

lemma ring_not_full:
  assumes "spsc_ring SIZE s" and "(ain s + 1) mod SIZE \<noteq> aout s"
  shows "Suc (length (accepted s)) - length (taken s) < SIZE"
proof (rule ccontr)
  assume "\<not> ?thesis"
  with assms(1) have "Suc (length (accepted s)) = length (taken s) + SIZE"
    by (auto simp: spsc_ring_def)
  then have "Suc (length (accepted s)) mod SIZE = length (taken s) mod SIZE"
    by simp
  with assms show False
    by (simp add: spsc_ring_def mod_Suc_eq)
qed

lemma ring_full:
  assumes "spsc_ring SIZE s" and "(ain s + 1) mod SIZE = aout s" and "0 < SIZE"
  shows "length (accepted s) - length (taken s) = SIZE - 1"
proof (rule ccontr)
  assume "\<not> ?thesis"
  with assms(1,3) have "length (taken s) < Suc (length (accepted s))"
    and "Suc (length (accepted s)) - length (taken s) < SIZE"
    by (auto simp: spsc_ring_def)
  then have "length (taken s) mod SIZE \<noteq> Suc (length (accepted s)) mod SIZE"
    by (rule mod_neq_near)
  with assms(1,2) show False
    by (simp add: spsc_ring_def mod_Suc_eq)
qed

lemma ring_not_empty:
  "spsc_ring SIZE s \<Longrightarrow> ain s \<noteq> aout s \<Longrightarrow> length (taken s) < length (accepted s)"
  by (auto simp: spsc_ring_def nat_less_le)

text \<open>The slot the producer writes is none of the occupied ones.\<close>

lemma free_slot:
  "spsc_ring SIZE s \<Longrightarrow> length (taken s) \<le> k \<Longrightarrow> k < length (accepted s) \<Longrightarrow> k mod SIZE \<noteq> ain s"
  using mod_neq_near [of k "length (accepted s)" SIZE] diff_le_mono2 [of "length (taken s)" k "length (accepted s)"]
  by (simp add: spsc_ring_def)

lemma push_write_invar:
  assumes inv: "spsc_invar SIZE s" and pc: "producer s = PRoom v i n"
  shows "spsc_invar SIZE (s\<lparr>buff := (buff s)[i := v], producer := PWritten v n\<rparr>)"
proof -
  have i: "i = ain s" "ain s < length (buff s)"
    using inv pc by (auto simp: spsc_invar_defs)
  have "(buff s)[i := v] ! (k mod SIZE) = accepted s ! k"
    if "length (taken s) \<le> k" "k < length (accepted s)" for k
  proof -
    from inv that have "k mod SIZE \<noteq> i"
      using free_slot [of SIZE s k] i by (simp add: spsc_invar_def)
    with inv that show ?thesis by (simp add: spsc_invar_defs)
  qed
  with inv pc i show ?thesis by (auto simp: spsc_invar_defs split: consumer.splits)
qed

lemma push_store_invar:
  assumes inv: "spsc_invar SIZE s" and pc: "producer s = PWritten v n"
  shows "spsc_invar SIZE (s\<lparr>ain := n, producer := PIdle, accepted := accepted s @ [v]\<rparr>)"
proof -
  let ?t = "s\<lparr>ain := n, producer := PIdle, accepted := accepted s @ [v]\<rparr>"
  from inv pc have "spsc_ring SIZE ?t"
    by (auto simp: spsc_invar_defs mod_Suc_eq)
  moreover from inv pc have "spsc_content SIZE ?t"
    by (auto simp: spsc_invar_defs nth_append less_Suc_eq)
  moreover from inv have "consumer_ok SIZE ?t"
    by (auto simp: spsc_invar_defs nth_append split: consumer.splits)
  ultimately show ?thesis
    by (simp add: spsc_invar_def producer_ok_def)
qed

lemma pop_read_invar:
  "spsc_invar SIZE s \<Longrightarrow> consumer s = CAvail i \<Longrightarrow>
     spsc_invar SIZE (s\<lparr>consumer := CRead (buff s ! i) ((i + 1) mod SIZE)\<rparr>)"
  by (auto simp: spsc_invar_defs split: producer.splits)

lemma pop_store_invar:
  assumes inv: "spsc_invar SIZE s" and pc: "consumer s = CRead v n"
  shows "spsc_invar SIZE (s\<lparr>aout := n, consumer := CIdle, taken := taken s @ [v]\<rparr>)"
proof -
  let ?t = "s\<lparr>aout := n, consumer := CIdle, taken := taken s @ [v]\<rparr>"
  from inv pc have "spsc_ring SIZE ?t"
    by (auto simp: spsc_invar_defs mod_Suc_eq)
  moreover from inv pc have "spsc_content SIZE ?t"
    by (auto simp: spsc_invar_defs take_Suc_conv_app_nth)
  moreover from inv have "producer_ok SIZE ?t"
    by (auto simp: spsc_invar_defs split: producer.splits)
  ultimately show ?thesis
    by (simp add: spsc_invar_def consumer_ok_def)
qed

text \<open>Steps that change only a program counter.\<close>

lemma producer_moves:
  "spsc_invar SIZE s \<Longrightarrow> producer_ok SIZE (s\<lparr>producer := p\<rparr>) \<Longrightarrow> spsc_invar SIZE (s\<lparr>producer := p\<rparr>)"
  by (auto simp: spsc_invar_def spsc_ring_def spsc_content_def consumer_ok_def split: consumer.splits)

lemma consumer_moves:
  "spsc_invar SIZE s \<Longrightarrow> consumer_ok SIZE (s\<lparr>consumer := c\<rparr>) \<Longrightarrow> spsc_invar SIZE (s\<lparr>consumer := c\<rparr>)"
  by (auto simp: spsc_invar_def spsc_ring_def spsc_content_def producer_ok_def split: producer.splits)

lemma spsc_step_invar [inv_intros]:
  assumes "spsc_step SIZE s t" and "spsc_invar SIZE s"
  shows "spsc_invar SIZE t"
  using assms
proof cases
  case (push_room v i)
  with assms(2) ring_not_full [of SIZE s] have "producer_ok SIZE t"
    by (simp add: spsc_invar_def producer_ok_def)
  with push_room(1) assms(2) show ?thesis by (simp add: producer_moves)
next
  case (pop_avail i)
  with assms(2) ring_not_empty [of SIZE s] have "consumer_ok SIZE t"
    by (auto simp: spsc_invar_def consumer_ok_def)
  with pop_avail(1) assms(2) show ?thesis by (simp add: consumer_moves)
next
  case (push_write v i n)
  with assms(2) show ?thesis by (simp add: push_write_invar)
next
  case (push_store_ain v n)
  with assms(2) show ?thesis by (simp add: push_store_invar)
next
  case (pop_read i)
  from assms(2) pop_read(2) show ?thesis unfolding pop_read(1) by (rule pop_read_invar)
next
  case (pop_store_aout v n)
  with assms(2) show ?thesis by (simp add: pop_store_invar)
qed (use assms(2) in \<open>auto simp: producer_ok_def consumer_ok_def intro: producer_moves consumer_moves\<close>)

lemma spsc_steps_invar: "spsc_steps SIZE s t \<Longrightarrow> spsc_invar SIZE s \<Longrightarrow> spsc_invar SIZE t"
  by (induction rule: rtranclp_induct) (auto intro: inv_intros)

lemma spsc_reachable_invar: "spsc_reachable SIZE s \<Longrightarrow> 0 < SIZE \<Longrightarrow> spsc_invar SIZE s"
  by (auto simp: spsc_reachable_def intro: spsc_steps_invar spsc_init_invar)

section \<open>What the two threads see\<close>

definition ring_of :: "'a spsc \<Rightarrow> 'a free_queue" where
  "ring_of s = \<lparr>ain = ain s, buff = buff s, aout = aout s\<rparr>"

lemma ring_of_invar: "spsc_ring SIZE s \<Longrightarrow> 0 < SIZE \<Longrightarrow> fq_invar SIZE (ring_of s)"
  by (auto simp: fq_invar_def ring_of_def spsc_ring_def)

lemma ring_of_count:
  assumes ring: "spsc_ring SIZE s" and "0 < SIZE"
  shows "fq_count SIZE (ring_of s) = length (accepted s) - length (taken s)"
proof -
  let ?c = "fq_count SIZE (ring_of s)" and ?t = "length (taken s)" and ?a = "length (accepted s)"
  note inv = ring_of_invar [OF assms]
  have c: "?c < SIZE" by (rule fq_count_bound [OF inv])
  have d: "?a - ?t < SIZE" "?t + (?a - ?t) = ?a" using ring by (auto simp: spsc_ring_def)
  have "(?t + ?c) mod SIZE = (aout (ring_of s) + ?c) mod SIZE"
    using ring by (simp add: ring_of_def spsc_ring_def mod_add_left_eq)
  also have "\<dots> = (?t + (?a - ?t)) mod SIZE"
    using fq_slot [OF inv] ring d(2) by (simp add: ring_of_def spsc_ring_def)
  finally show ?thesis
    using c d(1) by (rule mod_add_inj)
qed

lemma ring_of_items:
  assumes "spsc_invar SIZE s" and "0 < SIZE"
  shows "accepted s = taken s @ fq_items SIZE (ring_of s)"
proof -
  let ?t = "length (taken s)" and ?a = "length (accepted s)"
  have ring: "spsc_ring SIZE s" using assms(1) by (simp add: spsc_invar_def)
  have slot: "buff (ring_of s) ! ((aout (ring_of s) + k) mod SIZE) = accepted s ! (?t + k)"
    if "k < ?a - ?t" for k
    using assms(1) that by (simp add: spsc_invar_defs ring_of_def mod_add_left_eq)
  have "fq_items SIZE (ring_of s) = drop ?t (accepted s)"
    by (rule nth_equalityI) (simp_all add: ring_of_count [OF ring assms(2)] fq_items_def slot)
  moreover have "taken s = take ?t (accepted s)"
    using assms(1) by (simp add: spsc_invar_defs)
  ultimately show ?thesis by (metis append_take_drop_id)
qed

section \<open>A call without interference is the sequential operation\<close>

lemma push_alone:
  assumes idle: "producer s = PIdle"
    and push: "FreeQueue_push SIZE v (ring_of s) = (ok, q)"
  shows "\<exists>t. spsc_steps SIZE s t \<and> ring_of t = q \<and> producer t = PIdle \<and> consumer t = consumer s \<and>
    taken t = taken s \<and> accepted t = accepted s @ (if ok then [v] else [])"
proof -
  let ?n = "(ain s + 1) mod SIZE"
  let ?s1 = "s\<lparr>producer := PLoaded v (ain s)\<rparr>"
  have 1: "spsc_step SIZE s ?s1" by (rule push_load_ain [OF idle])
  show ?thesis
  proof (cases "?n = aout s")
    case True
    then have "spsc_step SIZE ?s1 (?s1\<lparr>producer := PIdle\<rparr>)"
      by (intro push_full) simp_all
    with 1 have "spsc_steps SIZE s (?s1\<lparr>producer := PIdle\<rparr>)" by auto
    moreover have "\<not> ok" "q = ring_of s"
      using push True by (auto simp: FreeQueue_push_def ring_of_def Let_def)
    ultimately show ?thesis
      by (intro exI [of _ "?s1\<lparr>producer := PIdle\<rparr>"]) (simp add: ring_of_def)
  next
    case False
    let ?s2 = "?s1\<lparr>producer := PRoom v (ain s) ?n\<rparr>"
    let ?s3 = "?s2\<lparr>buff := (buff ?s2)[ain s := v], producer := PWritten v ?n\<rparr>"
    let ?s4 = "?s3\<lparr>ain := ?n, producer := PIdle, accepted := accepted ?s3 @ [v]\<rparr>"
    have 2: "spsc_step SIZE ?s1 ?s2"
      using False by (intro push_room) simp_all
    have 3: "spsc_step SIZE ?s2 ?s3"
      by (rule push_write) simp
    have 4: "spsc_step SIZE ?s3 ?s4"
      by (rule push_store_ain) simp
    from 1 2 3 4 have "spsc_steps SIZE s ?s4"
      by (meson converse_rtranclp_into_rtranclp rtranclp.rtrancl_refl)
    moreover have "ok" "q = ring_of ?s4"
      using push False by (auto simp: FreeQueue_push_def ring_of_def Let_def)
    ultimately show ?thesis by (intro exI [of _ ?s4]) simp
  qed
qed

lemma pop_alone:
  assumes idle: "consumer s = CIdle"
    and pop: "FreeQueue_pop SIZE (ring_of s) = (r, q)"
  shows "\<exists>t. spsc_steps SIZE s t \<and> ring_of t = q \<and> consumer t = CIdle \<and> producer t = producer s \<and>
    accepted t = accepted s \<and> taken t = taken s @ (case r of None \<Rightarrow> [] | Some v \<Rightarrow> [v])"
proof -
  let ?s1 = "s\<lparr>consumer := CLoaded (aout s)\<rparr>"
  have 1: "spsc_step SIZE s ?s1" by (rule pop_load_aout [OF idle])
  show ?thesis
  proof (cases "ain s = aout s")
    case True
    then have "spsc_step SIZE ?s1 (?s1\<lparr>consumer := CIdle\<rparr>)"
      by (intro pop_empty) simp_all
    with 1 have "spsc_steps SIZE s (?s1\<lparr>consumer := CIdle\<rparr>)" by auto
    moreover have "r = None" "q = ring_of s"
      using pop True by (auto simp: FreeQueue_pop_def ring_of_def Let_def)
    ultimately show ?thesis
      by (intro exI [of _ "?s1\<lparr>consumer := CIdle\<rparr>"]) (simp add: ring_of_def)
  next
    case False
    let ?v = "buff s ! aout s" and ?n = "(aout s + 1) mod SIZE"
    let ?s2 = "?s1\<lparr>consumer := CAvail (aout s)\<rparr>"
    let ?s3 = "?s2\<lparr>consumer := CRead (buff ?s2 ! aout s) ?n\<rparr>"
    let ?s4 = "?s3\<lparr>aout := ?n, consumer := CIdle, taken := taken ?s3 @ [?v]\<rparr>"
    have 2: "spsc_step SIZE ?s1 ?s2"
      using False by (intro pop_avail) simp_all
    have 3: "spsc_step SIZE ?s2 ?s3"
      by (rule pop_read) simp
    have 4: "spsc_step SIZE ?s3 ?s4"
      by (rule pop_store_aout) simp
    from 1 2 3 4 have "spsc_steps SIZE s ?s4"
      by (meson converse_rtranclp_into_rtranclp rtranclp.rtrancl_refl)
    moreover have "r = Some ?v" "q = ring_of ?s4"
      using pop False by (auto simp: FreeQueue_pop_def ring_of_def Let_def)
    ultimately show ?thesis by (intro exI [of _ ?s4]) simp
  qed
qed

section \<open>Properties\<close>

text \<open>
  C5.
  In every interleaving of the producer and the consumer, what the consumer has taken is a
  prefix of what the producer has got accepted, the rest is what the ring holds, in order,
  and the ring never holds more than \<open>SIZE - 1\<close> elements.
\<close>

theorem FreeQueue_concurrent_fifo:
  assumes "spsc_reachable SIZE s" and "0 < SIZE"
  shows "accepted s = taken s @ fq_items SIZE (ring_of s) \<and> length (fq_items SIZE (ring_of s)) \<le> SIZE - 1"
proof -
  note inv = spsc_reachable_invar [OF assms]
  then have "fq_invar SIZE (ring_of s)"
    using assms(2) by (simp add: spsc_invar_def ring_of_invar)
  then show ?thesis
    using ring_of_items [OF inv assms(2)] fq.items_bound by blast
qed

lemma spsc_one_push:
  "\<exists>s. spsc_reachable 3 s \<and> accepted s = [7 :: nat] \<and> taken s = [] \<and> consumer s = CIdle \<and> producer s = PIdle"
proof -
  let ?i = "spsc_init [0, 0, 0 :: nat]"
  have "\<exists>t. spsc_steps 3 ?i t \<and> ring_of t = snd (FreeQueue_push 3 7 (ring_of ?i)) \<and> producer t = PIdle
    \<and> consumer t = consumer ?i \<and> taken t = taken ?i \<and>
    accepted t = accepted ?i @ (if fst (FreeQueue_push 3 7 (ring_of ?i)) then [7] else [])"
    by (rule push_alone) (simp_all add: spsc_init_def)
  then obtain t where t: "spsc_steps 3 ?i t" "producer t = PIdle" "consumer t = CIdle"
    "accepted t = [7]" "taken t = []"
    by (auto simp: spsc_init_def ring_of_def FreeQueue_push_def Let_def)
  then have "spsc_reachable 3 t"
    by (auto simp: spsc_reachable_def intro: exI [of _ "[0, 0, 0]"])
  with t show ?thesis by blast
qed

theorem FreeQueue_concurrent_fifo_witness:
  "\<exists>s. spsc_reachable 3 s \<and> accepted s = [7 :: nat] \<and> fq_items 3 (ring_of s) = [7]"
proof -
  obtain s where s: "spsc_reachable 3 s" "accepted s = [7 :: nat]" "taken s = []"
    using spsc_one_push by blast
  with FreeQueue_concurrent_fifo [OF s(1)] show ?thesis by auto
qed

text \<open>
  C34.
  The element slots need no lock: when the producer is about to assign \<open>buff[in]\<close> and the
  consumer is about to read \<open>buff[out]\<close>, the two slots are different.
\<close>

theorem FreeQueue_race_free:
  assumes "spsc_reachable SIZE s" and "0 < SIZE"
    and "producer s = PRoom v i n" and "consumer s = CAvail j"
  shows "i \<noteq> j"
proof -
  have inv: "spsc_invar SIZE s" by (rule spsc_reachable_invar [OF assms(1,2)])
  with assms(3,4) have "j = length (taken s) mod SIZE" "i = ain s"
    "length (taken s) < length (accepted s)"
    by (auto simp: spsc_invar_defs)
  moreover have "spsc_ring SIZE s" using inv by (simp add: spsc_invar_def)
  ultimately show ?thesis
    using free_slot [of SIZE s "length (taken s)"] by simp
qed

theorem FreeQueue_race_free_witness:
  "\<exists>s. spsc_reachable 3 s \<and> producer s = PRoom (8 :: nat) 1 2 \<and> consumer s = CAvail 0 \<and> (1 :: nat) \<noteq> 0"
proof -
  obtain s where s: "spsc_reachable 3 s" "accepted s = [7 :: nat]" "taken s = []"
    "consumer s = CIdle" "producer s = PIdle"
    using spsc_one_push by blast
  then have ring: "ain s = 1" "aout s = 0"
    using spsc_reachable_invar [OF s(1)] by (auto simp: spsc_invar_defs)
  let ?s1 = "s\<lparr>producer := PLoaded 8 (ain s)\<rparr>"
  let ?s2 = "?s1\<lparr>producer := PRoom 8 1 2\<rparr>"
  let ?s3 = "?s2\<lparr>consumer := CLoaded (aout ?s2)\<rparr>"
  let ?s4 = "?s3\<lparr>consumer := CAvail 0\<rparr>"
  have 1: "spsc_step 3 s ?s1" by (rule push_load_ain [OF s(5)])
  have 2: "spsc_step 3 ?s1 ?s2" using spsc_step.push_room [of ?s1 8 1 3] ring by (simp add: numeral_2_eq_2)
  have 3: "spsc_step 3 ?s2 ?s3" by (rule pop_load_aout) (simp add: s)
  have 4: "spsc_step 3 ?s3 ?s4" using spsc_step.pop_avail [of ?s3 0 3] ring by simp
  obtain b where b: "length b = 3" "spsc_steps 3 (spsc_init b) s"
    using s(1) unfolding spsc_reachable_def by blast
  from b(2) 1 2 3 4 have "spsc_steps 3 (spsc_init b) ?s4"
    by (meson rtranclp.rtrancl_into_rtrancl)
  with b(1) have r: "spsc_reachable 3 ?s4" unfolding spsc_reachable_def by blast
  have "(1 :: nat) \<noteq> 0"
    by (rule FreeQueue_race_free [OF r]) simp_all
  with r show ?thesis by (intro exI [of _ ?s4]) simp
qed

text \<open>
  \<open>push\<close> gives up exactly when the ring is full at the moment it reads \<open>aout\<close>: the test
  \<open>nextIn == out\<close> succeeds if and only if \<open>SIZE - 1\<close> elements are stored.
\<close>

theorem FreeQueue_refuses_iff_full:
  assumes "spsc_reachable SIZE s" and "0 < SIZE" and "producer s = PLoaded v i"
  shows "(i + 1) mod SIZE = aout s \<longleftrightarrow> length (fq_items SIZE (ring_of s)) = SIZE - 1"
proof -
  have inv: "spsc_invar SIZE s" by (rule spsc_reachable_invar [OF assms(1,2)])
  with assms(3) have "i = ain s" by (simp add: spsc_invar_def producer_ok_def)
  moreover have "fq_invar SIZE (ring_of s)"
    using inv assms(2) by (simp add: spsc_invar_def ring_of_invar)
  ultimately show ?thesis
    using fq_full_iff [of SIZE "ring_of s"] by (simp add: ring_of_def)
qed

theorem FreeQueue_refuses_iff_full_witness:
  "\<exists>s. spsc_reachable 1 s \<and> producer s = PLoaded (5 :: nat) 0 \<and> length (fq_items 1 (ring_of s)) = 1 - 1"
proof -
  let ?i = "spsc_init [0 :: nat]"
  let ?s = "?i\<lparr>producer := PLoaded 5 (ain ?i)\<rparr>"
  have "spsc_step 1 ?i ?s" by (rule push_load_ain) (simp add: spsc_init_def)
  then have r: "spsc_reachable 1 ?s"
    unfolding spsc_reachable_def by (intro exI [of _ "[0]"]) auto
  have "(0 + 1) mod 1 = aout ?s \<longleftrightarrow> length (fq_items 1 (ring_of ?s)) = 1 - 1"
    by (rule FreeQueue_refuses_iff_full [OF r]) (simp_all add: spsc_init_def)
  with r show ?thesis by (intro exI [of _ ?s]) (simp add: spsc_init_def)
qed

text \<open>
  Run by one thread after another, any sequence of \<open>push\<close> and \<open>pop\<close> on a fresh queue hands
  out the accepted elements in order, and what is missing at the end is still in the ring.
\<close>

theorem FreeQueue_sequential_fifo:
  assumes "length b = SIZE" and "0 < SIZE"
    and "run_queue (FreeQueue_push SIZE) (FreeQueue_pop SIZE) ops (FreeQueue_init b) = (acc, out, q)"
  shows "acc = out @ fq_items SIZE q \<and> length (fq_items SIZE q) < SIZE"
  using fq.run_queue_order [OF fq_init_invar [OF assms(1,2)] assms(3)] fq_init_items [OF assms(1,2)]
    fq_count_bound [of SIZE q]
  by simp

theorem FreeQueue_sequential_fifo_witness:
  "\<exists>q. run_queue (FreeQueue_push 3) (FreeQueue_pop 3) [Push 1, Push 2, Push 3, Pop, Push 4]
      (FreeQueue_init [0, 0, 0 :: nat]) = ([1, 2, 4], [1], q) \<and> [1, 2, 4] = [1] @ fq_items 3 q"
proof -
  obtain q where q: "run_queue (FreeQueue_push 3) (FreeQueue_pop 3)
      [Push 1, Push 2, Push 3, Pop, Push 4] (FreeQueue_init [0, 0, 0 :: nat]) = ([1, 2, 4], [1], q)"
    by (simp add: FreeQueue_init_def FreeQueue_push_def FreeQueue_pop_def Let_def)
  with FreeQueue_sequential_fifo [OF _ _ q] show ?thesis by auto
qed

end
