(* ===== verification/Locking.thy ===== *)
theory Locking
  imports Prelude
begin

text \<open>
  Locks and what they are for.  \<open>mutex\<close> is the interface of a lock.  \<open>guarded\<close> is a program whose
  threads work on a shared state in sections, in several steps each, with the lock held; some
  steps are made without it.  Its lemma: seen when nobody is in a section, the state
  is one that whole sections, one after the other, can produce.
\<close>

section \<open>The interface of a lock\<close>

locale mutex =
  fixes acquire :: "nat \<Rightarrow> 'l \<Rightarrow> 'l \<Rightarrow> bool"
    and release :: "nat \<Rightarrow> 'l \<Rightarrow> 'l \<Rightarrow> bool"
    and wait :: "nat \<Rightarrow> 'l \<Rightarrow> 'l \<Rightarrow> bool"
    and inside :: "'l \<Rightarrow> nat \<Rightarrow> bool"
    and ok :: "'l \<Rightarrow> bool"
    and unused :: 'l
  assumes unused: "ok unused" "\<not> inside unused i"
    and exclusive: "ok l \<Longrightarrow> inside l i \<Longrightarrow> inside l j \<Longrightarrow> i = j"
    and acquired: "ok l \<Longrightarrow> acquire i l l' \<Longrightarrow> ok l' \<and> \<not> inside l j \<and> (inside l' j \<longleftrightarrow> j = i)"
    and released: "ok l \<Longrightarrow> inside l i \<Longrightarrow> release i l l' \<Longrightarrow> ok l' \<and> \<not> inside l' j"
    and waited: "ok l \<Longrightarrow> wait i l l' \<Longrightarrow> ok l' \<and> inside l' = inside l"

section \<open>Threads that use it\<close>

text \<open>The lock, where each thread is in its section (\<open>None\<close> outside), and the shared state.\<close>

record ('l, 'c, 's) lock_sys =
  lk :: 'l
  ctl :: "nat \<Rightarrow> 'c option"
  mem :: 's

inductive lock_step for
    acquire :: "nat \<Rightarrow> 'l \<Rightarrow> 'l \<Rightarrow> bool" and release :: "nat \<Rightarrow> 'l \<Rightarrow> 'l \<Rightarrow> bool" and wait :: "nat \<Rightarrow> 'l \<Rightarrow> 'l \<Rightarrow> bool"
    and entry :: "'c \<Rightarrow> bool" and act :: "'c \<times> 's \<Rightarrow> 'c \<times> 's \<Rightarrow> bool" and finished :: "'c \<Rightarrow> bool"
    and unlocked :: "'s \<Rightarrow> 's \<Rightarrow> bool" where
  waiting: "ctl s i = None \<Longrightarrow> wait i (lk s) l \<Longrightarrow>
     lock_step acquire release wait entry act finished unlocked s (s\<lparr>lk := l\<rparr>)"
| entering: "ctl s i = None \<Longrightarrow> acquire i (lk s) l \<Longrightarrow> entry c \<Longrightarrow>
     lock_step acquire release wait entry act finished unlocked s (s\<lparr>lk := l, ctl := (ctl s)(i := Some c)\<rparr>)"
| acting: "ctl s i = Some c \<Longrightarrow> act (c, mem s) (c', m) \<Longrightarrow>
     lock_step acquire release wait entry act finished unlocked s (s\<lparr>ctl := (ctl s)(i := Some c'), mem := m\<rparr>)"
| leaving: "ctl s i = Some c \<Longrightarrow> finished c \<Longrightarrow> release i (lk s) l \<Longrightarrow>
     lock_step acquire release wait entry act finished unlocked s (s\<lparr>lk := l, ctl := (ctl s)(i := None)\<rparr>)"
| unguarded: "unlocked (mem s) m \<Longrightarrow>
     lock_step acquire release wait entry act finished unlocked s (s\<lparr>mem := m\<rparr>)"

section \<open>Sections are atomic\<close>

text \<open>
  The client's part: a whole section is an operation of the specification, a step without the lock is one, and
  such a step right after a step of a section could as well have been made right before it.
\<close>

locale guarded = mutex acquire release wait inside ok unused
  for acquire :: "nat \<Rightarrow> 'l \<Rightarrow> 'l \<Rightarrow> bool" and release :: "nat \<Rightarrow> 'l \<Rightarrow> 'l \<Rightarrow> bool" and wait :: "nat \<Rightarrow> 'l \<Rightarrow> 'l \<Rightarrow> bool"
    and inside :: "'l \<Rightarrow> nat \<Rightarrow> bool" and ok :: "'l \<Rightarrow> bool" and unused :: 'l +
  fixes entry :: "'c \<Rightarrow> bool" and act :: "'c \<times> 's \<Rightarrow> 'c \<times> 's \<Rightarrow> bool" and finished :: "'c \<Rightarrow> bool"
    and unlocked :: "'s \<Rightarrow> 's \<Rightarrow> bool" and operation :: "'s \<Rightarrow> 's \<Rightarrow> bool" and initial :: 's
  assumes sections: "entry c \<Longrightarrow> act\<^sup>*\<^sup>* (c, m) (c', m') \<Longrightarrow> finished c' \<Longrightarrow> operation m m'"
    and unlocked: "unlocked m m' \<Longrightarrow> operation m m'"
    and commute: "act (c, m) (c', m1) \<Longrightarrow> unlocked m1 m2 \<Longrightarrow> \<exists>m3. unlocked m m3 \<and> act (c, m3) (c', m2)"
begin

lemma before_section:
  "act\<^sup>*\<^sup>* (c, m) (c', m') \<Longrightarrow> unlocked m' m2 \<Longrightarrow> \<exists>m3. unlocked m m3 \<and> act\<^sup>*\<^sup>* (c, m3) (c', m2)"
proof (induction arbitrary: m2 rule: rtranclp_induct2)
  case refl
  then show ?case by blast
next
  case (step c1 m1 c' m')
  obtain m3 where "unlocked m1 m3" "act (c1, m3) (c', m2)" using commute [OF step.hyps(2) step.prems] by blast
  then show ?case using step.IH by (meson rtranclp.rtrancl_into_rtrancl)
qed

text \<open>Somebody's section has been going on since a state that whole operations produced, or nobody's.\<close>

definition since :: "('l, 'c, 's) lock_sys \<Rightarrow> 's \<Rightarrow> bool" where
  "since s m0 \<longleftrightarrow> operation\<^sup>*\<^sup>* initial m0 \<and>
     (if \<forall>i. ctl s i = None then mem s = m0
      else \<exists>i c c0. ctl s i = Some c \<and> entry c0 \<and> act\<^sup>*\<^sup>* (c0, m0) (c, mem s))"

definition lock_invar :: "('l, 'c, 's) lock_sys \<Rightarrow> bool" where
  "lock_invar s \<longleftrightarrow> ok (lk s) \<and> (\<forall>i. ctl s i \<noteq> None \<longleftrightarrow> inside (lk s) i) \<and> (\<exists>m0. since s m0)"

abbreviation lstep :: "('l, 'c, 's) lock_sys \<Rightarrow> ('l, 'c, 's) lock_sys \<Rightarrow> bool" where
  "lstep \<equiv> lock_step acquire release wait entry act finished unlocked"

lemma only_one: "lock_invar s \<Longrightarrow> ctl s i = Some c \<Longrightarrow> ctl s j \<noteq> None \<Longrightarrow> j = i"
  using exclusive by (metis lock_invar_def option.distinct(1))

lemma since_holder:
  assumes "lock_invar s" "ctl s i = Some c"
  obtains m0 c0 where "operation\<^sup>*\<^sup>* initial m0" "entry c0" "act\<^sup>*\<^sup>* (c0, m0) (c, mem s)"
proof -
  obtain m0 where "since s m0" using assms(1) by (auto simp: lock_invar_def)
  moreover have "\<not> (\<forall>i. ctl s i = None)" using assms(2) by (metis option.distinct(1))
  ultimately obtain j d c0 where "operation\<^sup>*\<^sup>* initial m0" "ctl s j = Some d" "entry c0" "act\<^sup>*\<^sup>* (c0, m0) (d, mem s)"
    unfolding since_def by auto
  moreover from this(2) have "j = i" using only_one [OF assms, of j] by simp
  ultimately show ?thesis using that assms(2) by simp
qed

lemma lock_step_invar: "lstep s t \<Longrightarrow> lock_invar s \<Longrightarrow> lock_invar t"
proof (induction rule: lock_step.induct)
  case (waiting s i l)
  then obtain m0 where "since s m0" by (auto simp: lock_invar_def)
  moreover have "since (s\<lparr>lk := l\<rparr>) m0 \<longleftrightarrow> since s m0" by (simp add: since_def)
  ultimately show ?case using waiting waited [of "lk s" i l] by (auto simp: lock_invar_def)
next
  case (entering s i l c)
  have l: "ok l" "\<not> inside (lk s) j" "inside l j \<longleftrightarrow> j = i" for j
    using acquired [OF _ entering(2), of j] entering(4) by (auto simp: lock_invar_def)
  then have none: "\<forall>j. ctl s j = None" using entering(4) by (metis lock_invar_def)
  then obtain m0 where "operation\<^sup>*\<^sup>* initial m0" "mem s = m0" using entering(4) by (auto simp: lock_invar_def since_def)
  then have "since (s\<lparr>lk := l, ctl := (ctl s)(i := Some c)\<rparr>) m0"
    using entering(3) unfolding since_def by (auto intro!: exI [of _ i] exI [of _ c])
  then show ?case using l none by (auto simp: lock_invar_def)
next
  case (acting s i c c' m)
  obtain m0 c0 where m0: "operation\<^sup>*\<^sup>* initial m0" "entry c0" "act\<^sup>*\<^sup>* (c0, m0) (c, mem s)"
    by (rule since_holder [OF acting(3,1)])
  then have "act\<^sup>*\<^sup>* (c0, m0) (c', m)" using acting(2) by simp
  then have "since (s\<lparr>ctl := (ctl s)(i := Some c'), mem := m\<rparr>) m0"
    using m0(1,2) unfolding since_def by (auto intro!: exI [of _ i] exI [of _ c0])
  then show ?case using acting(1,3) by (auto simp: lock_invar_def)
next
  case (leaving s i c l)
  obtain m0 c0 where m0: "operation\<^sup>*\<^sup>* initial m0" "entry c0" "act\<^sup>*\<^sup>* (c0, m0) (c, mem s)"
    by (rule since_holder [OF leaving(4,1)])
  then have "operation\<^sup>*\<^sup>* initial (mem s)" using sections [OF m0(2,3) leaving(2)] by simp
  moreover have none: "\<forall>j. j \<noteq> i \<longrightarrow> ctl s j = None" using only_one [OF leaving(4,1)] by blast
  ultimately have "since (s\<lparr>lk := l, ctl := (ctl s)(i := None)\<rparr>) (mem s)" by (auto simp: since_def)
  moreover have "inside (lk s) i" using leaving(1,4) unfolding lock_invar_def by (metis option.distinct(1))
  then have "ok l \<and> \<not> inside l j" for j
    using released [OF _ _ leaving(3), of j] leaving(4) by (simp add: lock_invar_def)
  ultimately show ?case using none by (auto simp: lock_invar_def)
next
  case (unguarded s m)
  show ?case
  proof (cases "\<forall>i. ctl s i = None")
    case True
    then obtain m0 where "operation\<^sup>*\<^sup>* initial m0" "mem s = m0" using unguarded(2) by (auto simp: lock_invar_def since_def)
    then have "operation\<^sup>*\<^sup>* initial m" using unlocked [OF unguarded(1)] by simp
    then have "since (s\<lparr>mem := m\<rparr>) m" using True by (simp add: since_def)
    then show ?thesis using unguarded(2) by (auto simp: lock_invar_def)
  next
    case False
    then obtain i c where i: "ctl s i = Some c" by auto
    obtain m0 c0 where m0: "operation\<^sup>*\<^sup>* initial m0" "entry c0" "act\<^sup>*\<^sup>* (c0, m0) (c, mem s)"
      by (rule since_holder [OF unguarded(2) i])
    obtain m3 where m3: "unlocked m0 m3" "act\<^sup>*\<^sup>* (c0, m3) (c, m)" using before_section [OF m0(3) unguarded(1)] by blast
    have "operation\<^sup>*\<^sup>* initial m3" using m0(1) unlocked [OF m3(1)] by simp
    then have "since (s\<lparr>mem := m\<rparr>) m3" using m0(2) m3(2) i unfolding since_def by auto
    then show ?thesis using unguarded(2) by (auto simp: lock_invar_def)
  qed
qed

definition start :: "('l, 'c, 's) lock_sys" where
  "start = \<lparr>lk = unused, ctl = (\<lambda>i. None), mem = initial\<rparr>"

lemma reach_invar: "lstep\<^sup>*\<^sup>* start s \<Longrightarrow> lock_invar s"
proof (induction rule: rtranclp_induct)
  case base
  then show ?case using unused by (auto simp: lock_invar_def since_def start_def)
qed (rule lock_step_invar)

lemma idle_atomic:
  assumes "lstep\<^sup>*\<^sup>* start s" "\<forall>i. \<not> inside (lk s) i"
  shows "operation\<^sup>*\<^sup>* initial (mem s)"
proof -
  have inv: "lock_invar s" by (rule reach_invar [OF assms(1)])
  then have "\<forall>i. ctl s i = None" using assms(2) by (metis lock_invar_def)
  then show ?thesis using inv by (auto simp: lock_invar_def since_def)
qed

lemma section_exclusive: "lstep\<^sup>*\<^sup>* start s \<Longrightarrow> ctl s i \<noteq> None \<Longrightarrow> ctl s j \<noteq> None \<Longrightarrow> i = j"
  using reach_invar only_one by (metis not_Some_eq)

end

end
