(* ===== verification/Spin_Lock.thy ===== *)
theory Spin_Lock
  imports Locking
begin

text \<open>
  \<open>SpinLock\<close> of \<open>lib/spinlock.h\<close>: one \<open>atomic_flag\<close> and any number of threads, each outside,
  spinning in \<open>lock\<close>, or between its \<open>lock\<close> and its \<open>unlock\<close>.  A \<open>test_and_set\<close> and a
  \<open>clear\<close> are one step each.  \<open>Network\<close> holds the lock through a \<open>lock_guard\<close> for the whole
  of \<open>subscribe\<close>, \<open>unsubscribe\<close> and \<open>getSubscriptions\<close>.  The lock is a \<open>mutex\<close> in the sense of
  \<open>Locking\<close>; \<open>Network_Threads\<close> is the client.
\<close>

section \<open>The flag\<close>

text \<open>\<open>test_and_set\<close> returns the old value.\<close>

definition test_and_set :: "bool \<Rightarrow> bool \<times> bool" where
  "test_and_set lockf = (lockf, True)"

text \<open>One round of the loop of \<open>lock\<close>: whether the lock is acquired, and the flag.\<close>

definition SpinLock_lock_round :: "bool \<Rightarrow> bool \<times> bool" where
  "SpinLock_lock_round lockf = (case test_and_set lockf of (old, f) \<Rightarrow> (\<not> old, f))"

definition SpinLock_try_lock :: "bool \<Rightarrow> bool \<times> bool" where
  "SpinLock_try_lock lockf = (case test_and_set lockf of (old, f) \<Rightarrow> (\<not> old, f))"

definition SpinLock_unlock :: "bool \<Rightarrow> bool" where
  "SpinLock_unlock lockf = False"

section \<open>Threads\<close>

datatype lock_pc = Outside | Spinning | Inside

record spin_sys =
  lockf :: bool
  lpc :: "nat \<Rightarrow> lock_pc"

definition spin_init :: spin_sys where
  "spin_init = \<lparr>lockf = False, lpc = (\<lambda>_. Outside)\<rparr>"

inductive spin_step :: "spin_sys \<Rightarrow> spin_sys \<Rightarrow> bool" where
  lock_call: "lpc s i = Outside \<Longrightarrow>
     spin_step s (s\<lparr>lpc := (lpc s)(i := Spinning)\<rparr>)"
| lock_round: "lpc s i = Spinning \<Longrightarrow> SpinLock_lock_round (lockf s) = (got, f) \<Longrightarrow>
     spin_step s (s\<lparr>lockf := f, lpc := (lpc s)(i := if got then Inside else Spinning)\<rparr>)"
| try_lock: "lpc s i = Outside \<Longrightarrow> SpinLock_try_lock (lockf s) = (got, f) \<Longrightarrow>
     spin_step s (s\<lparr>lockf := f, lpc := (lpc s)(i := if got then Inside else Outside)\<rparr>)"
| unlock: "lpc s i = Inside \<Longrightarrow>
     spin_step s (s\<lparr>lockf := SpinLock_unlock (lockf s), lpc := (lpc s)(i := Outside)\<rparr>)"

abbreviation spin_reachable :: "spin_sys \<Rightarrow> bool" where
  "spin_reachable \<equiv> spin_step\<^sup>*\<^sup>* spin_init"

text \<open>While the flag is set exactly one thread is inside; while it is clear, none.\<close>

definition spin_invar :: "spin_sys \<Rightarrow> bool" where
  "spin_invar s \<longleftrightarrow>
     (if lockf s then (\<exists>h. \<forall>i. lpc s i = Inside \<longleftrightarrow> i = h) else (\<forall>i. lpc s i \<noteq> Inside))"

lemmas spin_defs = SpinLock_lock_round_def SpinLock_try_lock_def SpinLock_unlock_def test_and_set_def

lemma spin_step_invar [inv_intros]: "spin_step s t \<Longrightarrow> spin_invar s \<Longrightarrow> spin_invar t"
proof (induction rule: spin_step.induct)
  case (lock_call s i)
  then show ?case by (force simp: spin_invar_def split: if_splits)
next
  case (lock_round s i got f)
  then show ?case
    by (cases "lockf s") (auto simp: spin_invar_def spin_defs fun_upd_idem)
next
  case (try_lock s i got f)
  then show ?case
    by (cases "lockf s") (auto simp: spin_invar_def spin_defs fun_upd_idem)
next
  case (unlock s i)
  then show ?case by (auto simp: spin_invar_def spin_defs split: if_splits)
qed

lemma spin_init_invar: "spin_invar spin_init"
  by (simp add: spin_invar_def spin_init_def)

lemma spin_reachable_invar: "spin_reachable s \<Longrightarrow> spin_invar s"
  by (induction rule: rtranclp_induct) (auto intro: spin_step_invar spin_init_invar)

section \<open>The interface\<close>

definition spin_acquire :: "nat \<Rightarrow> spin_sys \<Rightarrow> spin_sys \<Rightarrow> bool" where
  "spin_acquire i s t \<longleftrightarrow>
     (lpc s i = Spinning \<and> fst (SpinLock_lock_round (lockf s)) \<and>
        t = s\<lparr>lockf := snd (SpinLock_lock_round (lockf s)), lpc := (lpc s)(i := Inside)\<rparr>) \<or>
     (lpc s i = Outside \<and> fst (SpinLock_try_lock (lockf s)) \<and>
        t = s\<lparr>lockf := snd (SpinLock_try_lock (lockf s)), lpc := (lpc s)(i := Inside)\<rparr>)"

definition spin_release :: "nat \<Rightarrow> spin_sys \<Rightarrow> spin_sys \<Rightarrow> bool" where
  "spin_release i s t \<longleftrightarrow>
     lpc s i = Inside \<and> t = s\<lparr>lockf := SpinLock_unlock (lockf s), lpc := (lpc s)(i := Outside)\<rparr>"

definition spin_wait :: "nat \<Rightarrow> spin_sys \<Rightarrow> spin_sys \<Rightarrow> bool" where
  "spin_wait i s t \<longleftrightarrow>
     (lpc s i = Outside \<and> t = s\<lparr>lpc := (lpc s)(i := Spinning)\<rparr>) \<or>
     (lpc s i = Spinning \<and> \<not> fst (SpinLock_lock_round (lockf s)) \<and>
        t = s\<lparr>lockf := snd (SpinLock_lock_round (lockf s))\<rparr>) \<or>
     (lpc s i = Outside \<and> \<not> fst (SpinLock_try_lock (lockf s)) \<and>
        t = s\<lparr>lockf := snd (SpinLock_try_lock (lockf s))\<rparr>)"

text \<open>Together they are the steps of the lock.\<close>

lemma spin_step_parts:
  "spin_step s t \<Longrightarrow> \<exists>i. spin_acquire i s t \<or> spin_release i s t \<or> spin_wait i s t"
proof (induction rule: spin_step.induct)
  case (lock_call s i)
  then have "spin_wait i s (s\<lparr>lpc := (lpc s)(i := Spinning)\<rparr>)" by (simp add: spin_wait_def)
  then show ?case by blast
next
  case (lock_round s i got f)
  then have "if got then spin_acquire i s (s\<lparr>lockf := f, lpc := (lpc s)(i := Inside)\<rparr>)
      else spin_wait i s (s\<lparr>lockf := f, lpc := (lpc s)(i := Spinning)\<rparr>)"
    by (simp add: spin_acquire_def spin_wait_def fun_upd_idem)
  then show ?case by (cases got) auto
next
  case (try_lock s i got f)
  then have "if got then spin_acquire i s (s\<lparr>lockf := f, lpc := (lpc s)(i := Inside)\<rparr>)
      else spin_wait i s (s\<lparr>lockf := f, lpc := (lpc s)(i := Outside)\<rparr>)"
    by (simp add: spin_acquire_def spin_wait_def fun_upd_idem)
  then show ?case by (cases got) auto
next
  case (unlock s i)
  then have "spin_release i s (s\<lparr>lockf := SpinLock_unlock (lockf s), lpc := (lpc s)(i := Outside)\<rparr>)"
    by (simp add: spin_release_def)
  then show ?case by blast
qed

lemma spin_parts_step:
  "spin_acquire i s t \<Longrightarrow> spin_step s t" "spin_release i s t \<Longrightarrow> spin_step s t" "spin_wait i s t \<Longrightarrow> spin_step s t"
proof -
  have round: "SpinLock_lock_round (lockf s) = (fst (SpinLock_lock_round (lockf s)), snd (SpinLock_lock_round (lockf s)))"
    and attempt: "SpinLock_try_lock (lockf s) = (fst (SpinLock_try_lock (lockf s)), snd (SpinLock_try_lock (lockf s)))"
    by simp_all
  show "spin_acquire i s t \<Longrightarrow> spin_step s t"
    using spin_step.lock_round [OF _ round, of i] spin_step.try_lock [OF _ attempt, of i] by (auto simp: spin_acquire_def)
  show "spin_release i s t \<Longrightarrow> spin_step s t"
    using spin_step.unlock [of s i] by (auto simp: spin_release_def)
  show "spin_wait i s t \<Longrightarrow> spin_step s t"
    using spin_step.lock_call [of s i] spin_step.lock_round [OF _ round, of i] spin_step.try_lock [OF _ attempt, of i]
    by (auto simp: spin_wait_def fun_upd_idem)
qed

interpretation spin: mutex spin_acquire spin_release spin_wait "\<lambda>s i. lpc s i = Inside" spin_invar spin_init
proof
  fix l l' i j
  show "spin_invar spin_init" by (rule spin_init_invar)
  show "\<not> lpc spin_init i = Inside" by (simp add: spin_init_def)
  show "i = j" if "spin_invar l" "lpc l i = Inside" "lpc l j = Inside"
    using that by (auto simp: spin_invar_def split: if_splits)
  have step: "spin_invar l'" if "spin_invar l" "spin_acquire i l l' \<or> spin_release i l l' \<or> spin_wait i l l'"
    using that spin_step_invar spin_parts_step by blast
  show "spin_invar l' \<and> \<not> lpc l j = Inside \<and> (lpc l' j = Inside \<longleftrightarrow> j = i)" if "spin_invar l" "spin_acquire i l l'"
    using that step by (auto simp: spin_acquire_def spin_defs spin_invar_def split: if_splits)
  show "spin_invar l' \<and> \<not> lpc l' j = Inside" if "spin_invar l" "lpc l i = Inside" "spin_release i l l'"
    using that step by (auto simp: spin_release_def spin_defs spin_invar_def split: if_splits)
  show "spin_invar l' \<and> (\<lambda>i. lpc l' i = Inside) = (\<lambda>i. lpc l i = Inside)" if "spin_invar l" "spin_wait i l l'"
    using that step by (auto simp: spin_wait_def fun_eq_iff split: if_split_asm)
qed

section \<open>Properties\<close>

text \<open>
  The spin lock gives mutual exclusion to any number of threads, whether they use \<open>lock\<close>
  or \<open>try_lock\<close>, and a round of \<open>lock\<close> succeeds exactly when nobody holds the lock: it is
  never left taken with no holder.
\<close>

theorem SpinLock_mutual_exclusion:
  assumes "spin_reachable s"
  shows "(lpc s i = Inside \<longrightarrow> lpc s j = Inside \<longrightarrow> i = j) \<and>
    (fst (SpinLock_lock_round (lockf s)) \<longleftrightarrow> (\<forall>k. lpc s k \<noteq> Inside))"
  using spin_reachable_invar [OF assms] by (auto simp: spin_invar_def spin_defs split: if_splits)

theorem SpinLock_mutual_exclusion_witness:
  "\<exists>s. spin_reachable s \<and> lpc s 2 = Inside \<and> \<not> fst (SpinLock_lock_round (lockf s))"
proof -
  let ?s1 = "spin_init\<lparr>lpc := (lpc spin_init)(2 := Spinning)\<rparr>"
  let ?s2 = "?s1\<lparr>lockf := True, lpc := (lpc ?s1)(2 := Inside)\<rparr>"
  have "spin_step spin_init ?s1" by (rule lock_call) (simp add: spin_init_def)
  moreover have "spin_step ?s1 ?s2"
    using lock_round [of ?s1 2 True True] by (simp add: spin_defs spin_init_def)
  ultimately have r: "spin_reachable ?s2" by auto
  have "\<not> fst (SpinLock_lock_round (lockf ?s2))"
    using SpinLock_mutual_exclusion [OF r, of 2 2] by (auto intro: exI [of _ 2])
  with r show ?thesis by (intro exI [of _ ?s2]) simp
qed

end
