(* ===== verification/Iostreams.thy ===== *)
theory Iostreams
  imports Prelude "HOL-Library.Char_ord"
begin

text \<open>
  What the program uses of \<open>std::istringstream\<close> and of printing integers: the flags
  \<open>eofbit\<close> and \<open>failbit\<close>, extraction of a word and of unsigned and signed integers of any
  width, and decimal output.  The command protocol of tracker, server, client and time server,
  and \<open>lib/serial.h\<close>, are written with these.

  A target that an extraction leaves alone (because the stream was already bad) keeps its old
  value, so each extraction takes it as an argument.  The behaviour is that of the GNU library
  the makefile builds with; a negative number read as unsigned is reduced modulo the width.
\<close>

section \<open>Streams\<close>

record istream =
  inp :: string
  eofbit :: bool
  failbit :: bool

text \<open>The size of a stream is what is left of its text; loops over a stream make it smaller.\<close>

instantiation istream_ext :: (type) size
begin

definition size_istream_ext :: "'a istream_scheme \<Rightarrow> nat" where
  "size_istream_ext is = length (inp is)"

instance ..

end

definition istringstream :: "string \<Rightarrow> istream" where
  "istringstream s = \<lparr>inp = s, eofbit = False, failbit = False\<rparr>"

definition good :: "istream \<Rightarrow> bool" where
  "good is \<longleftrightarrow> \<not> eofbit is \<and> \<not> failbit is"

definition is_space :: "char \<Rightarrow> bool" where
  "is_space c \<longleftrightarrow> c = CHR 0x20 \<or> (CHR 0x09 \<le> c \<and> c \<le> CHR 0x0D)"

definition is_digit :: "char \<Rightarrow> bool" where
  "is_digit c \<longleftrightarrow> CHR ''0'' \<le> c \<and> c \<le> CHR ''9''"

text \<open>
  The sentry of a formatted extraction: it fails on a stream that is not good, skips white
  space, and fails when nothing is left.
\<close>

definition sentry :: "istream \<Rightarrow> bool \<times> istream" where
  "sentry is =
    (if \<not> good is then (False, is\<lparr>failbit := True\<rparr>)
     else let r = dropWhile is_space (inp is)
       in if r = [] then (False, is\<lparr>inp := [], eofbit := True, failbit := True\<rparr>)
          else (True, is\<lparr>inp := r\<rparr>))"

definition get_word :: "string \<Rightarrow> istream \<Rightarrow> string \<times> istream" where
  "get_word old is =
    (case sentry is of
       (False, is') \<Rightarrow> (old, is')
     | (True, is') \<Rightarrow>
         let r = dropWhile (\<lambda>c. \<not> is_space c) (inp is')
         in (takeWhile (\<lambda>c. \<not> is_space c) (inp is'), is'\<lparr>inp := r, eofbit := (r = [])\<rparr>))"

definition digit_value :: "char \<Rightarrow> nat" where
  "digit_value c = of_char c - 48"

definition digits_value :: "string \<Rightarrow> nat" where
  "digits_value ds = foldl (\<lambda>a c. 10 * a + digit_value c) 0 ds"

text \<open>An optional sign, then digits: the sign, the digits, and what follows.\<close>

definition split_number :: "string \<Rightarrow> bool \<times> string \<times> string" where
  "split_number s =
    (let neg = (case s of c # _ \<Rightarrow> c = CHR ''-'' | [] \<Rightarrow> False);
         signed = (case s of c # _ \<Rightarrow> c = CHR ''-'' \<or> c = CHR ''+'' | [] \<Rightarrow> False);
         r = (if signed then tl s else s)
     in (neg, takeWhile is_digit r, dropWhile is_digit r))"

definition get_unsigned :: "'a::len word \<Rightarrow> istream \<Rightarrow> 'a word \<times> istream" where
  "get_unsigned old is =
    (case sentry is of
       (False, is') \<Rightarrow> (old, is')
     | (True, is') \<Rightarrow>
         (case split_number (inp is') of (neg, ds, r) \<Rightarrow>
            let is'' = is'\<lparr>inp := r, eofbit := (r = [])\<rparr>; n = digits_value ds
            in if ds = [] then (0, is''\<lparr>failbit := True\<rparr>)
               else if n \<ge> 2 ^ LENGTH('a) then (- 1, is''\<lparr>failbit := True\<rparr>)
               else (if neg then - of_nat n else of_nat n, is'')))"

text \<open>A signed integer of \<open>w\<close> bits; out of range it is the nearest value and the stream fails.\<close>

definition get_signed :: "nat \<Rightarrow> int \<Rightarrow> istream \<Rightarrow> int \<times> istream" where
  "get_signed w old is =
    (case sentry is of
       (False, is') \<Rightarrow> (old, is')
     | (True, is') \<Rightarrow>
         (case split_number (inp is') of (neg, ds, r) \<Rightarrow>
            let is'' = is'\<lparr>inp := r, eofbit := (r = [])\<rparr>; n = int (digits_value ds)
            in if ds = [] then (0, is''\<lparr>failbit := True\<rparr>)
               else if neg then
                 (if n > 2 ^ (w - 1) then (- (2 ^ (w - 1)), is''\<lparr>failbit := True\<rparr>) else (- n, is''))
               else
                 (if n \<ge> 2 ^ (w - 1) then (2 ^ (w - 1) - 1, is''\<lparr>failbit := True\<rparr>) else (n, is''))))"

section \<open>Decimal output\<close>

fun show_nat :: "nat \<Rightarrow> string" where
  "show_nat n = (if n < 10 then [char_of (48 + n)] else show_nat (n div 10) @ [char_of (48 + n mod 10)])"

declare show_nat.simps [simp del]

definition show_word :: "'a::len word \<Rightarrow> string" where
  "show_word w = show_nat (unat w)"

definition show_int :: "int \<Rightarrow> string" where
  "show_int i = (if i < 0 then CHR ''-'' # show_nat (nat (- i)) else show_nat (nat i))"

section \<open>C strings\<close>

abbreviation NUL :: char where
  "NUL \<equiv> CHR 0x00"

text \<open>The characters of a buffer up to the first zero.\<close>

definition c_string :: "string \<Rightarrow> string" where
  "c_string buff = takeWhile (\<lambda>c. c \<noteq> NUL) buff"

lemma c_string_message: "NUL \<notin> set msg \<Longrightarrow> c_string (msg @ NUL # r) = msg"
  by (simp add: c_string_def takeWhile_append)

section \<open>Digits\<close>

lemma of_char_digit [simp]: "d < 10 \<Longrightarrow> of_char (char_of (48 + d) :: char) = 48 + d" for d :: nat
  by simp

lemma is_digit_digit: "d < 10 \<Longrightarrow> is_digit (char_of (48 + d))" for d :: nat
  by (simp add: is_digit_def less_eq_char_def)

lemma digit_value_digit: "d < 10 \<Longrightarrow> digit_value (char_of (48 + d)) = d" for d :: nat
  by (simp add: digit_value_def)

lemma digit_no_space: "is_digit c \<Longrightarrow> \<not> is_space c"
  by (auto simp: is_digit_def is_space_def less_eq_char_def)

lemma digit_no_sign: "is_digit c \<Longrightarrow> c \<noteq> CHR ''-'' \<and> c \<noteq> CHR ''+''"
  by (auto simp: is_digit_def less_eq_char_def)

lemma sign_no_space [simp]: "\<not> is_space (CHR ''-'')"
  by (simp add: is_space_def less_eq_char_def)

lemma space_no_digit: "is_space c \<Longrightarrow> \<not> is_digit c"
  using digit_no_space by blast

lemma space_is_space [simp]: "is_space (CHR '' '')"
  by (simp add: is_space_def)

lemma show_nat_nonempty [simp]: "show_nat n \<noteq> []"
  by (subst show_nat.simps) simp

lemma show_int_nonempty [simp]: "show_int i \<noteq> []"
  by (simp add: show_int_def)

lemma show_nat_digits: "c \<in> set (show_nat n) \<Longrightarrow> is_digit c"
proof (induction n rule: show_nat.induct)
  case (1 n)
  show ?case
  proof (cases "n < 10")
    case True
    with "1.prems" show ?thesis by (subst (asm) show_nat.simps) (simp add: is_digit_digit)
  next
    case False
    then have "show_nat n = show_nat (n div 10) @ [char_of (48 + n mod 10)]"
      by (subst show_nat.simps) simp
    with 1 False show ?thesis by (auto simp: is_digit_digit)
  qed
qed

lemma digits_value_snoc: "digits_value (ds @ [c]) = 10 * digits_value ds + digit_value c"
  by (simp add: digits_value_def)

lemma digits_value_show_nat [simp]: "digits_value (show_nat n) = n"
proof (induction n rule: show_nat.induct)
  case (1 n)
  show ?case
  proof (cases "n < 10")
    case True
    then show ?thesis by (subst show_nat.simps) (simp add: digits_value_def digit_value_digit)
  next
    case False
    then have "show_nat n = show_nat (n div 10) @ [char_of (48 + n mod 10)]"
      by (subst show_nat.simps) simp
    with 1 False show ?thesis by (simp add: digits_value_snoc digit_value_digit)
  qed
qed

lemma hd_show_nat: "is_digit (hd (show_nat n))"
  by (rule show_nat_digits [OF hd_in_set]) simp

lemma length_show_nat: "n < 10 ^ Suc k \<Longrightarrow> length (show_nat n) \<le> Suc k"
proof (induction k arbitrary: n)
  case 0
  then show ?case by (simp add: show_nat.simps)
next
  case (Suc k)
  show ?case
  proof (cases "n < 10")
    case True
    then show ?thesis by (simp add: show_nat.simps)
  next
    case False
    then have "show_nat n = show_nat (n div 10) @ [char_of (48 + n mod 10)]"
      by (subst show_nat.simps) simp
    moreover have "n div 10 < 10 ^ Suc k" using Suc.prems by (simp add: div_less_iff_less_mult)
    ultimately show ?thesis using Suc.IH [of "n div 10"] by simp
  qed
qed

lemma show_nat_no_NUL: "NUL \<notin> set (show_nat n)"
  using show_nat_digits [of NUL n] by (auto simp: is_digit_def less_eq_char_def)

lemma show_word_no_NUL [simp]: "NUL \<notin> set (show_word w)"
  by (simp add: show_word_def show_nat_no_NUL)

section \<open>Reading back what was printed\<close>

text \<open>A field ends at white space or at the end of the message.\<close>

definition field_end :: "string \<Rightarrow> bool" where
  "field_end r \<longleftrightarrow> (case r of [] \<Rightarrow> True | c # _ \<Rightarrow> is_space c)"

lemma field_end_simps [simp]: "field_end []" "field_end (c # r) \<longleftrightarrow> is_space c"
  by (simp_all add: field_end_def)

text \<open>
  The contract between whoever prints a message and whoever extracts it: a printed value,
  after any white space and before the end of the field, is read back, the rest is left, and
  the stream is good unless the message ended there.
\<close>

locale message_field =
  fixes put :: "'v \<Rightarrow> string"
    and get :: "'v \<Rightarrow> istream \<Rightarrow> 'v \<times> istream"
    and valid :: "'v \<Rightarrow> bool"
  assumes put_starts: "valid v \<Longrightarrow> \<exists>c cs. put v = c # cs \<and> \<not> is_space c"
    and get_put: "valid v \<Longrightarrow> field_end r \<Longrightarrow>
      get old \<lparr>inp = put v @ r, eofbit = False, failbit = False\<rparr> =
        (v, \<lparr>inp = r, eofbit = (r = []), failbit = False\<rparr>)"
    and get_sentry: "get old is = (case sentry is of (False, is') \<Rightarrow> (old, is') | (True, is') \<Rightarrow> get old is')"
begin

lemma sentry_skip:
  "valid v \<Longrightarrow> list_all is_space w \<Longrightarrow>
     sentry \<lparr>inp = w @ put v @ r, eofbit = False, failbit = False\<rparr> =
       (True, \<lparr>inp = put v @ r, eofbit = False, failbit = False\<rparr>)"
  using put_starts [of v]
  by (auto simp: sentry_def good_def Let_def dropWhile_append list_all_iff)

lemma get_after_space:
  assumes "valid v" "field_end r" "list_all is_space w"
  shows "get old \<lparr>inp = w @ put v @ r, eofbit = False, failbit = False\<rparr> =
    (v, \<lparr>inp = r, eofbit = (r = []), failbit = False\<rparr>)"
  using assms by (subst get_sentry) (simp add: sentry_skip get_put)

lemma get_space1:
  "valid v \<Longrightarrow> field_end r \<Longrightarrow>
     get old \<lparr>inp = CHR '' '' # put v @ r, eofbit = False, failbit = False\<rparr> =
       (v, \<lparr>inp = r, eofbit = (r = []), failbit = False\<rparr>)"
  using get_after_space [of v r "'' ''"] by simp

lemma get_last:
  "valid v \<Longrightarrow> get old \<lparr>inp = CHR '' '' # put v, eofbit = False, failbit = False\<rparr> =
     (v, \<lparr>inp = [], eofbit = True, failbit = False\<rparr>)"
  using get_space1 [of v "[]"] by simp

text \<open>On a stream that has ended or failed an extraction leaves its target alone.\<close>

lemma get_not_good: "\<not> good is \<Longrightarrow> get old is = (old, is\<lparr>failbit := True\<rparr>)"
  by (subst get_sentry) (simp add: sentry_def)

lemma get_blank:
  "list_all is_space w \<Longrightarrow> get old \<lparr>inp = w, eofbit = False, failbit = False\<rparr> =
     (old, \<lparr>inp = [], eofbit = True, failbit = True\<rparr>)"
  by (subst get_sentry) (simp add: sentry_def good_def list_all_iff flip: dropWhile_eq_Nil_conv)

end

lemma sentry_fixed:
  "inp is = c # cs \<Longrightarrow> \<not> is_space c \<Longrightarrow> good is \<Longrightarrow> sentry is = (True, is)"
  by (cases "is") (simp add: sentry_def)

lemma sentry_idem: "sentry is = (True, is') \<Longrightarrow> sentry is' = (True, is')"
proof -
  assume s: "sentry is = (True, is')"
  then have g: "good is" and i: "is' = is\<lparr>inp := dropWhile is_space (inp is)\<rparr>"
    and ne: "dropWhile is_space (inp is) \<noteq> []"
    by (auto simp: sentry_def Let_def split: if_splits)
  then obtain c cs where "dropWhile is_space (inp is) = c # cs" "\<not> is_space c"
    by (metis hd_dropWhile list.collapse)
  with g i show ?thesis by (simp add: sentry_fixed good_def)
qed

lemma number_split:
  assumes "field_end r"
  shows "split_number (show_nat n @ r) = (False, show_nat n, r)"
proof -
  obtain c cs where c: "show_nat n = c # cs" by (cases "show_nat n") auto
  then have "is_digit c" using show_nat_digits [of c n] by simp
  have "takeWhile is_digit (show_nat n @ r) = show_nat n"
    and "dropWhile is_digit (show_nat n @ r) = r"
    using assms by (auto simp: takeWhile_append dropWhile_append show_nat_digits
        takeWhile_eq_Nil_iff field_end_def split: list.splits dest: space_no_digit)
  with c digit_no_sign [OF \<open>is_digit c\<close>] show ?thesis by (simp add: split_number_def Let_def)
qed

lemma negative_split:
  assumes "field_end r"
  shows "split_number (CHR ''-'' # show_nat n @ r) = (True, show_nat n, r)"
proof -
  have "takeWhile is_digit (show_nat n @ r) = show_nat n"
    and "dropWhile is_digit (show_nat n @ r) = r"
    using assms by (auto simp: takeWhile_append dropWhile_append show_nat_digits
        takeWhile_eq_Nil_iff field_end_def split: list.splits dest: space_no_digit)
  then show ?thesis by (simp add: split_number_def Let_def)
qed

lemma show_nat_starts: "\<exists>c cs. show_nat n = c # cs \<and> \<not> is_space c"
  using hd_show_nat [of n] show_nat_nonempty [of n] digit_no_space
  by (cases "show_nat n") auto

lemma sentry_at_field:
  "s = c # cs \<Longrightarrow> \<not> is_space c \<Longrightarrow>
     sentry \<lparr>inp = s @ r, eofbit = False, failbit = False\<rparr> =
       (True, \<lparr>inp = s @ r, eofbit = False, failbit = False\<rparr>)"
  by (simp add: sentry_def good_def)

lemma sentry_show_nat:
  "sentry \<lparr>inp = show_nat n @ r, eofbit = False, failbit = False\<rparr> =
     (True, \<lparr>inp = show_nat n @ r, eofbit = False, failbit = False\<rparr>)"
  using show_nat_starts [of n] sentry_at_field by blast

lemma sentry_minus:
  "sentry \<lparr>inp = CHR ''-'' # r, eofbit = False, failbit = False\<rparr> =
     (True, \<lparr>inp = CHR ''-'' # r, eofbit = False, failbit = False\<rparr>)"
  by (simp add: sentry_def good_def)

interpretation unsigned_field: message_field show_word get_unsigned "\<lambda>_. True"
proof unfold_locales
  fix v old :: "'a::len word" and "is" r
  show "\<exists>c cs. show_word v = c # cs \<and> \<not> is_space c"
    unfolding show_word_def by (rule show_nat_starts)
  show "get_unsigned old is = (case sentry is of (False, is') \<Rightarrow> (old, is') | (True, is') \<Rightarrow> get_unsigned old is')"
    by (auto simp: get_unsigned_def sentry_idem split: prod.splits bool.splits)
  assume "field_end r"
  then show "get_unsigned old \<lparr>inp = show_word v @ r, eofbit = False, failbit = False\<rparr> =
      (v, \<lparr>inp = r, eofbit = (r = []), failbit = False\<rparr>)"
    using unsigned_less [where w = v and ?'a = nat]
    by (simp add: get_unsigned_def show_word_def sentry_show_nat number_split Let_def not_le)
qed

definition signed_range :: "nat \<Rightarrow> int \<Rightarrow> bool" where
  "signed_range w i \<longleftrightarrow> - (2 ^ (w - 1)) \<le> i \<and> i < 2 ^ (w - 1)"

interpretation signed_field: message_field show_int "get_signed w" "signed_range w" for w
proof unfold_locales
  fix v old :: int and "is" r
  show "\<exists>c cs. show_int v = c # cs \<and> \<not> is_space c"
    using show_nat_starts by (auto simp: show_int_def)
  show "get_signed w old is = (case sentry is of (False, is') \<Rightarrow> (old, is') | (True, is') \<Rightarrow> get_signed w old is')"
    by (auto simp: get_signed_def sentry_idem split: prod.splits bool.splits)
  assume v: "signed_range w v" and "field_end r"
  then show "get_signed w old \<lparr>inp = show_int v @ r, eofbit = False, failbit = False\<rparr> =
      (v, \<lparr>inp = r, eofbit = (r = []), failbit = False\<rparr>)"
    using v
    by (auto simp: get_signed_def show_int_def sentry_show_nat sentry_minus number_split
        negative_split Let_def signed_range_def)
qed

definition plain_word :: "string \<Rightarrow> bool" where
  "plain_word s \<longleftrightarrow> s \<noteq> [] \<and> list_all (\<lambda>c. \<not> is_space c) s"

interpretation word_field: message_field "\<lambda>s. s" get_word plain_word
proof unfold_locales
  fix v old r :: string and "is"
  show "plain_word v \<Longrightarrow> \<exists>c cs. v = c # cs \<and> \<not> is_space c"
    by (cases v) (auto simp: plain_word_def)
  show "get_word old is = (case sentry is of (False, is') \<Rightarrow> (old, is') | (True, is') \<Rightarrow> get_word old is')"
    by (auto simp: get_word_def sentry_idem split: prod.splits bool.splits)
  assume v: "plain_word v" and "field_end r"
  obtain c cs where c: "v = c # cs" "\<not> is_space c" using v by (cases v) (auto simp: plain_word_def)
  have "takeWhile (\<lambda>c. \<not> is_space c) (v @ r) = v" "dropWhile (\<lambda>c. \<not> is_space c) (v @ r) = r"
    using v \<open>field_end r\<close>
    by (auto simp: takeWhile_append dropWhile_append takeWhile_eq_Nil_iff plain_word_def list_all_iff
        field_end_def split: list.splits)
  then show "get_word old \<lparr>inp = v @ r, eofbit = False, failbit = False\<rparr> =
      (v, \<lparr>inp = r, eofbit = (r = []), failbit = False\<rparr>)"
    using sentry_at_field [OF c] by (simp add: get_word_def Let_def del: dropWhile_eq_Nil_conv)
qed

lemmas field_rules = unsigned_field.get_space1 unsigned_field.get_last unsigned_field.get_put
  signed_field.get_space1 signed_field.get_last word_field.get_put word_field.get_space1
  word_field.get_last

section \<open>atoi and getline\<close>

text \<open>
  \<open>atoi\<close> of the GNU library: \<open>strtol\<close>, which stops at the ends of a \<open>long\<close>, cut to an \<open>int\<close>.
\<close>

definition strtol :: "string \<Rightarrow> int" where
  "strtol s =
    (case split_number (dropWhile is_space s) of
       (neg, ds, r) \<Rightarrow>
         let n = int (digits_value ds)
         in if neg then max (- (2 ^ 63)) (- n) else min (2 ^ 63 - 1) n)"

definition atoi :: "string \<Rightarrow> int" where
  "atoi s = as_int32 (strtol s)"

text \<open>The lines a loop over \<open>getline\<close> sees: a last line need not be terminated.\<close>

abbreviation NL :: char where
  "NL \<equiv> CHR 0x0A"

fun getlines_aux :: "string \<Rightarrow> string \<Rightarrow> string list" where
  "getlines_aux line [] = (if line = [] then [] else [rev line])"
| "getlines_aux line (c # cs) = (if c = NL then rev line # getlines_aux [] cs else getlines_aux (c # line) cs)"

definition getlines :: "string \<Rightarrow> string list" where
  "getlines s = getlines_aux [] s"

lemma getlines_aux_line:
  "NL \<notin> set l \<Longrightarrow> getlines_aux acc (l @ NL # r) = (rev acc @ l) # getlines_aux [] r"
  by (induction l arbitrary: acc) auto

lemma getlines_line: "NL \<notin> set l \<Longrightarrow> getlines (l @ NL # r) = l # getlines r"
  by (simp add: getlines_def getlines_aux_line)

lemma getlines_Nil [simp]: "getlines [] = []"
  by (simp add: getlines_def)

text \<open>A number ends at whatever is not a digit.\<close>

definition digits_end :: "string \<Rightarrow> bool" where
  "digits_end r \<longleftrightarrow> (case r of [] \<Rightarrow> True | c # _ \<Rightarrow> \<not> is_digit c)"

lemma take_show_nat:
  assumes "digits_end r"
  shows "takeWhile is_digit (show_nat n @ r) = show_nat n" "dropWhile is_digit (show_nat n @ r) = r"
  using assms by (auto simp: takeWhile_append dropWhile_append show_nat_digits takeWhile_eq_Nil_iff
      digits_end_def split: list.splits)

lemma strtol_nat:
  assumes "digits_end r" "int n < 2 ^ 63"
  shows "strtol (show_nat n @ r) = int n"
proof -
  obtain c cs where c: "show_nat n = c # cs" "is_digit c"
    using show_nat_digits [of _ n] by (cases "show_nat n") auto
  then have "dropWhile is_space (show_nat n @ r) = show_nat n @ r"
    using digit_no_space by simp
  moreover have "split_number (show_nat n @ r) = (False, show_nat n, r)"
    using c digit_no_sign [OF c(2)] take_show_nat [OF assms(1), of n]
    by (simp add: split_number_def Let_def)
  ultimately show ?thesis using assms(2) by (simp add: strtol_def Let_def)
qed

lemma strtol_minus:
  assumes "digits_end r" "int n \<le> 2 ^ 63"
  shows "strtol (CHR ''-'' # show_nat n @ r) = - int n"
proof -
  have "split_number (CHR ''-'' # show_nat n @ r) = (True, show_nat n, r)"
    using take_show_nat [OF assms(1), of n] by (simp add: split_number_def Let_def)
  then show ?thesis using assms(2) by (simp add: strtol_def Let_def)
qed

lemma atoi_show_int:
  assumes "signed_range 32 i" "digits_end r"
  shows "atoi (show_int i @ r) = i"
proof -
  have "strtol (show_int i @ r) = i"
    using assms strtol_nat [OF assms(2), of "nat i"] strtol_minus [OF assms(2), of "nat (- i)"]
    by (auto simp: show_int_def signed_range_def)
  then show ?thesis using assms(1) by (simp add: atoi_def signed_range_def as_int32_id)
qed

lemma show_word_int: "show_word w = show_int (uint w)"
  by (simp add: show_word_def show_int_def flip: nat_uint_eq)

lemma atoi_show_word:
  fixes w :: "32 word"
  assumes "uint w < 2 ^ 31" "digits_end r"
  shows "atoi (show_word w @ r) = uint w"
proof -
  have "- (2 ^ 31) \<le> uint w" by (rule order_trans [OF _ uint_ge_0]) simp
  then have "signed_range 32 (uint w)" using assms(1) by (simp add: signed_range_def)
  then show ?thesis unfolding show_word_int using assms(2) by (rule atoi_show_int)
qed

lemma atoi_no_number:
  "\<not> is_digit c \<Longrightarrow> \<not> is_space c \<Longrightarrow> c \<noteq> CHR ''-'' \<Longrightarrow> c \<noteq> CHR ''+'' \<Longrightarrow> atoi (c # s) = 0"
  by (simp add: atoi_def strtol_def split_number_def Let_def digits_value_def as_int32_def)

end
