(* ===== verification/Misc.thy ===== *)
theory Misc
  imports Iostreams
begin

unbundle bit_operations_syntax

text \<open>
  The helpers of \<open>lib/misc.h\<close> that compute: dotted addresses, comparison modulo a bound,
  the millisecond clock, and the replacement of the loopback address.
\<close>

section \<open>Addresses\<close>

text \<open>\<open>ipStr\<close> prints an address that is in network byte order on a little-endian host.\<close>

definition ipStr :: "IP \<Rightarrow> string" where
  "ipStr ip = show_word (ip AND 0xFF) @ ''.'' @ show_word (drop_bit 8 ip AND 0xFF) @ ''.'' @
     show_word (drop_bit 16 ip AND 0xFF) @ ''.'' @ show_word (drop_bit 24 ip)"

text \<open>
  \<open>localIP\<close> reads an \<open>unsigned long\<close>, eight bytes on LP64, from the address of \<open>127.0.0.1\<close>, which has
  four.  The argument is the resolver's answer, as the bytes from the address on.
\<close>

definition localIP :: "byte list option \<Rightarrow> IP" where
  "localIP he =
    (case he of
       None \<Rightarrow> 0
     | Some h_addr \<Rightarrow> of_nat (from_le (take 8 h_addr)))"

text \<open>\<open>lip\<close> is what \<open>localIP()\<close> returned when it was called first.\<close>

definition replaceLo :: "IP \<Rightarrow> IP \<Rightarrow> IP \<Rightarrow> IP" where
  "replaceLo lip ip replacement = (if ip = lip then replacement else ip)"

section \<open>Comparison modulo a bound\<close>

text \<open>
  \<open>modLess\<close> at a type whose values do not wrap below twice the modulus.
\<close>

definition modLess :: "nat \<Rightarrow> nat \<Rightarrow> nat \<Rightarrow> bool" where
  "modLess a b md =
    (let half = md div 2
     in if a < half then (if b < half then a < b else a + half < b)
        else (if half \<le> b then a < b else b + half < a))"

text \<open>What the comment above it promises: \<open>b\<close> is ahead of \<open>a\<close> by less than half the modulus.\<close>

definition ahead :: "nat \<Rightarrow> nat \<Rightarrow> nat \<Rightarrow> bool" where
  "ahead a b md \<longleftrightarrow> (\<exists>x. 0 < x \<and> x < md div 2 \<and> b = (a + x) mod md)"

section \<open>The millisecond clock\<close>

text \<open>\<open>unsigned long long ms\<close>, reduced modulo \<open>INT_MAX\<close> and returned as an \<open>int\<close>.\<close>

definition getMs :: "Time \<Rightarrow> int" where
  "getMs t = uint (word_of_int (to_ms t) :: u64) mod (2 ^ 31 - 1)"

section \<open>The spinner\<close>

definition spinner_syms :: string where
  "spinner_syms = [CHR ''/'', CHR 0x7E, CHR 0x5C, CHR 0x7C]"

text \<open>What is printed and the next value of the static index, a \<open>size_t\<close>.\<close>

definition spinner :: "u64 \<Rightarrow> string \<times> u64" where
  "spinner idx =
    ([CHR 0x08, CHR 0x08, CHR 0x08, CHR 0x20, spinner_syms ! unat (idx mod of_nat (length spinner_syms)), CHR 0x20], idx + 1)"

section \<open>Properties\<close>

lemma byte_le_255: "unat (w AND 0xFF :: u64) \<le> 255"
proof -
  have "unat (w AND 0xFF) \<le> unat (0xFF :: u64)"
    by (rule word_and_le1 [THEN word_le_nat_alt [THEN iffD1]])
  then show ?thesis by simp
qed

lemma from_le_append: "from_le (a @ b) = from_le a + 256 ^ length a * from_le b"
  by (induction a) (simp_all add: algebra_simps)

lemma from_le_0: "from_le bs = 0 \<longleftrightarrow> bs = replicate (length bs) 0"
  by (induction bs) (auto simp: unsigned_eq_0_iff)

text \<open>The loopback address is recognised, and replaced, exactly when the four bytes that follow it in
  memory are zero.
\<close>

theorem loopback_recognised:
  assumes "length after = 4" and "replacement \<noteq> 0x0100007F"
  shows "replaceLo (localIP (Some ([127, 0, 0, 1] @ after @ others))) 0x0100007F replacement = replacement \<longleftrightarrow>
    after = [0, 0, 0, 0]"
proof -
  define n where "n = 0x0100007F + 2 ^ 32 * from_le after"
  have "from_le after < 256 ^ 4" using from_le_bound [of after] assms(1) by simp
  then have "n < 2 ^ 64" by (simp add: n_def)
  then have "unat (of_nat n :: IP) = n" by (simp add: unat_of_nat take_bit_nat_eq_self)
  then have "(0x0100007F :: IP) = of_nat n \<longleftrightarrow> n = unat (0x0100007F :: IP)"
    by (metis word_unat_eq_iff)
  then have "(0x0100007F :: IP) = of_nat n \<longleftrightarrow> from_le after = 0" by (simp add: n_def)
  moreover have "localIP (Some ([127, 0, 0, 1] @ after @ others)) = of_nat n"
  proof -
    have "take 8 ([127, 0, 0, 1] @ after @ others) = [127, 0, 0, 1] @ after" using assms(1) by simp
    moreover have "from_le ([127, 0, 0, 1] @ after) = n" by (simp add: n_def)
    ultimately show ?thesis by (simp only: localIP_def option.case)
  qed
  ultimately show ?thesis
    using assms from_le_0 [of after] by (auto simp: replaceLo_def numeral_eq_Suc)
qed

theorem loopback_recognised_witness:
  "replaceLo (localIP (Some [127, 0, 0, 1, 0, 0, 0, 0])) 0x0100007F 0x0200A8C0 = 0x0200A8C0 \<and>
   replaceLo (localIP (Some [127, 0, 0, 1, 0, 0, 0, 1])) 0x0100007F 0x0200A8C0 \<noteq> 0x0200A8C0"
  using loopback_recognised [of "[0, 0, 0, 0]" "0x0200A8C0" "[]"] loopback_recognised [of "[0, 0, 0, 1]" "0x0200A8C0" "[]"]
  by simp

lemma modLess_same_half:
  "a < md \<Longrightarrow> b < md \<Longrightarrow> (a < md div 2 \<longleftrightarrow> b < md div 2) \<Longrightarrow> modLess a b md \<longleftrightarrow> a < b"
  by (auto simp: modLess_def Let_def)

lemma ahead_iff:
  assumes "a < md" "b < md" "even md"
  shows "ahead a b md \<longleftrightarrow> (a < b \<and> b < a + md div 2) \<or> (b < a \<and> b + md div 2 < a)"
proof
  assume "ahead a b md"
  then obtain x where x: "0 < x" "x < md div 2" "b = (a + x) mod md" by (auto simp: ahead_def)
  have "a + x < 2 * md" using assms x by linarith
  then have "(a + x) mod md = (if a + x < md then a + x else a + x - md)"
    by (simp add: mod_if le_mod_geq)
  with x assms show "(a < b \<and> b < a + md div 2) \<or> (b < a \<and> b + md div 2 < a)"
    by (auto split: if_splits elim!: evenE)
next
  assume "(a < b \<and> b < a + md div 2) \<or> (b < a \<and> b + md div 2 < a)"
  then show "ahead a b md"
  proof
    assume "a < b \<and> b < a + md div 2"
    with assms show ?thesis unfolding ahead_def by (intro exI [of _ "b - a"]) auto
  next
    assume l: "b < a \<and> b + md div 2 < a"
    with assms have "(a + (md + b - a)) mod md = b" by simp
    with l assms show ?thesis unfolding ahead_def
      by (intro exI [of _ "md + b - a"]) (auto elim!: evenE)
  qed
qed

text \<open>
  \<open>modLess a b mod\<close> is the order its comment describes (\<open>b\<close> reached from \<open>a\<close> by less than
  half a turn) whenever \<open>a\<close> is in the upper half or \<open>b\<close> in the lower; for \<open>a\<close> in the lower and
  \<open>b\<close> in the upper half it is the opposite, apart from the two numbers exactly half a turn
  apart.
\<close>

theorem modLess_ahead:
  assumes "even md" and "a < md" and "b < md"
  shows "(md div 2 \<le> a \<or> b < md div 2 \<longrightarrow> modLess a b md = ahead a b md) \<and>
    (a < md div 2 \<longrightarrow> md div 2 \<le> b \<longrightarrow> b \<noteq> a + md div 2 \<longrightarrow> modLess a b md = (\<not> ahead a b md))"
  using assms by (auto simp: modLess_def Let_def ahead_iff)

theorem modLess_ahead_witness:
  "modLess 9 0 10 = ahead 9 0 10 \<and> modLess 4 6 10 = (\<not> ahead 4 6 10) \<and> \<not> modLess 4 6 10"
proof -
  have "modLess 9 0 10 = ahead 9 0 10" "modLess 4 6 10 = (\<not> ahead 4 6 10)"
    using modLess_ahead [of 10 9 0] modLess_ahead [of 10 4 6] by simp_all
  then show ?thesis by (simp add: modLess_def)
qed

section \<open>Printing times and durations\<close>

text \<open>A time is printed as whole seconds, a point, and the remaining microseconds.\<close>

definition print_time :: "Time \<Rightarrow> string" where
  "print_time t =
    (let perSec = 1000000; count = to_us t; sec = count sdiv perSec; fraction = count smod perSec
     in show_int sec @ ''.'' @ show_int fraction @ ''s'')"

datatype period = Nano | Micro | Milli | Seconds | Minutes | Hours

fun period_name :: "period \<Rightarrow> string" where
  "period_name Nano = ''ns''"
| "period_name Micro = ''us''"
| "period_name Milli = ''ms''"
| "period_name Seconds = ''s''"
| "period_name Minutes = ''m''"
| "period_name Hours = ''h''"

definition print_duration :: "period \<Rightarrow> int \<Rightarrow> string" where
  "print_duration p count = show_int count @ period_name p"

text \<open>
  The microseconds are printed without leading zeros: one second and five microseconds reads as
  one and a half.
\<close>

lemma print_time_us:
  assumes "0 \<le> s" "0 \<le> us" "us < 1000000"
  shows "print_time (seconds s + microseconds us) = show_int s @ ''.'' @ show_int us @ ''s''"
proof -
  have "to_us (seconds s + microseconds us) = 1000000 * s + us"
    using to_us_scaled [of "1000000 * s + us"] by (simp add: algebra_simps)
  then show ?thesis
    using assms by (simp add: print_time_def sdiv_pos smod_pos)
qed

theorem print_time_misread: "print_time (seconds 1 + microseconds 5) = ''1.5s''"
  using print_time_us [of 1 5] by (simp add: show_int_def show_nat.simps char_of_def bit_0)

end
