(* ===== verification/Time_Sync.thy ===== *)
theory Time_Sync
  imports Misc
begin

text \<open>
  \<open>TimeSync\<close> of \<open>lib/timesync.h\<close> and \<open>lib/timesync.cpp\<close>: the client of the time server.  Its
  state is the estimated offset \<open>delta\<close> in microseconds (a static member), the times of the last
  request and the last reply, and two addresses.  \<open>calculate\<close> updates the offset from one
  exchange; \<open>sync_round\<close> is the body of the endless loop of \<open>sync\<close>, a function of what the
  socket and the clock deliver, returning the datagrams it sends.
\<close>

section \<open>State\<close>

record timesync =
  delta :: int
  lastLocal :: Time
  lastReply :: Time
  trackerAddr :: sockaddr
  serverAddr :: sockaddr

definition SYNC_INTERVAL :: int where
  "SYNC_INTERVAL = 60"

definition SYNC_TIMEOUT :: int where
  "SYNC_TIMEOUT = 3 * SYNC_INTERVAL"

definition TimeSync_init :: "IP \<Rightarrow> u16 \<Rightarrow> Time \<Rightarrow> timesync" where
  "TimeSync_init ip port now =
    \<lparr>delta = 0, lastLocal = now - seconds SYNC_TIMEOUT, lastReply = now - seconds SYNC_TIMEOUT,
     trackerAddr = \<lparr>s_addr = ucast ip, sin_port = port\<rparr>,
     serverAddr = \<lparr>s_addr = 0, sin_port = 0\<rparr>\<rparr>"

section \<open>Conversion of times\<close>

definition toNetwork :: "int \<Rightarrow> Time \<Rightarrow> Time" where
  "toNetwork dt localTime = localTime - microseconds dt"

definition toLocal :: "int \<Rightarrow> Time \<Rightarrow> Time" where
  "toLocal dt networkTime = networkTime + microseconds dt"

section \<open>One exchange with the time server\<close>

text \<open>The offset a single exchange measures: \<open>diff\<close> of \<open>calculate\<close>.\<close>

definition exchange_diff :: "Time \<Rightarrow> Time \<Rightarrow> int \<Rightarrow> int" where
  "exchange_diff lastLoc t0 remoteUs =
    (let sent = to_us lastLoc;
         trip = to_us (t0 - lastLoc)
     in (remoteUs - sent) - trip sdiv 2)"

definition calculate :: "Time \<Rightarrow> int \<Rightarrow> timesync \<Rightarrow> timesync" where
  "calculate t0 remoteUs ts =
    (let diff = exchange_diff (lastLocal ts) t0 remoteUs;
         deltat = delta ts
     in ts\<lparr>delta := deltat + (diff - deltat) sdiv 3\<rparr>)"

section \<open>The loop\<close>

text \<open>
  The values a local variable holds before anything is stored in it; an extraction from a
  stream that has ended leaves them.
\<close>

record sync_junk =
  junk_remote :: int
  junk_cid :: ClusterID
  junk_ip :: IP

definition getTimeServCmd :: string where
  "getTimeServCmd = ''GET '' @ show_word TIME_SERVER_ID"

text \<open>The handling of a datagram, \<open>buff\<close> being its text up to the first NUL.\<close>

definition sync_receive :: "IP \<Rightarrow> sync_junk \<Rightarrow> Time \<Rightarrow> string \<Rightarrow> timesync \<Rightarrow> timesync" where
  "sync_receive lip junk now buff ts =
    (let (cmd, rs) = get_word [] (istringstream buff)
     in if cmd = ''T'' then
          (let (remote, rs) = get_signed 64 (junk_remote junk) rs
           in (calculate now remote ts)\<lparr>lastReply := now\<rparr>)
        else if cmd = ''POINT'' then
          (let (retCid, rs) = get_unsigned (junk_cid junk) rs
           in if TIME_SERVER_ID = retCid then
                (let (ip, rs) = get_unsigned (junk_ip junk) rs;
                     addr = ucast (replaceLo lip ip (ucast (s_addr (trackerAddr ts))));
                     (port, rs) = get_unsigned (sin_port (serverAddr ts)) rs
                 in ts\<lparr>serverAddr := \<lparr>s_addr = addr, sin_port = port\<rparr>\<rparr>)
              else ts)
        else if cmd = ''DROP'' then ts\<lparr>serverAddr := \<lparr>s_addr = 0, sin_port = 0\<rparr>\<rparr>
        else ts)"

text \<open>
  One round: \<open>ret\<close> is the result of \<open>ReadSelect\<close>, \<open>now\<close> the clock after it, \<open>now2\<close> the
  clock when a request to the time server is stamped.
\<close>

definition sync_round ::
  "IP \<Rightarrow> sync_junk \<Rightarrow> int \<Rightarrow> string \<Rightarrow> Time \<Rightarrow> Time \<Rightarrow> timesync \<Rightarrow> timesync \<times> (sockaddr \<times> string) list" where
  "sync_round lip junk ret buff now now2 ts =
    (if ret > 0 then (sync_receive lip junk now buff ts, [])
     else if now > lastReply ts + seconds SYNC_TIMEOUT then
       (ts\<lparr>lastReply := now\<rparr>, [(trackerAddr ts, getTimeServCmd @ [NUL])])
     else if sin_port (serverAddr ts) \<noteq> 0 \<and> now > lastLocal ts + seconds SYNC_INTERVAL then
       (ts\<lparr>lastLocal := now2\<rparr>, [(serverAddr ts, ''TIME'' @ [NUL])])
     else (ts, []))"

section \<open>Offset arithmetic\<close>

lemma toLocal_toNetwork [simp]: "toLocal d (toNetwork d t) = t"
  by (simp add: toLocal_def toNetwork_def)

lemma toNetwork_toLocal [simp]: "toNetwork d (toLocal d t) = t"
  by (simp add: toLocal_def toNetwork_def)

lemma sdiv3_shrink:
  "3 * (\<bar>e - e sdiv 3\<bar> - 2) \<le> 2 * (\<bar>e\<bar> - 2)" "0 \<le> e \<Longrightarrow> 0 \<le> e - e sdiv 3" "e \<le> 0 \<Longrightarrow> e - e sdiv 3 \<le> 0"
  "\<bar>e - e sdiv 3\<bar> = \<bar>e\<bar> - \<bar>e\<bar> div 3"
  for e :: int
  by (cases "0 \<le> e"; simp add: sdiv_pos sdiv_neg; linarith)+

lemma delta_calculate:
  "exchange_diff (lastLocal ts) t0 r = off \<Longrightarrow>
     off - delta (calculate t0 r ts) = (off - delta ts) - (off - delta ts) sdiv 3"
  by (simp add: calculate_def Let_def)

lemma calculate_frame [simp]:
  "lastLocal (calculate t0 r ts) = lastLocal ts"
  "lastReply (calculate t0 r ts) = lastReply ts"
  "trackerAddr (calculate t0 r ts) = trackerAddr ts"
  "serverAddr (calculate t0 r ts) = serverAddr ts"
  by (simp_all add: calculate_def Let_def)

text \<open>A series of exchanges: when each request was sent, when its reply arrived, what it said.\<close>

fun exchanges :: "(Time \<times> Time \<times> int) list \<Rightarrow> timesync \<Rightarrow> timesync" where
  "exchanges [] ts = ts"
| "exchanges ((sent, t0, remote) # xs) ts = exchanges xs (calculate t0 remote (ts\<lparr>lastLocal := sent\<rparr>))"

lemma exchanges_error:
  assumes "\<forall>(sent, t0, remote) \<in> set xs. exchange_diff sent t0 remote = off"
  shows "3 ^ length xs * (\<bar>off - delta (exchanges xs ts)\<bar> - 2) \<le> 2 ^ length xs * (\<bar>off - delta ts\<bar> - 2)"
  using assms
proof (induction xs arbitrary: ts)
  case Nil
  show ?case by simp
next
  case (Cons x xs)
  obtain sent t0 remote where x: "x = (sent, t0, remote)" by (cases x)
  let ?t = "calculate t0 remote (ts\<lparr>lastLocal := sent\<rparr>)"
  let ?e = "off - delta ts" and ?e' = "off - delta ?t" and ?n = "length xs"
  have e': "?e' = ?e - ?e sdiv 3"
    using Cons.prems x delta_calculate [of "ts\<lparr>lastLocal := sent\<rparr>" t0 remote off] by simp
  have step: "3 * (\<bar>?e'\<bar> - 2) \<le> 2 * (\<bar>?e\<bar> - 2)"
    unfolding e' by (rule sdiv3_shrink(1))
  have "3 ^ length (x # xs) * (\<bar>off - delta (exchanges (x # xs) ts)\<bar> - 2)
      = 3 * (3 ^ ?n * (\<bar>off - delta (exchanges xs ?t)\<bar> - 2))"
    by (simp add: x)
  also have "\<dots> \<le> 3 * (2 ^ ?n * (\<bar>?e'\<bar> - 2))"
    using Cons.IH [of ?t] Cons.prems by simp
  also have "\<dots> = 2 ^ ?n * (3 * (\<bar>?e'\<bar> - 2))" by simp
  also have "\<dots> \<le> 2 ^ ?n * (2 * (\<bar>?e\<bar> - 2))"
    using step by (intro mult_left_mono) simp_all
  finally show ?case by (simp only: power_Suc length_Cons mult.assoc mult.left_commute)
qed

section \<open>Properties\<close>

text \<open>
  One exchange never moves the estimate away from the measured offset and never past it:
  the remaining error keeps its sign and is two thirds of the old one, rounded up, so an
  error of at most two microseconds is left alone.
\<close>

theorem calculate_approaches:
  fixes ts t0 r
  defines "e \<equiv> exchange_diff (lastLocal ts) t0 r - delta ts"
    and "e' \<equiv> exchange_diff (lastLocal ts) t0 r - delta (calculate t0 r ts)"
  shows "\<bar>e'\<bar> = \<bar>e\<bar> - \<bar>e\<bar> div 3 \<and> 0 \<le> e * e'"
proof -
  have e': "e' = e - e sdiv 3"
    using delta_calculate [of ts t0 r] by (simp add: e_def e'_def)
  have "0 \<le> e * e'"
    unfolding e' using sdiv3_shrink(2,3) [of e]
    by (cases "0 \<le> e") (simp_all add: mult_nonneg_nonneg mult_nonpos_nonpos)
  with e' sdiv3_shrink(4) [of e] show ?thesis by simp
qed

text \<open>
  C27.
  Against a server whose offset stays \<open>off\<close>, the estimate converges geometrically: after
  \<open>n\<close> exchanges the error beyond two microseconds has shrunk by \<open>(2/3)^n\<close>, and once
  \<open>2^n\<close> times the initial error is below \<open>3^n\<close> it is at most two microseconds.
\<close>

theorem TimeSync_converges:
  assumes "\<forall>(sent, t0, remote) \<in> set xs. exchange_diff sent t0 remote = off"
  shows "3 ^ length xs * (\<bar>off - delta (exchanges xs ts)\<bar> - 2) \<le> 2 ^ length xs * \<bar>off - delta ts\<bar> \<and>
    (2 ^ length xs * \<bar>off - delta ts\<bar> < 3 ^ length xs \<longrightarrow> \<bar>off - delta (exchanges xs ts)\<bar> \<le> 2)"
proof -
  let ?n = "length xs" and ?r = "\<bar>off - delta (exchanges xs ts)\<bar>"
  have "2 ^ ?n * (\<bar>off - delta ts\<bar> - 2) \<le> (2 ^ ?n * \<bar>off - delta ts\<bar> :: int)"
    by (intro mult_left_mono) simp_all
  with exchanges_error [OF assms, of ts]
  have le: "3 ^ ?n * (?r - 2) \<le> 2 ^ ?n * \<bar>off - delta ts\<bar>" by linarith
  have "?r \<le> 2" if "2 ^ ?n * \<bar>off - delta ts\<bar> < 3 ^ ?n"
  proof (rule ccontr)
    assume "\<not> ?r \<le> 2"
    then have "3 ^ ?n * 1 \<le> 3 ^ ?n * (?r - 2)" by (intro mult_left_mono) simp_all
    with le that show False by simp
  qed
  with le show ?thesis by blast
qed

theorem TimeSync_converges_witness:
  "\<bar>5 - delta (exchanges (replicate 3 (1000, 3000, 7)) (TimeSync_init 1 2 0))\<bar> \<le> 2 \<and>
   delta (exchanges (replicate 3 (1000, 3000, 7)) (TimeSync_init 1 2 0)) = 3"
proof -
  let ?xs = "replicate 3 (1000, 3000, 7)"
  have "\<forall>(sent, t0, remote) \<in> set ?xs. exchange_diff sent t0 remote = 5"
    by (simp add: exchange_diff_def to_us_def)
  note TimeSync_converges [OF this, of "TimeSync_init 1 2 0"]
  moreover have "delta (exchanges ?xs (TimeSync_init 1 2 0)) = 3"
    by (simp add: numeral_3_eq_3 calculate_def exchange_diff_def to_us_def TimeSync_init_def Let_def)
  ultimately show ?thesis by simp
qed

text \<open>
  What an exchange measures is the server's offset up to half the difference of the two
  trip times: if the request takes \<open>d1\<close> and the reply \<open>d2\<close> nanoseconds and the server's clock
  is \<open>off\<close> microseconds ahead, twice the measurement is off by the asymmetry \<open>d1 - d2\<close> and
  less than six microseconds of rounding.
\<close>

theorem exchange_measures_offset:
  assumes "0 \<le> sent" and "0 \<le> d1" and "0 \<le> d2" and "0 \<le> sent + d1 + microseconds off"
  shows "\<bar>2000 * (exchange_diff sent (sent + d1 + d2) (to_us (sent + d1 + microseconds off)) - off)
    - (d1 - d2)\<bar> < 6000"
proof -
  define m where "m = to_us (sent + d1 + microseconds off)"
  define s where "s = to_us sent"
  define t where "t = to_us (d1 + d2)"
  define h where "h = t sdiv 2"
  have "h = t div 2"
    using assms by (simp add: h_def t_def sdiv_pos to_us_def)
  then have h: "t - 2 * h \<le> 1" "2 * h - t \<le> 1" by linarith+
  have b: "\<bar>sent + d1 + microseconds off - 1000 * m\<bar> < 1000" "\<bar>sent - 1000 * s\<bar> < 1000"
    "\<bar>d1 + d2 - 1000 * t\<bar> < 1000"
    by (simp_all only: m_def s_def t_def to_us_bounds)
  have eq: "exchange_diff sent (sent + d1 + d2) m = m - s - h"
    by (simp add: exchange_diff_def s_def t_def h_def)
  show ?thesis
    unfolding m_def [symmetric] eq abs_less_iff
    using h b [unfolded abs_less_iff, THEN conjunct1] b [unfolded abs_less_iff, THEN conjunct2]
    by (intro conjI; simp add: algebra_simps; linarith)
qed

theorem exchange_measures_offset_witness:
  "\<bar>2000 * (exchange_diff 5000 (5000 + 3000 + 1000) (to_us (5000 + 3000 + microseconds 40)) - 40)
    - (3000 - 1000)\<bar> < 6000"
  by (rule exchange_measures_offset) simp_all

text \<open>
  C37.
  On one host the two conversions undo each other, but they do not carry times between
  hosts: with exact estimates \<open>offA\<close> and \<open>offB\<close> (server clock minus local clock), an instant
  stamped on host A and converted by \<open>toNetwork\<close> arrives on host B, after \<open>toLocal\<close>, off by
  twice the difference of the offsets from the time B's clock shows at that instant.
\<close>

theorem time_conversion_between_hosts:
  fixes offA offB instant :: int
  defines "localA \<equiv> instant - microseconds offA" and "localB \<equiv> instant - microseconds offB"
  shows "toLocal offA (toNetwork offA localA) = localA \<and>
    toLocal offB (toNetwork offA localA) - localB = 2 * microseconds (offB - offA)"
  by (simp add: localA_def localB_def toLocal_def toNetwork_def algebra_simps)

end
