(* ===== verification/Time_Buff.thy ===== *)
theory Time_Buff
  imports Time_Sync
begin

text \<open>
  \<open>TimeBuffer\<close> of \<open>lib/timebuff.h\<close>: up to \<open>MAX_OUTPUT_NODES\<close> impulses, each the index of the
  node that fired and the time of firing as a 16-bit offset in microseconds from the time of
  the first one.  The first part models the operations, the second how a buffer travels: the
  sender writes the first \<open>size()\<close> bytes of the object into a datagram and the receiver reads
  the datagram over an object of its own.

  The arrays of a new buffer are not initialised; their contents are an argument of the
  constructor.
\<close>

section \<open>The buffer\<close>

record timebuffer =
  srcId :: ClusterID
  tbtime :: Time
  tbcount :: u16
  idx :: "u16 list"
  dt :: "u16 list"

definition TimeBuffer_init :: "u16 list \<Rightarrow> u16 list \<Rightarrow> timebuffer" where
  "TimeBuffer_init idx0 dt0 =
     \<lparr>srcId = 0, tbtime = time_min, tbcount = 0, idx = idx0, dt = dt0\<rparr>"

definition tb_size :: "timebuffer \<Rightarrow> nat" where
  "tb_size tb = 4 + 8 + 2 + 2 * 2 * unat (tbcount tb)"

definition tb_capacity :: "timebuffer \<Rightarrow> nat" where
  "tb_capacity tb = MAX_OUTPUT_NODES"

text \<open>An \<open>int\<close> difference converted to \<open>size_t\<close>.\<close>

definition tb_available :: "timebuffer \<Rightarrow> u64" where
  "tb_available tb = of_int (int MAX_OUTPUT_NODES - uint (tbcount tb))"

definition tb_sizeData :: "timebuffer \<Rightarrow> nat" where
  "tb_sizeData tb = unat (tbcount tb)"

definition prepareRead :: "int \<Rightarrow> timebuffer \<Rightarrow> timebuffer" where
  "prepareRead d tb = tb\<lparr>tbtime := toLocal d (tbtime tb)\<rparr>"

text \<open>\<open>read\<close>: the node index and the time; \<open>None\<close> is a read outside the arrays.\<close>

definition TimeBuffer_read :: "nat \<Rightarrow> timebuffer \<Rightarrow> (int \<times> Time) option" where
  "TimeBuffer_read index tb =
    (if index < length (idx tb) \<and> index < length (dt tb)
     then Some (uint (idx tb ! index), tbtime tb + microseconds (as_int16 (dt tb ! index)))
     else None)"

text \<open>
  \<open>write\<close>, with \<open>d\<close> the offset \<open>toNetwork\<close> loads.  \<open>deltaTus\<close> is an \<open>int\<close>, so the count of
  microseconds, a \<open>long long\<close>, is cut to 32 bits when it is stored.
\<close>

definition TimeBuffer_write :: "int \<Rightarrow> u16 \<Rightarrow> Time \<Rightarrow> timebuffer \<Rightarrow> string + int \<times> timebuffer" where
  "TimeBuffer_write d index t tb =
    (if unat index > 0xFFFF then
       Inl (''Node index '' @ show_word index @ '' exceeds maximum network transmission size of 0xFFFF'')
     else
       let first = (tbtime tb = time_min);
           tb1 = (if first then tb\<lparr>tbtime := t\<rparr> else tb);
           deltaTus = (if first then 0 else as_int32 (to_us (t - tbtime tb)))
       in if \<not> first \<and> deltaTus < - (2 ^ 15) then Inr (0, tb1)
          else if unat (tbcount tb1) \<ge> MAX_OUTPUT_NODES \<or> deltaTus > 2 ^ 15 - 1 then
            Inr (- 1, tb1\<lparr>tbtime := toNetwork d (tbtime tb1)\<rparr>)
          else
            let c = unat (tbcount tb1);
                tb2 = tb1\<lparr>idx := (idx tb1)[c := index], dt := (dt tb1)[c := word_of_int deltaTus],
                  tbcount := tbcount tb1 + 1\<rparr>
            in Inr (uint (tbcount tb2), tb2))"

section \<open>Well-formed buffers and their contents\<close>

definition tb_wf :: "timebuffer \<Rightarrow> bool" where
  "tb_wf tb \<longleftrightarrow> length (idx tb) = MAX_OUTPUT_NODES \<and> length (dt tb) = MAX_OUTPUT_NODES \<and>
     unat (tbcount tb) \<le> MAX_OUTPUT_NODES"

text \<open>The impulses a reader of the buffer sees.\<close>

definition impulses :: "timebuffer \<Rightarrow> (int \<times> Time) list" where
  "impulses tb = map (\<lambda>k. (uint (idx tb ! k), tbtime tb + microseconds (as_int16 (dt tb ! k))))
     [0..<unat (tbcount tb)]"

lemma length_impulses [simp]: "length (impulses tb) = unat (tbcount tb)"
  by (simp add: impulses_def)

lemma tb_init_wf:
  "length i = MAX_OUTPUT_NODES \<Longrightarrow> length d = MAX_OUTPUT_NODES \<Longrightarrow> tb_wf (TimeBuffer_init i d)"
  by (simp add: tb_wf_def TimeBuffer_init_def)

lemma read_impulses:
  "tb_wf tb \<Longrightarrow> k < unat (tbcount tb) \<Longrightarrow> TimeBuffer_read k tb = Some (impulses tb ! k)"
  by (simp add: tb_wf_def TimeBuffer_read_def impulses_def)

lemma unat_count_Suc:
  "unat (w :: u16) < MAX_OUTPUT_NODES \<Longrightarrow> unat (w + 1) = Suc (unat w)"
  by (simp add: MAX_OUTPUT_NODES_def unat_word_ariths)

lemma index_fits: "\<not> unat (index :: u16) > 0xFFFF"
  using unsigned_less [where w = index and ?'a = nat] by simp

text \<open>
  The offset \<open>write\<close> computes, and the three outcomes in terms of it.
\<close>

definition write_delta :: "Time \<Rightarrow> timebuffer \<Rightarrow> int" where
  "write_delta t tb = (if tbtime tb = time_min then 0 else as_int32 (to_us (t - tbtime tb)))"

definition write_base :: "Time \<Rightarrow> timebuffer \<Rightarrow> Time" where
  "write_base t tb = (if tbtime tb = time_min then t else tbtime tb)"

lemmas write_unfold = TimeBuffer_write_def write_delta_def write_base_def Let_def index_fits

lemma write_old: "write_delta t tb < - (2 ^ 15) \<Longrightarrow> TimeBuffer_write d i t tb = Inr (0, tb)"
  by (simp add: write_unfold split: if_splits)

lemma write_refused:
  "- (2 ^ 15) \<le> write_delta t tb \<Longrightarrow> unat (tbcount tb) \<ge> MAX_OUTPUT_NODES \<or> write_delta t tb > 2 ^ 15 - 1 \<Longrightarrow>
     TimeBuffer_write d i t tb = Inr (- 1, tb\<lparr>tbtime := toNetwork d (write_base t tb)\<rparr>)"
  by (auto simp: write_unfold split: if_splits)

lemma write_stored:
  "- (2 ^ 15) \<le> write_delta t tb \<Longrightarrow> write_delta t tb < 2 ^ 15 \<Longrightarrow> unat (tbcount tb) < MAX_OUTPUT_NODES \<Longrightarrow>
     TimeBuffer_write d i t tb = Inr (uint (tbcount tb + 1),
       tb\<lparr>tbtime := write_base t tb, idx := (idx tb)[unat (tbcount tb) := i],
         dt := (dt tb)[unat (tbcount tb) := word_of_int (write_delta t tb)], tbcount := tbcount tb + 1\<rparr>)"
  by (auto simp: write_unfold split: if_splits)

lemma write_cases:
  obtains (old) "write_delta t tb < - (2 ^ 15)"
  | (refused) "- (2 ^ 15) \<le> write_delta t tb"
      "unat (tbcount tb) \<ge> MAX_OUTPUT_NODES \<or> write_delta t tb > 2 ^ 15 - 1"
  | (stored) "- (2 ^ 15) \<le> write_delta t tb" "write_delta t tb < 2 ^ 15"
      "unat (tbcount tb) < MAX_OUTPUT_NODES"
  by linarith

lemma write_wf [inv_intros]:
  "tb_wf tb \<Longrightarrow> TimeBuffer_write d i t tb = Inr (r, tb') \<Longrightarrow> tb_wf tb'"
  by (cases rule: write_cases [of t tb])
    (auto simp: write_old write_refused write_stored tb_wf_def unat_count_Suc)

lemma impulses_stored:
  assumes wf: "tb_wf tb" and c: "unat (tbcount tb) < MAX_OUTPUT_NODES"
    and base: "tbcount tb = 0 \<or> b = tbtime tb"
    and dl: "- (2 ^ 15) \<le> dl" "dl < 2 ^ 15"
  shows "impulses (tb\<lparr>tbtime := b, idx := (idx tb)[unat (tbcount tb) := i],
      dt := (dt tb)[unat (tbcount tb) := word_of_int dl], tbcount := tbcount tb + 1\<rparr>) =
    impulses tb @ [(uint i, b + microseconds dl)]"
proof -
  let ?c = "unat (tbcount tb)"
  have "unat (tbcount tb + 1) = Suc ?c" by (rule unat_count_Suc [OF c])
  moreover have "k < ?c \<Longrightarrow> b = tbtime tb" for k using base by auto
  ultimately show ?thesis
    using wf c dl by (simp add: impulses_def tb_wf_def as_int16_of_int)
qed

section \<open>The buffer as a datagram\<close>

text \<open>
  The object in memory: the header fields, the node indexes, the offsets.  The class asks for
  packed members with a \<open>pragma\<close> inside its body; \<open>pad\<close> is the padding a compiler puts between
  \<open>srcId\<close> and \<open>time\<close>, no bytes if it honours the request and four if it does not.
\<close>

definition u16s_bytes :: "u16 list \<Rightarrow> byte list" where
  "u16s_bytes ws = concat (map (\<lambda>w. to_le 2 (unat w)) ws)"

fun bytes_u16s :: "byte list \<Rightarrow> u16 list" where
  "bytes_u16s (a # b # bs) = of_nat (from_le [a, b]) # bytes_u16s bs"
| "bytes_u16s _ = []"

definition tb_header :: "byte list \<Rightarrow> timebuffer \<Rightarrow> byte list" where
  "tb_header pad tb = to_le 4 (unat (srcId tb)) @ pad @
     to_le 8 (unat (word_of_int (tbtime tb) :: u64)) @ to_le 2 (unat (tbcount tb))"

definition tb_image :: "byte list \<Rightarrow> timebuffer \<Rightarrow> byte list" where
  "tb_image pad tb = tb_header pad tb @ u16s_bytes (idx tb) @ u16s_bytes (dt tb)"

definition tb_of_image :: "nat \<Rightarrow> byte list \<Rightarrow> timebuffer" where
  "tb_of_image p bs =
    \<lparr>srcId = of_nat (from_le (take 4 bs)),
     tbtime = sint (of_nat (from_le (take 8 (drop (4 + p) bs))) :: u64),
     tbcount = of_nat (from_le (take 2 (drop (12 + p) bs))),
     idx = take MAX_OUTPUT_NODES (bytes_u16s (drop (14 + p) bs)),
     dt = drop MAX_OUTPUT_NODES (bytes_u16s (drop (14 + p) bs))\<rparr>"

text \<open>\<open>udp.Write((char*)&*timeBuff, timeBuff->size(), mCastGrp)\<close> in \<open>Server::write\<close>.\<close>

definition tb_sent :: "byte list \<Rightarrow> timebuffer \<Rightarrow> byte list" where
  "tb_sent pad tb = take (tb_size tb) (tb_image pad tb)"

text \<open>
  \<open>Multicast::read\<close>: at most \<open>sizeof(TimeBuffer)\<close> bytes of the datagram are stored over the
  object \<open>tb0\<close>; the rest of the object keeps its bytes.
\<close>

definition tb_received :: "byte list \<Rightarrow> byte list \<Rightarrow> timebuffer \<Rightarrow> timebuffer" where
  "tb_received pad bytes tb0 =
    (let img = tb_image pad tb0
     in tb_of_image (length pad) (take (length img) bytes @ drop (length bytes) img))"

lemma u16s_bytes_simps [simp]:
  "u16s_bytes [] = []" "u16s_bytes (w # ws) = to_le 2 (unat w) @ u16s_bytes ws"
  by (simp_all add: u16s_bytes_def)

lemma u16s_bytes_append: "u16s_bytes (vs @ ws) = u16s_bytes vs @ u16s_bytes ws"
  by (simp add: u16s_bytes_def)

lemma length_u16s_bytes [simp]: "length (u16s_bytes ws) = 2 * length ws"
  by (induction ws) simp_all

lemma to_le_2: "to_le 2 k = [of_nat (k mod 256), of_nat (k div 256 mod 256)]"
  by (simp add: numeral_2_eq_2)

lemma u16_of_bytes:
  "of_nat (from_le [of_nat (unat w mod 256), of_nat (unat w div 256 mod 256)]) = (w :: u16)"
  using from_to_le_word [of 2 w] by (simp add: to_le_2 del: from_le.simps)

lemma bytes_u16s_bytes [simp]: "bytes_u16s (u16s_bytes ws) = ws"
  by (induction ws) (simp_all add: to_le_2 u16_of_bytes del: from_le.simps)

lemma take_u16s_bytes: "take (2 * m) (u16s_bytes ws) = u16s_bytes (take m ws)"
proof (induction ws arbitrary: m)
  case Nil
  show ?case by simp
next
  case (Cons w ws)
  then show ?case by (cases m) (simp_all add: to_le_2)
qed

lemma drop_u16s_bytes: "drop (2 * m) (u16s_bytes ws) = u16s_bytes (drop m ws)"
proof (induction ws arbitrary: m)
  case Nil
  show ?case by simp
next
  case (Cons w ws)
  then show ?case by (cases m) (simp_all add: to_le_2)
qed

lemma length_tb_header [simp]: "length (tb_header pad tb) = 14 + length pad"
  by (simp add: tb_header_def)

lemma length_tb_image: "tb_wf tb \<Longrightarrow> length (tb_image pad tb) = 14 + length pad + 4 * MAX_OUTPUT_NODES"
  by (simp add: tb_image_def tb_wf_def)

lemma in_clock_word: "in_clock t \<Longrightarrow> sint (word_of_int t :: u64) = t"
  by (simp add: in_clock_def time_min_def time_max_def sint_sbintrunc' signed_take_bit_int_eq_self)

text \<open>An object whose header bytes are those of \<open>tb\<close>.\<close>

lemma tb_of_image_header:
  assumes "in_clock (tbtime tb)"
  shows "tb_of_image (length pad) (tb_header pad tb @ u16s_bytes ws) =
    tb\<lparr>idx := take MAX_OUTPUT_NODES ws, dt := drop MAX_OUTPUT_NODES ws\<rparr>"
proof -
  have "unat (srcId tb) mod 256 ^ 4 = unat (srcId tb)"
    using unsigned_less [where w = "srcId tb" and ?'a = nat] by simp
  moreover have "unat (word_of_int (tbtime tb) :: u64) mod 256 ^ 8 = unat (word_of_int (tbtime tb) :: u64)"
    using unsigned_less [where w = "word_of_int (tbtime tb) :: u64" and ?'a = nat] by simp
  moreover have "unat (tbcount tb) mod 256 ^ 2 = unat (tbcount tb)"
    using unsigned_less [where w = "tbcount tb" and ?'a = nat] by simp
  ultimately show ?thesis
    using in_clock_word [OF assms] by (simp add: tb_of_image_def tb_header_def from_to_le)
qed

lemma tb_of_image_image:
  "tb_wf tb \<Longrightarrow> in_clock (tbtime tb) \<Longrightarrow> tb_of_image (length pad) (tb_image pad tb) = tb"
  by (simp add: tb_image_def tb_of_image_header tb_wf_def flip: u16s_bytes_append)

text \<open>What a receiver's object holds after the datagram: the first \<open>m\<close> array entries are new.\<close>

definition tb_overlay :: "nat \<Rightarrow> timebuffer \<Rightarrow> timebuffer \<Rightarrow> timebuffer" where
  "tb_overlay m tb tb0 =
    (let ws = take m (idx tb @ dt tb) @ drop m (idx tb0 @ dt tb0)
     in tb\<lparr>idx := take MAX_OUTPUT_NODES ws, dt := drop MAX_OUTPUT_NODES ws\<rparr>)"

lemma tb_received_sent:
  assumes wf: "tb_wf tb" "tb_wf tb0" and clock: "in_clock (tbtime tb)"
    and pad: "length pad = length pad0" "even (length pad)" "length pad \<le> 4 * unat (tbcount tb)"
  shows "tb_received pad0 (tb_sent pad tb) tb0 =
    tb_overlay (2 * unat (tbcount tb) - length pad div 2) tb tb0"
proof -
  let ?c = "unat (tbcount tb)" and ?p = "length pad"
  let ?m = "2 * ?c - ?p div 2"
  let ?A = "idx tb @ dt tb" and ?B = "idx tb0 @ dt tb0"
  have size: "tb_size tb = 14 + ?p + 2 * ?m"
    using pad by (auto simp: tb_size_def elim!: evenE)
  have bound: "tb_size tb \<le> length (tb_image pad0 tb0)"
    using wf pad by (simp add: tb_size_def length_tb_image) (simp add: tb_wf_def)
  have imgA: "tb_image pad tb = tb_header pad tb @ u16s_bytes ?A"
    and imgB: "tb_image pad0 tb0 = tb_header pad0 tb0 @ u16s_bytes ?B"
    by (simp_all add: tb_image_def u16s_bytes_append)
  have sent: "tb_sent pad tb = tb_header pad tb @ u16s_bytes (take ?m ?A)"
    unfolding tb_sent_def imgA size by (simp add: take_u16s_bytes)
  have len: "length (tb_sent pad tb) = tb_size tb"
    using bound wf pad by (simp add: tb_sent_def length_tb_image)
  have rest: "drop (tb_size tb) (tb_image pad0 tb0) = u16s_bytes (drop ?m ?B)"
    unfolding imgB size using pad by (simp add: drop_u16s_bytes)
  have "take (length (tb_image pad0 tb0)) (tb_sent pad tb) @ drop (length (tb_sent pad tb)) (tb_image pad0 tb0)
      = tb_header pad tb @ u16s_bytes (take ?m ?A @ drop ?m ?B)"
    using take_all [of "tb_sent pad tb" "length (tb_image pad0 tb0)"] bound
    unfolding len rest by (simp only: sent u16s_bytes_append append_assoc)
  then show ?thesis
    unfolding tb_received_def Let_def tb_overlay_def
    using tb_of_image_header [OF clock, of pad] pad(1) by simp
qed

lemma tb_wf_arrays: "tb_wf tb \<Longrightarrow> length (idx tb @ dt tb) = 2 * MAX_OUTPUT_NODES"
  by (simp add: tb_wf_def)

lemma overlay_wf: "tb_wf tb \<Longrightarrow> tb_wf tb0 \<Longrightarrow> tb_wf (tb_overlay m tb tb0)"
  by (auto simp: tb_overlay_def tb_wf_def Let_def)

lemma overlay_idx:
  "tb_wf tb \<Longrightarrow> tb_wf tb0 \<Longrightarrow> j < MAX_OUTPUT_NODES \<Longrightarrow>
     idx (tb_overlay m tb tb0) ! j = (if j < m then idx tb ! j else idx tb0 ! j)"
  by (auto simp: tb_overlay_def tb_wf_def Let_def nth_append min_def)

lemma overlay_dt:
  "tb_wf tb \<Longrightarrow> tb_wf tb0 \<Longrightarrow> j < MAX_OUTPUT_NODES \<Longrightarrow>
     dt (tb_overlay m tb tb0) ! j = (if j + MAX_OUTPUT_NODES < m then dt tb ! j else dt tb0 ! j)"
  by (auto simp: tb_overlay_def tb_wf_def Let_def nth_append min_def)

section \<open>Properties\<close>

text \<open>
  \<open>write\<close> never throws, and as long as the impulse lies within \<open>2^31\<close> microseconds of the
  buffer's time it does one of three things: an impulse more than 32768 microseconds too old
  is ignored (0); when the buffer is full or the impulse more than 32767 microseconds ahead
  it is refused (-1) and the buffer's time converted to network time; otherwise it is
  appended, its time kept to the microsecond, and the new number of impulses returned.
\<close>

theorem TimeBuffer_write_spec:
  fixes tb t
  defines "us \<equiv> if tbtime tb = time_min then 0 else to_us (t - tbtime tb)"
  assumes "tb_wf tb" and "tbtime tb = time_min \<longrightarrow> tbcount tb = 0"
    and "- (2 ^ 31) \<le> us" and "us < 2 ^ 31"
  shows "if us < - 32768 then TimeBuffer_write d i t tb = Inr (0, tb)
    else if tb_sizeData tb = MAX_OUTPUT_NODES \<or> us > 32767
    then TimeBuffer_write d i t tb = Inr (- 1, tb\<lparr>tbtime := toNetwork d (write_base t tb)\<rparr>)
    else \<exists>tb' t'. TimeBuffer_write d i t tb = Inr (int (tb_sizeData tb) + 1, tb') \<and> tb_wf tb' \<and>
      impulses tb' = impulses tb @ [(uint i, t')] \<and> \<bar>t - t'\<bar> < 1000"
proof -
  have us: "write_delta t tb = us"
    using assms by (auto simp: write_delta_def intro!: as_int32_id split: if_splits)
  have near: "\<bar>t - (write_base t tb + microseconds us)\<bar> < 1000"
  proof (cases "tbtime tb = time_min")
    case False
    then have "t - (write_base t tb + microseconds us) = t - tbtime tb - 1000 * to_us (t - tbtime tb)"
      by (simp add: write_base_def us_def)
    then show ?thesis by (simp only: to_us_bounds)
  qed (simp add: write_base_def us_def)
  have full: "tb_sizeData tb = MAX_OUTPUT_NODES \<longleftrightarrow> unat (tbcount tb) \<ge> MAX_OUTPUT_NODES"
    using assms(2) by (auto simp: tb_wf_def tb_sizeData_def)
  show ?thesis
  proof (cases rule: write_cases [of t tb])
    case old
    then show ?thesis using us by (simp add: write_old)
  next
    case refused
    then show ?thesis using us full write_refused [OF refused] by auto
  next
    case stored
    have base: "tbcount tb = 0 \<or> write_base t tb = tbtime tb"
      using assms(3) by (simp add: write_base_def)
    let ?tb' = "tb\<lparr>tbtime := write_base t tb, idx := (idx tb)[unat (tbcount tb) := i],
      dt := (dt tb)[unat (tbcount tb) := word_of_int (write_delta t tb)], tbcount := tbcount tb + 1\<rparr>"
    have w: "TimeBuffer_write d i t tb = Inr (uint (tbcount tb + 1), ?tb')"
      by (rule write_stored [OF stored])
    have r: "uint (tbcount tb + 1) = int (tb_sizeData tb) + 1"
      unfolding uint_nat tb_sizeData_def unat_count_Suc [OF stored(3)] by simp
    have c1: "\<not> us < - 32768" and c2: "\<not> (tb_sizeData tb = MAX_OUTPUT_NODES \<or> us > 32767)"
      using stored us full by simp_all
    have "impulses ?tb' = impulses tb @ [(uint i, write_base t tb + microseconds us)]"
      using impulses_stored [OF assms(2) stored(3) base stored(1,2)] us by simp
    with w [unfolded r] write_wf [OF assms(2) w] near show ?thesis
      unfolding if_not_P [OF c1] if_not_P [OF c2] by blast
  qed
qed

definition sample_buffer :: timebuffer where
  "sample_buffer = \<lparr>srcId = 7, tbtime = 5000, tbcount = 1,
     idx = replicate MAX_OUTPUT_NODES 3, dt = replicate MAX_OUTPUT_NODES 0\<rparr>"

lemma sample_buffer_wf [simp]: "tb_wf sample_buffer"
  by (simp add: sample_buffer_def tb_wf_def MAX_OUTPUT_NODES_def)

theorem TimeBuffer_write_spec_witness:
  "\<exists>tb' t'. TimeBuffer_write 0 9 25500 sample_buffer = Inr (2, tb') \<and>
     impulses tb' = [(3, 5000), (9, t')] \<and> \<bar>25500 - t'\<bar> < 1000"
proof -
  have us: "to_us (25500 - 5000) = 20" by (simp add: to_us_def)
  have "impulses sample_buffer = [(3, 5000)]"
    by (simp add: impulses_def sample_buffer_def MAX_OUTPUT_NODES_def as_int16_def)
  then show ?thesis
    using TimeBuffer_write_spec [of sample_buffer 25500 0 9] us
    by (simp add: sample_buffer_def time_min_def tb_sizeData_def MAX_OUTPUT_NODES_def)
      (auto simp: tb_wf_def MAX_OUTPUT_NODES_def)
qed

text \<open>
  A buffer that was started and then left alone for \<open>2^31\<close> microseconds (36 minutes) throws
  away what its cluster sends next: the offset wraps to a negative \<open>int\<close>, so every later
  impulse is taken for an old one and ignored, until \<open>2^32 - 2^15\<close> microseconds have passed.
\<close>

theorem TimeBuffer_write_after_idle:
  assumes "tbtime tb \<noteq> time_min"
    and "2 ^ 31 \<le> to_us (t - tbtime tb)" and "to_us (t - tbtime tb) < 2 ^ 32 - 2 ^ 15"
  shows "TimeBuffer_write d i t tb = Inr (0, tb)"
proof (rule write_old)
  let ?u = "to_us (t - tbtime tb)"
  have "(word_of_int ?u :: u32) = word_of_int (?u - 2 ^ 32)"
    unfolding word_of_int_eq_iff take_bit_eq_mod by simp
  then have "as_int32 ?u = as_int32 (?u - 2 ^ 32)"
    by (simp only: as_int32_def)
  also have "\<dots> = ?u - 2 ^ 32"
    using assms(2,3) by (intro as_int32_id) simp_all
  finally show "write_delta t tb < - (2 ^ 15)"
    using assms by (simp add: write_delta_def)
qed

theorem TimeBuffer_write_after_idle_witness:
  "TimeBuffer_write 0 9 (5000 + 2147483648000) sample_buffer = Inr (0, sample_buffer)"
  by (rule TimeBuffer_write_after_idle) (simp_all add: sample_buffer_def time_min_def to_us_def)

text \<open>
  C24.
  A datagram is exactly \<open>size()\<close> bytes, never more than the 1456 bytes the header file
  budgets for a packet, and with a packed object it reproduces the whole buffer at the
  receiver when the buffer is full.
\<close>

theorem TimeBuffer_datagram:
  assumes "tb_wf tb" and "tb_wf tb0" and "in_clock (tbtime tb)"
  shows "length (tb_sent [] tb) = tb_size tb \<and> tb_size tb \<le> 1456 \<and>
    (tb_sizeData tb = MAX_OUTPUT_NODES \<longrightarrow> tb_received [] (tb_sent [] tb) tb0 = tb)"
proof -
  have size: "tb_size tb \<le> 14 + 4 * MAX_OUTPUT_NODES"
    using assms(1) by (simp add: tb_wf_def tb_size_def)
  moreover have "tb_received [] (tb_sent [] tb) tb0 = tb" if "tb_sizeData tb = MAX_OUTPUT_NODES"
  proof -
    have "tb_received [] (tb_sent [] tb) tb0 = tb_overlay (2 * MAX_OUTPUT_NODES) tb tb0"
      using tb_received_sent [OF assms, of "[]" "[]"] that by (simp add: tb_sizeData_def)
    also have "\<dots> = tb"
      using assms(1,2) by (simp add: tb_overlay_def tb_wf_def Let_def)
    finally show ?thesis .
  qed
  ultimately show ?thesis
    using length_tb_image [OF assms(1), of "[]"] by (simp add: tb_sent_def MAX_OUTPUT_NODES_def)
qed

theorem TimeBuffer_datagram_witness:
  "length (tb_sent [] sample_buffer) = 18 \<and>
   tb_received [] (tb_sent [] (sample_buffer\<lparr>tbcount := 356\<rparr>)) sample_buffer = sample_buffer\<lparr>tbcount := 356\<rparr>"
proof -
  have wf: "tb_wf (sample_buffer\<lparr>tbcount := 356\<rparr>)"
    by (simp add: sample_buffer_def tb_wf_def MAX_OUTPUT_NODES_def)
  have clock: "in_clock (tbtime sample_buffer)" "in_clock (tbtime (sample_buffer\<lparr>tbcount := 356\<rparr>))"
    by (simp_all add: sample_buffer_def in_clock_def time_min_def time_max_def)
  show ?thesis
    using TimeBuffer_datagram [OF sample_buffer_wf sample_buffer_wf clock(1)]
      TimeBuffer_datagram [OF wf sample_buffer_wf clock(2)]
    by (simp add: tb_size_def tb_sizeData_def sample_buffer_def MAX_OUTPUT_NODES_def)
qed

text \<open>
  A partly filled buffer loses time offsets on the way.  For a buffer of \<open>c\<close> impulses and
  an object with an even number of padding bytes, the receiver gets the header and, of the
  \<open>2 * MAX_OUTPUT_NODES\<close> array entries, the first \<open>2 * c\<close> less half the padding; every other
  entry keeps the bytes of the receiver's own object.  In a packed buffer at most half full
  all node indexes arrive and no time offset does.
\<close>

theorem TimeBuffer_datagram_offsets:
  assumes "tb_wf tb" and "tb_wf tb0" and "in_clock (tbtime tb)"
    and "length pad = length pad0" and "even (length pad)" and "length pad \<le> 4 * tb_sizeData tb"
  defines "r \<equiv> tb_received pad0 (tb_sent pad tb) tb0"
    and "m \<equiv> 2 * tb_sizeData tb - length pad div 2"
  shows "srcId r = srcId tb \<and> tbtime r = tbtime tb \<and> tbcount r = tbcount tb \<and>
    (\<forall>j < MAX_OUTPUT_NODES. idx r ! j = (if j < m then idx tb ! j else idx tb0 ! j) \<and>
      dt r ! j = (if j + MAX_OUTPUT_NODES < m then dt tb ! j else dt tb0 ! j)) \<and>
    (pad = [] \<and> 2 * tb_sizeData tb \<le> MAX_OUTPUT_NODES \<longrightarrow>
      (\<forall>j < tb_sizeData tb. idx r ! j = idx tb ! j) \<and> dt r = dt tb0)"
proof -
  have r: "r = tb_overlay m tb tb0"
    using tb_received_sent [OF assms(1-3), of pad pad0] assms(4-6)
    by (simp add: r_def m_def tb_sizeData_def)
  have "dt r = dt tb0" if "m \<le> MAX_OUTPUT_NODES"
    using assms(1,2) that by (simp add: r tb_overlay_def tb_wf_def Let_def)
  moreover have "idx r ! j = idx tb ! j" if "j < tb_sizeData tb" "pad = []" for j
    using that assms(1,2) by (simp add: r m_def overlay_idx tb_wf_def tb_sizeData_def)
  moreover have "srcId r = srcId tb" "tbtime r = tbtime tb" "tbcount r = tbcount tb"
    by (simp_all add: r tb_overlay_def Let_def)
  ultimately show ?thesis
    using assms(1,2) by (auto simp: r m_def overlay_idx overlay_dt)
qed

theorem TimeBuffer_datagram_offsets_witness:
  "dt (tb_received [] (tb_sent [] (sample_buffer\<lparr>dt := replicate MAX_OUTPUT_NODES 40\<rparr>)) sample_buffer) ! 0
    = dt sample_buffer ! 0 \<and> dt sample_buffer ! 0 \<noteq> (40 :: u16)"
proof -
  let ?tb = "sample_buffer\<lparr>dt := replicate MAX_OUTPUT_NODES 40\<rparr>"
  have wf: "tb_wf ?tb"
    by (simp add: sample_buffer_def tb_wf_def MAX_OUTPUT_NODES_def)
  have "in_clock (tbtime ?tb)"
    by (simp add: sample_buffer_def in_clock_def time_min_def time_max_def)
  note TimeBuffer_datagram_offsets [OF wf sample_buffer_wf this, of "[]" "[]"]
  then have "dt (tb_received [] (tb_sent [] ?tb) sample_buffer) = dt sample_buffer"
    by (simp add: tb_sizeData_def sample_buffer_def MAX_OUTPUT_NODES_def)
  then show ?thesis by (simp add: sample_buffer_def MAX_OUTPUT_NODES_def)
qed

lemma length_bytes_u16s: "length (bytes_u16s bs) = length bs div 2"
  by (induction bs rule: bytes_u16s.induct) simp_all

lemma received_arrays:
  assumes "tb_wf tb0"
  shows "length (idx (tb_received pad bytes tb0)) = MAX_OUTPUT_NODES"
    "length (dt (tb_received pad bytes tb0)) = MAX_OUTPUT_NODES"
proof -
  let ?img = "tb_image pad tb0"
  define bs where "bs = take (length ?img) bytes @ drop (length bytes) ?img"
  have "length bs = 14 + length pad + 4 * MAX_OUTPUT_NODES"
    unfolding length_tb_image [OF assms, of pad, symmetric] bs_def by simp
  then have "length (bytes_u16s (drop (14 + length pad) bs)) = 2 * MAX_OUTPUT_NODES"
    by (simp add: length_bytes_u16s)
  then show "length (idx (tb_received pad bytes tb0)) = MAX_OUTPUT_NODES"
    "length (dt (tb_received pad bytes tb0)) = MAX_OUTPUT_NODES"
    unfolding tb_received_def Let_def bs_def [symmetric] by (simp_all add: tb_of_image_def)
qed

text \<open>C32. A buffer is always a buffer: no operation -- filling, flushing, preparing for reading -- changes
  the size of its arrays or counts past their end, so every impulse it counts can be read.  What
  arrives from the network keeps the arrays, and is a well-formed buffer exactly if its count is
  in range, which nothing checks.
\<close>

theorem TimeBuffer_well_typed:
  assumes "tb_wf tb"
  shows "(\<exists>r tb'. TimeBuffer_write d i t tb = Inr (r, tb') \<and> tb_wf tb') \<and> tb_wf (prepareRead d tb) \<and>
    (\<forall>k < tb_sizeData tb. TimeBuffer_read k tb = Some (impulses tb ! k)) \<and>
    (tb_wf (tb_received pad bytes tb) \<longleftrightarrow> tb_sizeData (tb_received pad bytes tb) \<le> MAX_OUTPUT_NODES)"
proof -
  have "\<exists>r tb'. TimeBuffer_write d i t tb = Inr (r, tb')"
    by (cases rule: write_cases [of t tb]) (auto simp: write_old write_refused write_stored)
  then have "\<exists>r tb'. TimeBuffer_write d i t tb = Inr (r, tb') \<and> tb_wf tb'" using write_wf [OF assms] by blast
  moreover have "tb_wf (prepareRead d tb)" using assms by (simp add: tb_wf_def prepareRead_def)
  moreover have "tb_wf (tb_received pad bytes tb) \<longleftrightarrow> tb_sizeData (tb_received pad bytes tb) \<le> MAX_OUTPUT_NODES"
    using received_arrays [OF assms, of pad bytes] by (simp add: tb_wf_def tb_sizeData_def)
  ultimately show ?thesis using read_impulses [OF assms] by (simp add: tb_sizeData_def)
qed

theorem TimeBuffer_well_typed_witness:
  "TimeBuffer_read 0 sample_buffer = Some (impulses sample_buffer ! 0) \<and> tb_wf (prepareRead 5 sample_buffer)"
proof -
  have "0 < tb_sizeData sample_buffer" by (simp add: tb_sizeData_def sample_buffer_def)
  then show ?thesis using TimeBuffer_well_typed [OF sample_buffer_wf] by blast
qed

end
