(* ===== verification/Network.thy ===== *)
theory Network
  imports Time_Buff
begin

text \<open>
  \<open>Multicast\<close> and \<open>Network\<close> of \<open>network.h\<close> and \<open>network.cpp\<close>: which local cluster listens to
  which remote one, the multicast groups the process has joined, the table the dispatch loop
  uses to route packets, and the filter for incoming packets.

  The local servers are a list; a \<open>Server*\<close> is a position in it and the list holds the
  cluster id each server has at the time of the call.  What an operation asks of the kernel
  (joining or leaving a group) is returned as a list of requests.  \<open>subscribe\<close>,
  \<open>unsubscribe\<close> and \<open>getSubscriptions\<close> run under the spin lock of the network, so each is a
  single step.
\<close>

section \<open>Multicast addresses\<close>

definition baseMulticastIP :: IP where
  "baseMulticastIP = 0xE0000100"

definition idToMulticast :: "ClusterID \<Rightarrow> IP" where
  "idToMulticast i = ucast (byte_swap32 (ucast (baseMulticastIP + ucast i)))"

definition multicastToId :: "IP \<Rightarrow> ClusterID" where
  "multicastToId multiGroup = ucast (ucast (byte_swap32 (ucast multiGroup)) - baseMulticastIP)"

lemma ucast_ucast_32 [simp]: "(ucast (ucast w :: IP) :: u32) = w" for w :: u32
  by transfer simp

lemma ucast_32_add: "(ucast (a + b :: IP) :: u32) = ucast a + ucast b"
  by (simp add: word_uint_eq_iff unsigned_ucast_eq take_bit_eq_mod uint_word_ariths
      mod_mod_cancel mod_add_eq)

lemma ucast_32_diff: "(ucast (a - b :: IP) :: u32) = ucast a - ucast b"
  by (simp add: word_uint_eq_iff unsigned_ucast_eq take_bit_eq_mod uint_word_ariths
      mod_mod_cancel mod_diff_eq)

lemma group_host_order: "byte_swap32 (ucast (idToMulticast i)) = 0xE0000100 + i"
proof -
  have "(ucast (baseMulticastIP + ucast i) :: u32) = ucast baseMulticastIP + ucast (ucast i :: IP)"
    by (rule ucast_32_add)
  then show ?thesis by (simp add: idToMulticast_def baseMulticastIP_def)
qed

lemma multicastToId_idToMulticast [simp]: "multicastToId (idToMulticast i) = i"
proof -
  have "(ucast (ucast (0xE0000100 + i) - baseMulticastIP) :: u32) = ucast (ucast (0xE0000100 + i) :: IP) - ucast baseMulticastIP"
    by (rule ucast_32_diff)
  then show ?thesis
    by (simp add: multicastToId_def group_host_order baseMulticastIP_def)
qed

lemma idToMulticast_inject [simp]: "idToMulticast i = idToMulticast j \<longleftrightarrow> i = j"
  by (metis multicastToId_idToMulticast)

section \<open>State\<close>

record network =
  dirty :: bool
  subscriptions :: "ClusterID \<rightharpoonup> ClusterID list"
  sequences :: "ClusterID \<rightharpoonup> Time"

definition Network_init :: network where
  "Network_init = \<lparr>dirty = False, subscriptions = Map.empty, sequences = Map.empty\<rparr>"

datatype group_request = JoinMulticast IP | LeaveMulticast IP

datatype net_error = EraseEnd  \<comment> \<open>\<open>vector::erase\<close> of the end iterator: undefined behaviour\<close>

abbreviation subs_of :: "network \<Rightarrow> ClusterID \<Rightarrow> ClusterID list" where
  "subs_of n l \<equiv> at_default [] (subscriptions n) l"

section \<open>Subscriptions\<close>

definition subscribe :: "ClusterID list \<Rightarrow> ClusterID \<Rightarrow> ClusterID \<Rightarrow> network \<Rightarrow> network \<times> group_request list" where
  "subscribe servers loc remote n =
    (let n1 = n\<lparr>dirty := True, subscriptions := touch [] (subscriptions n) loc\<rparr>
     in if remote \<in> set (subs_of n1 loc) then (n1, [])
        else let n2 = n1\<lparr>subscriptions := (subscriptions n1)(loc \<mapsto> subs_of n1 loc @ [remote])\<rparr>
          in if remote \<in> set servers then (n2, [])
             else (n2, [JoinMulticast (idToMulticast remote)]))"

text \<open>\<open>ks\<close> is the order in which the loop over \<open>subscriptions\<close> visits the keys.\<close>

definition unsubscribe :: "ClusterID list \<Rightarrow> ClusterID list \<Rightarrow> ClusterID \<Rightarrow> ClusterID \<Rightarrow> network \<Rightarrow>
    net_error + network \<times> group_request list" where
  "unsubscribe ks servers loc remote n =
    (let n1 = n\<lparr>dirty := True, subscriptions := touch [] (subscriptions n) loc\<rparr>;
         al = subs_of n1 loc
     in if remote \<notin> set al then Inl EraseEnd
        else let n2 = n1\<lparr>subscriptions := (subscriptions n1)(loc \<mapsto> remove1 remote al)\<rparr>
          in if list_ex (\<lambda>i. remote \<in> set (subs_of n2 i)) ks then Inr (n2, [])
             else if remote \<in> set servers then Inr (n2, [])
             else Inr (n2, [LeaveMulticast (idToMulticast remote)]))"

text \<open>\<open>subscribers[remote].push_back(&*serv)\<close>\<close>

definition add_subscriber :: "ClusterID \<Rightarrow> nat \<Rightarrow> (ClusterID \<rightharpoonup> nat list) \<Rightarrow> (ClusterID \<rightharpoonup> nat list)" where
  "add_subscriber remote i m = m(remote \<mapsto> at_default [] m remote @ [i])"

definition rebuild_subscribers :: "ClusterID list \<Rightarrow> ClusterID list \<Rightarrow> network \<Rightarrow> (ClusterID \<rightharpoonup> nat list)" where
  "rebuild_subscribers ks servers n =
    fold (\<lambda>loc. fold (\<lambda>remote. fold (\<lambda>(i, sid). if loc = sid then add_subscriber remote i else id)
        (enumerate 0 servers)) (subs_of n loc)) ks Map.empty"

definition getSubscriptions :: "ClusterID list \<Rightarrow> ClusterID list \<Rightarrow> network \<Rightarrow> (ClusterID \<rightharpoonup> nat list) \<Rightarrow>
    network \<times> (ClusterID \<rightharpoonup> nat list)" where
  "getSubscriptions ks servers n subscribers =
    (if \<not> dirty n then (n, subscribers)
     else (n\<lparr>dirty := False\<rparr>, rebuild_subscribers ks servers n))"

section \<open>Incoming packets\<close>

text \<open>
  \<open>Multicast::read\<close>: \<open>ret\<close> is the result of \<open>ReadSelect\<close> and \<open>bytes\<close> the datagram when it is
  positive; otherwise the object \<open>bb\<close> is left as it was.
\<close>

definition Multicast_read :: "byte list \<Rightarrow> int \<Rightarrow> byte list \<Rightarrow> timebuffer \<Rightarrow> timebuffer" where
  "Multicast_read pad ret bytes bb = (if ret > 0 then tb_received pad bytes bb else bb)"

text \<open>
  \<open>readVerify\<close> after the read: the value returned, the network, and the buffer.  \<open>d\<close> is the
  offset \<open>prepareRead\<close> loads and \<open>now\<close> the clock.
\<close>

definition verify :: "int \<Rightarrow> Time \<Rightarrow> timebuffer \<Rightarrow> network \<Rightarrow> nat \<times> network \<times> timebuffer" where
  "verify d now bb0 n =
    (let bb = prepareRead d bb0
     in if tb_sizeData bb = 0 then (0, n, bb)
        else let time = tbtime bb
          in if time + milliseconds PACKET_LIFE_TIME_MS < now then (0, n, bb)
             else let i = srcId bb;
                      n1 = n\<lparr>sequences := touch time_min (sequences n) i\<rparr>;
                      t = at_default time_min (sequences n1) i
               in if t > time then (0, n1, bb)
                  else (tb_sizeData bb, n1\<lparr>sequences := (sequences n1)(i \<mapsto> time)\<rparr>, bb))"

definition readVerify :: "byte list \<Rightarrow> int \<Rightarrow> byte list \<Rightarrow> int \<Rightarrow> Time \<Rightarrow> timebuffer \<Rightarrow> network \<Rightarrow>
    nat \<times> network \<times> timebuffer" where
  "readVerify pad ret bytes d now bb n =
    (if ret = 0 then (0, n, bb) else verify d now (Multicast_read pad ret bytes bb) n)"

section \<open>The routing table\<close>

text \<open>The positions of the servers whose cluster id is \<open>l\<close>.\<close>

definition servers_with :: "ClusterID list \<Rightarrow> ClusterID \<Rightarrow> nat list" where
  "servers_with servers l = map fst (filter (\<lambda>(i, sid). l = sid) (enumerate 0 servers))"

lemma set_servers_with: "set (servers_with servers l) = {i. i < length servers \<and> servers ! i = l}"
  by (force simp: servers_with_def in_set_enumerate_eq image_iff)

lemma distinct_servers_with [simp]: "distinct (servers_with servers l)"
  unfolding servers_with_def by (simp add: distinct_map_filter)

lemma fold_add_subscriber:
  "at_default [] (fold (\<lambda>(i, sid). if loc = sid then add_subscriber r i else id) es m) r' =
     at_default [] m r' @ (if r' = r then map fst (filter (\<lambda>(i, sid). loc = sid) es) else [])"
  by (induction es arbitrary: m) (auto simp: add_subscriber_def)

lemma fold_remotes:
  "at_default [] (fold (\<lambda>remote. fold (\<lambda>(i, sid). if loc = sid then add_subscriber remote i else id)
      (enumerate 0 servers)) rs m) r =
     at_default [] m r @ concat (map (\<lambda>r'. if r' = r then servers_with servers loc else []) rs)"
  by (induction rs arbitrary: m) (auto simp: fold_add_subscriber servers_with_def)

lemma concat_single:
  "distinct rs \<Longrightarrow> concat (map (\<lambda>r'. if r' = r then xs else []) rs) = (if r \<in> set rs then xs else [])"
  by (induction rs) auto

lemma fold_locals:
  "at_default [] (fold (\<lambda>loc. fold (\<lambda>remote. fold (\<lambda>(i, sid). if loc = sid then add_subscriber remote i else id)
      (enumerate 0 servers)) (subs loc)) ks m) r =
     at_default [] m r @ concat (map (\<lambda>l. concat (map (\<lambda>r'. if r' = r then servers_with servers l else []) (subs l))) ks)"
  by (induction ks arbitrary: m) (simp_all add: fold_remotes)

lemma rebuild_eq:
  assumes "\<forall>l. distinct (subs_of n l)"
  shows "at_default [] (rebuild_subscribers ks servers n) r =
    concat (map (\<lambda>l. if r \<in> set (subs_of n l) then servers_with servers l else []) ks)"
  unfolding rebuild_subscribers_def fold_locals using assms by (simp add: concat_single)

lemma distinct_routes:
  "distinct ks \<Longrightarrow> distinct (concat (map (\<lambda>l. if P l then servers_with servers l else []) ks))"
  by (induction ks) (auto simp: set_servers_with)

lemma subs_in_dom: "r \<in> set (subs_of n l) \<Longrightarrow> l \<in> dom (subscriptions n)"
  by (cases "subscriptions n l") auto

definition routes_ok :: "ClusterID list \<Rightarrow> network \<Rightarrow> (ClusterID \<rightharpoonup> nat list) \<Rightarrow> bool" where
  "routes_ok servers n c \<longleftrightarrow> (\<forall>r. distinct (at_default [] c r) \<and>
     set (at_default [] c r) = {i. i < length servers \<and> r \<in> set (subs_of n (servers ! i))})"

lemma rebuild_routes_ok:
  assumes "\<forall>l. distinct (subs_of n l)" and "iterates ks (subscriptions n)"
  shows "routes_ok servers n (rebuild_subscribers ks servers n)"
  using assms distinct_routes [of ks]
  by (auto simp: routes_ok_def rebuild_eq set_servers_with iterates_def dest: subs_in_dom
      split: if_splits)

section \<open>The network over time\<close>

text \<open>
  The kernel's side of \<open>IP_ADD_MEMBERSHIP\<close> and \<open>IP_DROP_MEMBERSHIP\<close>: the set of groups the
  socket belongs to.  A request may fail (\<open>JoinMulticast\<close> and \<open>LeaveMulticast\<close> of \<open>lib/udp.cpp\<close>
  then write a message and return -1, which \<open>subscribe\<close> and \<open>unsubscribe\<close> do not look at) and then
  changes nothing; joining a group again, which the kernel refuses, is such a failure.
\<close>

fun apply_request :: "bool \<Rightarrow> group_request \<Rightarrow> IP set \<Rightarrow> IP set" where
  "apply_request ok (JoinMulticast ip) G = (if ok then insert ip G else G)"
| "apply_request ok (LeaveMulticast ip) G = (if ok then G - {ip} else G)"

text \<open>Beside the state of the program: the groups whose last request was refused, so that the socket is not
  in the group although it asked to join, or still is although it asked to leave.
\<close>

record net_sys =
  net :: network
  groups :: "IP set"
  routes :: "ClusterID \<rightharpoonup> nat list"
  refused :: "IP set"

fun note_refused :: "group_request \<Rightarrow> IP set \<Rightarrow> IP set \<Rightarrow> IP set" where
  "note_refused (JoinMulticast ip) G R = (if ip \<in> G then R - {ip} else insert ip R)"
| "note_refused (LeaveMulticast ip) G R = (if ip \<in> G then insert ip R else R - {ip})"

definition ask_kernel :: "bool \<Rightarrow> group_request \<Rightarrow> net_sys \<Rightarrow> net_sys" where
  "ask_kernel ok req s = s\<lparr>groups := apply_request ok req (groups s),
     refused := note_refused req (apply_request ok req (groups s)) (refused s)\<rparr>"

definition net_init :: net_sys where
  "net_init = \<lparr>net = Network_init, groups = {}, routes = Map.empty, refused = {}\<rparr>"

text \<open>One call, the servers having the ids \<open>servers\<close>.\<close>

inductive net_step :: "ClusterID list \<Rightarrow> net_sys \<Rightarrow> net_sys \<Rightarrow> bool" for servers where
  connect: "subscribe servers l r (net s) = (n, reqs) \<Longrightarrow>
     net_step servers s (fold (ask_kernel ok) reqs (s\<lparr>net := n\<rparr>))"
| drop: "iterates ks (touch [] (subscriptions (net s)) l) \<Longrightarrow>
     unsubscribe ks servers l r (net s) = Inr (n, reqs) \<Longrightarrow>
     net_step servers s (fold (ask_kernel ok) reqs (s\<lparr>net := n\<rparr>))"
| refresh: "iterates ks (subscriptions (net s)) \<Longrightarrow>
     getSubscriptions ks servers (net s) (routes s) = (n, c) \<Longrightarrow>
     net_step servers s (s\<lparr>net := n, routes := c\<rparr>)"
| packet: "readVerify pad ret bytes d now bb (net s) = (k, n, bb') \<Longrightarrow>
     net_step servers s (s\<lparr>net := n\<rparr>)"

abbreviation net_reachable :: "ClusterID list \<Rightarrow> net_sys \<Rightarrow> bool" where
  "net_reachable servers \<equiv> (net_step servers)\<^sup>*\<^sup>* net_init"

text \<open>
  The network in its process: the calls, and \<open>RUN\<close>, which gives a server another id (\<open>parseCommand\<close> of
  \<open>server.cpp\<close>) without telling the network; it happens between two calls here, and no server is added.
  Beside the state: the ids at the last rebuild of the table, the servers whose id has changed since, and
  all ids that a change took or gave.
\<close>

record net_run =
  nr_sys :: net_sys
  nr_ids :: "ClusterID list"
  nr_built :: "ClusterID list"
  nr_stale :: "nat set"
  nr_moved :: "ClusterID set"

definition net_run_init :: "ClusterID list \<Rightarrow> net_run" where
  "net_run_init servers = \<lparr>nr_sys = net_init, nr_ids = servers, nr_built = servers, nr_stale = {}, nr_moved = {}\<rparr>"

inductive net_run_step :: "net_run \<Rightarrow> net_run \<Rightarrow> bool" where
  rebuilt: "net_step (nr_ids s) (nr_sys s) t \<Longrightarrow> dirty (net (nr_sys s)) \<Longrightarrow> \<not> dirty (net t) \<Longrightarrow>
     net_run_step s (s\<lparr>nr_sys := t, nr_built := nr_ids s, nr_stale := {}\<rparr>)"
| called: "net_step (nr_ids s) (nr_sys s) t \<Longrightarrow> \<not> dirty (net (nr_sys s)) \<or> dirty (net t) \<Longrightarrow>
     net_run_step s (s\<lparr>nr_sys := t\<rparr>)"
| run: "k < length (nr_ids s) \<Longrightarrow> new \<noteq> nr_ids s ! k \<Longrightarrow>
     net_run_step s (s\<lparr>nr_ids := (nr_ids s)[k := new], nr_stale := insert k (nr_stale s), nr_moved := nr_moved s \<union> {nr_ids s ! k, new}\<rparr>)"

abbreviation net_runs :: "ClusterID list \<Rightarrow> net_run \<Rightarrow> bool" where
  "net_runs servers \<equiv> net_run_step\<^sup>*\<^sup>* (net_run_init servers)"

text \<open>Membership, but for the clusters \<open>E\<close> and the refused groups.\<close>

definition groups_ok :: "ClusterID set \<Rightarrow> ClusterID list \<Rightarrow> net_sys \<Rightarrow> bool" where
  "groups_ok E servers s \<longleftrightarrow> (\<forall>r. r \<notin> E \<and> idToMulticast r \<notin> refused s \<longrightarrow>
     (idToMulticast r \<in> groups s \<longleftrightarrow> r \<notin> set servers \<and> (\<exists>l. r \<in> set (subs_of (net s) l))))"

abbreviation subs_distinct :: "network \<Rightarrow> bool" where
  "subs_distinct n \<equiv> \<forall>l. distinct (subs_of n l)"

definition net_invar :: "ClusterID list \<Rightarrow> net_sys \<Rightarrow> bool" where
  "net_invar servers s \<longleftrightarrow> subs_distinct (net s) \<and> groups_ok {} servers s \<and>
     (\<not> dirty (net s) \<longrightarrow> routes_ok servers (net s) (routes s))"

lemma ask_kernel_simps [simp]:
  "net (ask_kernel ok req s) = net s" "routes (ask_kernel ok req s) = routes s"
  "net (fold (ask_kernel ok) reqs s) = net s" "routes (fold (ask_kernel ok) reqs s) = routes s"
  by (induction reqs arbitrary: s) (simp_all add: ask_kernel_def)

text \<open>A request decides about its own group: the socket is in it as asked, or it is refused.\<close>

lemma ask_join:
  "idToMulticast q \<notin> refused (ask_kernel ok (JoinMulticast (idToMulticast r)) s) \<Longrightarrow>
     idToMulticast q \<in> groups (ask_kernel ok (JoinMulticast (idToMulticast r)) s) \<longleftrightarrow> q = r \<or> idToMulticast q \<in> groups s"
  "q \<noteq> r \<Longrightarrow> idToMulticast q \<in> refused (ask_kernel ok (JoinMulticast (idToMulticast r)) s) \<longleftrightarrow> idToMulticast q \<in> refused s"
  by (auto simp: ask_kernel_def split: if_splits)

lemma ask_leave:
  "idToMulticast q \<notin> refused (ask_kernel ok (LeaveMulticast (idToMulticast r)) s) \<Longrightarrow>
     idToMulticast q \<in> groups (ask_kernel ok (LeaveMulticast (idToMulticast r)) s) \<longleftrightarrow> q \<noteq> r \<and> idToMulticast q \<in> groups s"
  "q \<noteq> r \<Longrightarrow> idToMulticast q \<in> refused (ask_kernel ok (LeaveMulticast (idToMulticast r)) s) \<longleftrightarrow> idToMulticast q \<in> refused s"
  by (auto simp: ask_kernel_def split: if_splits)

text \<open>The three ways \<open>subscribe\<close> returns, and the effect on the subscriptions.\<close>

lemma subscribe_dirty: "dirty (fst (subscribe servers l r n))"
  by (simp add: subscribe_def Let_def)

lemma subscribe_subs:
  "subs_of (fst (subscribe servers l r n)) j =
     (if j = l \<and> r \<notin> set (subs_of n l) then subs_of n l @ [r] else subs_of n j)"
  by (simp add: subscribe_def Let_def)

lemma subscribe_requests:
  "snd (subscribe servers l r n) =
     (if r \<in> set (subs_of n l) \<or> r \<in> set servers then [] else [JoinMulticast (idToMulticast r)])"
  by (simp add: subscribe_def Let_def)

lemma subscribe_sequences [simp]: "sequences (fst (subscribe servers l r n)) = sequences n"
  by (simp add: subscribe_def Let_def)

lemma unsubscribe_error [result_iff]:
  "unsubscribe ks servers l r n = Inl e \<longleftrightarrow> r \<notin> set (subs_of n l)"
  by (cases e) (simp add: unsubscribe_def Let_def)

definition drop_subscription :: "ClusterID \<Rightarrow> ClusterID \<Rightarrow> network \<Rightarrow> network" where
  "drop_subscription l r n = n\<lparr>dirty := True,
     subscriptions := (touch [] (subscriptions n) l)(l \<mapsto> remove1 r (subs_of n l))\<rparr>"

lemma unsubscribe_eq:
  "unsubscribe ks servers l r n =
     (if r \<notin> set (subs_of n l) then Inl EraseEnd
      else Inr (drop_subscription l r n,
        if list_ex (\<lambda>i. r \<in> set (subs_of (drop_subscription l r n) i)) ks \<or> r \<in> set servers then []
        else [LeaveMulticast (idToMulticast r)]))"
  by (simp add: unsubscribe_def Let_def drop_subscription_def)

lemma drop_subscription_simps [simp]:
  "dirty (drop_subscription l r n)"
  "sequences (drop_subscription l r n) = sequences n"
  "subs_of (drop_subscription l r n) j = (if j = l then remove1 r (subs_of n l) else subs_of n j)"
  "dom (subscriptions (drop_subscription l r n)) = insert l (dom (subscriptions n))"
  by (simp_all add: drop_subscription_def)

lemma unsubscribe_effect:
  assumes "unsubscribe ks servers l r n = Inr (n', reqs)"
  shows "r \<in> set (subs_of n l)" and "n' = drop_subscription l r n"
    and "reqs = (if list_ex (\<lambda>i. r \<in> set (subs_of n' i)) ks \<or> r \<in> set servers then []
      else [LeaveMulticast (idToMulticast r)])"
proof -
  show r: "r \<in> set (subs_of n l)" using assms unfolding unsubscribe_eq by (simp split: if_split_asm)
  have "Inr (drop_subscription l r n,
        if list_ex (\<lambda>i. r \<in> set (subs_of (drop_subscription l r n) i)) ks \<or> r \<in> set servers then []
        else [LeaveMulticast (idToMulticast r)]) = (Inr (n', reqs) :: net_error + _)"
    using assms r unfolding unsubscribe_eq by (metis (no_types, lifting))
  then show "n' = drop_subscription l r n"
    and "reqs = (if list_ex (\<lambda>i. r \<in> set (subs_of n' i)) ks \<or> r \<in> set servers then []
      else [LeaveMulticast (idToMulticast r)])"
    by blast+
qed

lemma connect_keeps:
  assumes "groups_ok E servers s" and "subscribe servers l r (net s) = (n, reqs)"
  shows "groups_ok E servers (fold (ask_kernel ok) reqs (s\<lparr>net := n\<rparr>))"
proof -
  have n: "subs_of n j = (if j = l \<and> r \<notin> set (subs_of (net s) l) then subs_of (net s) l @ [r] else subs_of (net s) j)" for j
    using subscribe_subs [of servers l r "net s"] assms(2) by simp
  have reqs: "reqs = (if r \<in> set (subs_of (net s) l) \<or> r \<in> set servers then [] else [JoinMulticast (idToMulticast r)])"
    using subscribe_requests [of servers l r "net s"] assms(2) by simp
  have wanted: "(\<exists>j. q \<in> set (subs_of n j)) \<longleftrightarrow> q = r \<or> (\<exists>j. q \<in> set (subs_of (net s) j))" for q
  proof -
    have "set (subs_of n j) = (if j = l then insert r (set (subs_of (net s) l)) else set (subs_of (net s) j))" for j
      using n [of j] by auto
    then have "q \<in> set (subs_of n j) \<longleftrightarrow> j = l \<and> q = r \<or> q \<in> set (subs_of (net s) j)" for j
      by (simp only: split: if_split) blast
    then show ?thesis by (simp only: ex_disj_distrib ex_simps simp_thms)
  qed
  show ?thesis
  proof (cases "reqs = []")
    case True
    then have "r \<in> set (subs_of (net s) l) \<or> r \<in> set servers" by (auto simp: reqs split: if_splits)
    then have "q \<notin> set servers \<and> (\<exists>j. q \<in> set (subs_of n j)) \<longleftrightarrow> q \<notin> set servers \<and> (\<exists>j. q \<in> set (subs_of (net s) j))" for q
      using wanted [of q] by blast
    with True show ?thesis using assms(1) by (simp add: groups_ok_def)
  next
    case False
    then have r: "r \<notin> set servers" "reqs = [JoinMulticast (idToMulticast r)]" by (auto simp: reqs split: if_splits)
    show ?thesis
      unfolding groups_ok_def r(2)
    proof (intro allI impI)
      fix q assume q: "q \<notin> E \<and> idToMulticast q \<notin> refused (fold (ask_kernel ok) [JoinMulticast (idToMulticast r)] (s\<lparr>net := n\<rparr>))"
      then show "idToMulticast q \<in> groups (fold (ask_kernel ok) [JoinMulticast (idToMulticast r)] (s\<lparr>net := n\<rparr>)) \<longleftrightarrow>
          q \<notin> set servers \<and> (\<exists>j. q \<in> set (subs_of (net (fold (ask_kernel ok) [JoinMulticast (idToMulticast r)] (s\<lparr>net := n\<rparr>))) j))"
        using ask_join [where q = q and ok = ok and r = r and s = "s\<lparr>net := n\<rparr>"] assms(1) r(1) wanted [of q] by (auto simp: groups_ok_def)
    qed
  qed
qed

lemma drop_requests:
  assumes ks: "iterates ks (touch [] (subscriptions n) l)"
    and un: "unsubscribe ks servers l r n = Inr (n', reqs)"
  shows "reqs = (if (\<exists>i. r \<in> set (subs_of n' i)) \<or> r \<in> set servers then []
      else [LeaveMulticast (idToMulticast r)])"
proof -
  have "set ks = dom (subscriptions n')"
    using ks unsubscribe_effect(2) [OF un] by (simp add: iterates_def)
  then have "list_ex (\<lambda>i. r \<in> set (subs_of n' i)) ks \<longleftrightarrow> (\<exists>i. r \<in> set (subs_of n' i))"
    using subs_in_dom [of r n'] by (metis list_ex_iff)
  with unsubscribe_effect(3) [OF un] show ?thesis by simp
qed

lemma drop_keeps:
  assumes "groups_ok E servers s" and ks: "iterates ks (touch [] (subscriptions (net s)) l)"
    and un: "unsubscribe ks servers l r (net s) = Inr (n, reqs)"
  shows "groups_ok E servers (fold (ask_kernel ok) reqs (s\<lparr>net := n\<rparr>))"
proof -
  note eff = unsubscribe_effect [OF un] and reqs = drop_requests [OF ks un]
  have other: "(\<exists>j. q \<in> set (subs_of n j)) \<longleftrightarrow> (\<exists>j. q \<in> set (subs_of (net s) j))" if "q \<noteq> r" for q
    using that eff(2) by (metis drop_subscription_simps(3) in_set_remove1)
  show ?thesis
  proof (cases "(\<exists>i. r \<in> set (subs_of n i)) \<or> r \<in> set servers")
    case True
    then have "reqs = []" by (simp add: reqs)
    moreover have "q \<notin> set servers \<and> (\<exists>j. q \<in> set (subs_of n j)) \<longleftrightarrow> q \<notin> set servers \<and> (\<exists>j. q \<in> set (subs_of (net s) j))" for q
      using True other [of q] eff(1) by blast
    ultimately show ?thesis using assms(1) by (simp add: groups_ok_def)
  next
    case False
    then have r: "r \<notin> set servers" "reqs = [LeaveMulticast (idToMulticast r)]" "\<nexists>i. r \<in> set (subs_of n i)" by (auto simp: reqs)
    show ?thesis
      unfolding groups_ok_def r(2)
    proof (intro allI impI)
      fix q assume q: "q \<notin> E \<and> idToMulticast q \<notin> refused (fold (ask_kernel ok) [LeaveMulticast (idToMulticast r)] (s\<lparr>net := n\<rparr>))"
      then show "idToMulticast q \<in> groups (fold (ask_kernel ok) [LeaveMulticast (idToMulticast r)] (s\<lparr>net := n\<rparr>)) \<longleftrightarrow>
          q \<notin> set servers \<and> (\<exists>j. q \<in> set (subs_of (net (fold (ask_kernel ok) [LeaveMulticast (idToMulticast r)] (s\<lparr>net := n\<rparr>))) j))"
        using ask_leave [where q = q and ok = ok and r = r and s = "s\<lparr>net := n\<rparr>"] assms(1) r other [of q] by (auto simp: groups_ok_def)
    qed
  qed
qed

lemma readVerify_frame:
  "readVerify pad ret bytes d now bb n = (k, n', bb') \<Longrightarrow>
     subscriptions n' = subscriptions n \<and> dirty n' = dirty n"
  by (auto simp: readVerify_def verify_def Let_def split: if_splits)

lemma net_step_keeps:
  "net_step servers s t \<Longrightarrow> subs_distinct (net s) \<Longrightarrow> groups_ok E servers s \<Longrightarrow>
     subs_distinct (net t) \<and> groups_ok E servers t"
proof (induction rule: net_step.induct)
  case (connect l r s n reqs ok)
  then have "subs_distinct n" using subscribe_subs [of servers l r "net s"] by simp
  with connect show ?case by (simp add: connect_keeps)
next
  case (drop ks s l r n reqs ok)
  then have "subs_distinct n" by (simp add: unsubscribe_effect(2) [OF drop(2)])
  with drop show ?case by (simp add: drop_keeps)
next
  case (refresh ks s n c)
  then show ?case by (auto simp: getSubscriptions_def groups_ok_def split: if_splits)
next
  case (packet pad ret bytes d now bb s k n bb')
  then show ?case using readVerify_frame [OF packet(1)] by (simp add: groups_ok_def)
qed

text \<open>Only \<open>getSubscriptions\<close> cleans the table, and a clean table stays as it is.\<close>

lemma net_step_routes:
  "net_step servers s t \<Longrightarrow> subs_distinct (net s) \<Longrightarrow> \<not> dirty (net t) \<Longrightarrow>
     (if dirty (net s) then routes_ok servers (net t) (routes t)
      else routes t = routes s \<and> subscriptions (net t) = subscriptions (net s))"
proof (induction rule: net_step.induct)
  case (connect l r s n reqs ok)
  then show ?case using subscribe_dirty [of servers l r "net s"] by simp
next
  case (drop ks s l r n reqs ok)
  then show ?case using unsubscribe_effect(2) [OF drop(2)] by simp
next
  case (refresh ks s n c)
  then show ?case
    using rebuild_routes_ok [of "net s" ks servers]
    by (auto simp: getSubscriptions_def routes_ok_def split: if_splits)
next
  case (packet pad ret bytes d now bb s k n bb')
  then show ?case using readVerify_frame [OF packet(1)] by simp
qed

lemma net_step_invar [inv_intros]:
  "net_step servers s t \<Longrightarrow> net_invar servers s \<Longrightarrow> net_invar servers t"
  using net_step_keeps [of servers s t "{}"] net_step_routes [of servers s t]
  by (auto simp: net_invar_def routes_ok_def split: if_splits)

lemma net_init_ok: "subs_distinct (net net_init)" "groups_ok E servers net_init" "routes_ok servers (net net_init) (routes net_init)"
  by (simp_all add: net_init_def Network_init_def groups_ok_def routes_ok_def)

lemma net_init_invar: "net_invar servers net_init"
  by (simp add: net_invar_def net_init_ok)

lemma net_reachable_invar: "net_reachable servers s \<Longrightarrow> net_invar servers s"
  by (induction rule: rtranclp_induct) (auto intro: net_step_invar net_init_invar)

definition net_run_invar :: "net_run \<Rightarrow> bool" where
  "net_run_invar s \<longleftrightarrow> subs_distinct (net (nr_sys s)) \<and> groups_ok (nr_moved s) (nr_ids s) (nr_sys s) \<and>
     (\<not> dirty (net (nr_sys s)) \<longrightarrow> routes_ok (nr_built s) (net (nr_sys s)) (routes (nr_sys s))) \<and>
     length (nr_built s) = length (nr_ids s) \<and> (\<forall>k < length (nr_ids s). k \<notin> nr_stale s \<longrightarrow> nr_built s ! k = nr_ids s ! k)"

lemma set_update_other: "k < length xs \<Longrightarrow> r \<notin> {xs ! k, new} \<Longrightarrow> r \<in> set (xs[k := new]) \<longleftrightarrow> r \<in> set xs"
  by (metis in_set_conv_nth insertI1 insert_iff length_list_update nth_list_update_eq nth_list_update_neq)

lemma net_run_step_invar [inv_intros]:
  "net_run_step s t \<Longrightarrow> net_run_invar s \<Longrightarrow> net_run_invar t"
proof (induction rule: net_run_step.induct)
  case (rebuilt s t)
  then show ?case
    using net_step_keeps [OF rebuilt(1), of "nr_moved s"] net_step_routes [OF rebuilt(1)] by (simp add: net_run_invar_def)
next
  case (called s t)
  then show ?case
    using net_step_keeps [OF called(1), of "nr_moved s"] net_step_routes [OF called(1)]
    by (auto simp: net_run_invar_def routes_ok_def)
next
  case (run k s new)
  then show ?case
    using set_update_other [OF run(1), of _ new] by (auto simp: net_run_invar_def groups_ok_def nth_list_update)
qed

lemma net_runs_invar: "net_runs servers s \<Longrightarrow> net_run_invar s"
proof (induction rule: rtranclp_induct)
  case base
  show ?case using net_init_ok by (simp add: net_run_invar_def net_run_init_def)
qed (rule net_run_step_invar)

section \<open>The out-of-order filter over a run\<close>

text \<open>
  A run of calls of \<open>readVerify\<close>: each arrival has the buffer object it is read into, the result of the
  socket, the datagram, the clock offset and the clock.  Of the accepted packets the source, the time, and the clock when
  they were accepted are collected.
\<close>

type_synonym arrival = "timebuffer \<times> int \<times> byte list \<times> int \<times> Time"

fun verify_run :: "byte list \<Rightarrow> arrival list \<Rightarrow> network \<Rightarrow> (ClusterID \<times> Time \<times> Time) list" where
  "verify_run pad [] n = []"
| "verify_run pad ((bb, ret, bytes, d, now) # as) n =
    (case readVerify pad ret bytes d now bb n of (k, n', bb') \<Rightarrow>
       (if k > 0 then [(srcId bb', tbtime bb', now)] else []) @ verify_run pad as n')"

abbreviation last_seen :: "network \<Rightarrow> ClusterID \<Rightarrow> Time" where
  "last_seen n i \<equiv> at_default time_min (sequences n) i"

lemma verify_cases:
  assumes "verify d now bb0 n = (k, n', bb)"
  obtains (rejected) "k = 0" "\<And>i. last_seen n' i = last_seen n i"
  | (accepted) "k > 0" "last_seen n (srcId bb) \<le> tbtime bb"
      "now \<le> tbtime bb + milliseconds PACKET_LIFE_TIME_MS"
      "\<And>i. last_seen n' i = (if i = srcId bb then tbtime bb else last_seen n i)"
proof -
  have bb: "bb = prepareRead d bb0" using assms by (simp add: verify_def Let_def split: if_splits)
  show thesis
  proof (cases "tb_sizeData bb = 0 \<or> tbtime bb + milliseconds PACKET_LIFE_TIME_MS < now \<or>
      last_seen n (srcId bb) > tbtime bb")
    case True
    then show ?thesis
      using assms by (intro rejected) (auto simp: verify_def Let_def bb split: if_splits)
  next
    case False
    then show ?thesis
      using assms by (intro accepted) (auto simp: verify_def Let_def bb split: if_splits)
  qed
qed

lemma readVerify_cases:
  assumes "readVerify pad ret bytes d now bb0 n = (k, n', bb)"
  obtains (rejected) "k = 0" "\<And>i. last_seen n' i = last_seen n i"
  | (accepted) "k > 0" "last_seen n (srcId bb) \<le> tbtime bb"
      "now \<le> tbtime bb + milliseconds PACKET_LIFE_TIME_MS"
      "\<And>i. last_seen n' i = (if i = srcId bb then tbtime bb else last_seen n i)"
proof (cases "ret = 0")
  case True
  with assms show ?thesis by (intro rejected) (auto simp: readVerify_def)
next
  case False
  with assms have "verify d now (Multicast_read pad ret bytes bb0) n = (k, n', bb)"
    by (simp add: readVerify_def)
  then show ?thesis by (cases rule: verify_cases) (fact rejected, fact accepted)
qed

definition times_of :: "ClusterID \<Rightarrow> (ClusterID \<times> Time \<times> Time) list \<Rightarrow> Time list" where
  "times_of c log = map (\<lambda>(i, t, now). t) (filter (\<lambda>(i, t, now). i = c) log)"

lemma times_of_simps [simp]:
  "times_of c [] = []"
  "times_of c ((i, t, now) # log) = (if i = c then [t] else []) @ times_of c log"
  by (simp_all add: times_of_def)

lemma verify_run_order:
  "sorted (times_of c (verify_run pad as n)) \<and>
   (\<forall>t \<in> set (times_of c (verify_run pad as n)). last_seen n c \<le> t)"
proof (induction as arbitrary: n)
  case Nil
  show ?case by simp
next
  case (Cons a as)
  obtain bb ret bytes d now where a: "a = (bb, ret, bytes, d, now)" by (cases a)
  obtain k n' bb' where r: "readVerify pad ret bytes d now bb n = (k, n', bb')"
    by (cases "readVerify pad ret bytes d now bb n")
  note IH = Cons.IH [of n']
  from r show ?case
  proof (cases rule: readVerify_cases)
    case rejected
    with IH show ?thesis by (simp add: a r)
  next
    case accepted
    with IH show ?thesis by (cases "srcId bb' = c") (force simp: a r)+
  qed
qed

lemma verify_run_fresh:
  "list_all (\<lambda>(i, t, now). now \<le> t + milliseconds PACKET_LIFE_TIME_MS) (verify_run pad as n)"
proof (induction as arbitrary: n)
  case Nil
  show ?case by simp
next
  case (Cons a as)
  obtain bb ret bytes d now where a: "a = (bb, ret, bytes, d, now)" by (cases a)
  obtain k n' bb' where r: "readVerify pad ret bytes d now bb n = (k, n', bb')"
    by (cases "readVerify pad ret bytes d now bb n")
  from r show ?case
    by (cases rule: readVerify_cases) (simp_all add: a r Cons.IH)
qed

section \<open>Properties\<close>

lemma class_D: "drop_bit 28 w = (0xE :: u32) \<longleftrightarrow> 0xE0000000 \<le> unat w \<and> unat w < 0xF0000000"
proof -
  have "unat w < 2 ^ 32" using unsigned_less [where w = w and ?'a = nat] by simp
  moreover have "drop_bit 28 w = (0xE :: u32) \<longleftrightarrow> unat w div 2 ^ 28 = 14"
    by (simp add: word_unat_eq_iff unsigned_drop_bit_eq drop_bit_eq_div unat_div)
  ultimately show ?thesis by auto
qed

text \<open>The multicast group of a cluster determines the cluster, and it is an address of the IPv4
  multicast range exactly for ids below \<open>0x0FFFFF00\<close> and for the last 256 ids: the sum wraps,
  and the latter, among them that of the time server, get the addresses \<open>224.0.0.0/24\<close> below
  the base.
\<close>

theorem idToMulticast_spec:
  "multicastToId (idToMulticast i) = i \<and>
   (drop_bit 28 (byte_swap32 (ucast (idToMulticast i))) = 0xE \<longleftrightarrow>
     unat i < 0x0FFFFF00 \<or> unat i \<ge> 0xFFFFFF00)"
proof -
  have i: "unat i < 2 ^ 32" using unsigned_less [where w = i and ?'a = nat] by simp
  have "unat (0xE0000100 + i) = (0xE0000100 + unat i) mod 2 ^ 32"
    by (simp add: unat_word_ariths)
  then have "(0xE0000000 \<le> unat (0xE0000100 + i) \<and> unat (0xE0000100 + i) < 0xF0000000) =
      (unat i < 0x0FFFFF00 \<or> unat i \<ge> 0xFFFFFF00)"
    using i by (cases "0xE0000100 + unat i < 2 ^ 32") (auto simp: mod_if)
  then show ?thesis by (simp add: group_host_order class_D)
qed

text \<open>C17. Whatever connections were made and dropped, ids changed between the calls and packets read: a table the dispatch loop
  considers up to date (the dirty flag is clear) routes a packet of a cluster, each once, to exactly the
  servers whose id at the last rebuild of the table has a subscription to it.  For every server whose
  id has not been changed by \<open>RUN\<close> since that rebuild this is its present id; \<open>RUN\<close> does not set the flag,
  so a server renamed after the rebuild keeps getting the packets of its old id's subscriptions.
\<close>

theorem routes_match_subscriptions:
  assumes "net_runs servers s" and "\<not> dirty (net (nr_sys s))"
  shows "distinct (at_default [] (routes (nr_sys s)) r) \<and>
    set (at_default [] (routes (nr_sys s)) r) =
      {k. k < length (nr_ids s) \<and> r \<in> set (subs_of (net (nr_sys s)) (nr_built s ! k))} \<and>
    (\<forall>k < length (nr_ids s). k \<notin> nr_stale s \<longrightarrow>
      (k \<in> set (at_default [] (routes (nr_sys s)) r) \<longleftrightarrow> r \<in> set (subs_of (net (nr_sys s)) (nr_ids s ! k))))"
  using net_runs_invar [OF assms(1)] assms(2) by (auto simp: net_run_invar_def routes_ok_def)

text \<open>The cluster 1 of the process connects to 5 and the table is built; then its server becomes cluster 3.\<close>

definition example_net :: net_sys where
  "example_net = \<lparr>net = \<lparr>dirty = False, subscriptions = [1 \<mapsto> [5]], sequences = Map.empty\<rparr>,
     groups = {idToMulticast 5}, routes = [5 \<mapsto> [0]], refused = {}\<rparr>"

abbreviation connected_net :: net_sys where
  "connected_net \<equiv> net_init\<lparr>net := \<lparr>dirty = True, subscriptions = [1 \<mapsto> [5]], sequences = Map.empty\<rparr>,
     groups := {idToMulticast 5}\<rparr>"

lemma connected_net_step: "net_step [1, 2] net_init connected_net"
proof -
  have "subscribe [1, 2] 1 5 Network_init = (net connected_net, [JoinMulticast (idToMulticast 5)])"
    by (simp add: subscribe_def Let_def Network_init_def touch_def)
  then show ?thesis
    using net_step.connect [of "[1, 2]" 1 5 net_init _ _ True] by (simp add: net_init_def ask_kernel_def)
qed

lemma example_net_step: "net_step [1, 2] connected_net example_net"
proof -
  have "getSubscriptions [1] [1, 2] (net connected_net) Map.empty = (net connected_net\<lparr>dirty := False\<rparr>, [5 \<mapsto> [0]])"
    by (simp add: getSubscriptions_def rebuild_subscribers_def add_subscriber_def)
  then show ?thesis
    using net_step.refresh [of "[1]" connected_net "[1, 2]"] by (simp add: net_init_def iterates_def example_net_def)
qed

lemma example_net_reachable: "net_reachable [1, 2] example_net"
  using connected_net_step example_net_step by (meson converse_rtranclp_into_rtranclp rtranclp.rtrancl_refl)

lemma example_connected: "net_runs [1, 2] ((net_run_init [1, 2])\<lparr>nr_sys := connected_net\<rparr>)"
  using net_run_step.called [of "net_run_init [1, 2]" connected_net] connected_net_step by (simp add: net_run_init_def)

lemma example_renamed:
  "net_runs [1, 2] \<lparr>nr_sys = example_net, nr_ids = [3, 2], nr_built = [1, 2], nr_stale = {0}, nr_moved = {1, 3}\<rparr>"
proof -
  let ?s = "(net_run_init [1, 2])\<lparr>nr_sys := connected_net\<rparr>"
  let ?t = "?s\<lparr>nr_sys := example_net, nr_built := [1, 2], nr_stale := {}\<rparr>"
  have "net_run_step ?s ?t"
    using net_run_step.rebuilt [of ?s example_net] example_net_step by (simp add: net_run_init_def example_net_def)
  moreover have "net_run_step ?t \<lparr>nr_sys = example_net, nr_ids = [3, 2], nr_built = [1, 2], nr_stale = {0}, nr_moved = {1, 3}\<rparr>"
    using net_run_step.run [of 0 ?t 3] by (simp add: net_run_init_def)
  ultimately show ?thesis using example_connected by (meson rtranclp.rtrancl_into_rtrancl)
qed

theorem routes_match_subscriptions_witness:
  "\<exists>s. net_runs [1, 2] s \<and> nr_ids s = [3, 2] \<and> \<not> dirty (net (nr_sys s)) \<and> subs_of (net (nr_sys s)) 3 = [] \<and>
     0 \<in> set (at_default [] (routes (nr_sys s)) 5) \<and> 1 \<notin> set (at_default [] (routes (nr_sys s)) 5)"
proof -
  let ?s = "\<lparr>nr_sys = example_net, nr_ids = [3, 2], nr_built = [1, 2], nr_stale = {0}, nr_moved = {1, 3}\<rparr>"
  have n: "net (nr_sys ?s) = \<lparr>dirty = False, subscriptions = [1 \<mapsto> [5]], sequences = Map.empty\<rparr>"
    by (simp add: example_net_def)
  have "set (at_default [] (routes (nr_sys ?s)) 5) = {k. k < length (nr_ids ?s) \<and> 5 \<in> set (subs_of (net (nr_sys ?s)) (nr_built ?s ! k))}"
    using routes_match_subscriptions [OF example_renamed, of 5] n by simp
  then have "0 \<in> set (at_default [] (routes (nr_sys ?s)) 5)" "1 \<notin> set (at_default [] (routes (nr_sys ?s)) 5)"
    unfolding n by simp_all
  then show ?thesis using example_renamed n by (intro exI [of _ ?s]) simp
qed

text \<open>C28. After any sequence of connections, drops, packets and, between them, changes of ids, with any requests to the kernel
  failing: for every id that no \<open>RUN\<close> took from a server or gave to one, the socket has joined the group
  of that cluster exactly when some id of the process has a subscription to it and no server of the
  process has that id -- unless the kernel refused the last request for the group, an error which the
  network ignores, so that nothing is asked again.
\<close>

theorem joined_groups:
  assumes "net_runs servers s" and "r \<notin> nr_moved s" and "idToMulticast r \<notin> refused (nr_sys s)"
  shows "idToMulticast r \<in> groups (nr_sys s) \<longleftrightarrow> r \<notin> set (nr_ids s) \<and> (\<exists>l. r \<in> set (subs_of (net (nr_sys s)) l))"
  using net_runs_invar [OF assms(1)] assms(2,3) by (simp add: net_run_invar_def groups_ok_def)

text \<open>The cluster 1 connects to 5, then 2 connects to 6 and the kernel refuses to join.\<close>

lemma example_refused:
  "\<exists>s. net_runs [1, 2] s \<and> nr_ids s = [1, 2] \<and> nr_moved s = {} \<and> refused (nr_sys s) = {idToMulticast 6} \<and>
     subscriptions (net (nr_sys s)) = [1 \<mapsto> [5], 2 \<mapsto> [6]]"
proof -
  let ?n = "\<lparr>dirty = True, subscriptions = [1 \<mapsto> [5], 2 \<mapsto> [6]], sequences = Map.empty\<rparr>"
  let ?t = "ask_kernel False (JoinMulticast (idToMulticast 6)) (connected_net\<lparr>net := ?n\<rparr>)"
  have "subscribe [1, 2] 2 6 (net connected_net) = (?n, [JoinMulticast (idToMulticast 6)])"
    by (simp add: subscribe_def Let_def touch_def)
  then have "net_step [1, 2] connected_net ?t"
    using net_step.connect [of "[1, 2]" 2 6 connected_net _ _ False] by simp
  then have "net_run_step ((net_run_init [1, 2])\<lparr>nr_sys := connected_net\<rparr>) ((net_run_init [1, 2])\<lparr>nr_sys := ?t\<rparr>)"
    using net_run_step.called [of "(net_run_init [1, 2])\<lparr>nr_sys := connected_net\<rparr>" ?t] by (simp add: net_run_init_def)
  with example_connected have "net_runs [1, 2] ((net_run_init [1, 2])\<lparr>nr_sys := ?t\<rparr>)" by (rule rtranclp.rtrancl_into_rtrancl)
  then show ?thesis by (intro exI [of _ "(net_run_init [1, 2])\<lparr>nr_sys := ?t\<rparr>"]) (simp add: net_run_init_def net_init_def ask_kernel_def)
qed

theorem joined_groups_witness:
  "\<exists>s. net_runs [1, 2] s \<and> refused (nr_sys s) = {idToMulticast 6} \<and> idToMulticast 5 \<in> groups (nr_sys s) \<and> idToMulticast 7 \<notin> groups (nr_sys s)"
proof -
  obtain s where s: "net_runs [1, 2] s" "nr_ids s = [1, 2]" "nr_moved s = {}" "refused (nr_sys s) = {idToMulticast 6}"
      "subscriptions (net (nr_sys s)) = [1 \<mapsto> [5], 2 \<mapsto> [6]]"
    using example_refused by blast
  have "5 \<in> set (subs_of (net (nr_sys s)) 1)" "\<And>l. 7 \<notin> set (subs_of (net (nr_sys s)) l)" by (simp_all add: s(5) at_default_def)
  then have "idToMulticast 5 \<in> groups (nr_sys s)" "idToMulticast 7 \<notin> groups (nr_sys s)"
    using joined_groups [OF s(1), of 5] joined_groups [OF s(1), of 7] s(2-4) by auto
  with s(1,4) show ?thesis by blast
qed

text \<open>Dropping a connection that does not exist erases the end iterator of a vector; dropping one
  that exists is well defined, removes it and nothing else.
\<close>

theorem unsubscribe_spec:
  "(unsubscribe ks servers l r n = Inl EraseEnd \<and> r \<notin> set (subs_of n l)) \<or>
   (\<exists>n' reqs. unsubscribe ks servers l r n = Inr (n', reqs) \<and> r \<in> set (subs_of n l) \<and> dirty n' \<and>
      (\<lambda>j. subs_of n' j) = (\<lambda>j. subs_of n j)(l := remove1 r (subs_of n l)))"
proof (cases "r \<in> set (subs_of n l)")
  case True
  have "(\<lambda>j. subs_of (drop_subscription l r n) j) = (\<lambda>j. subs_of n j)(l := remove1 r (subs_of n l))"
    by (rule ext) simp
  with True show ?thesis unfolding unsubscribe_eq by (metis drop_subscription_simps(1))
next
  case False
  then show ?thesis by (simp add: unsubscribe_eq)
qed

text \<open>C21. Over any sequence of buffers to read into, socket results, datagrams, clock values and offsets, errors included:
  the packets accepted from one cluster have times that never decrease, and a packet is
  accepted within \<open>PACKET_LIFE_TIME_MS\<close> of its time.
\<close>

theorem accepted_packets_in_order:
  "sorted (times_of c (verify_run pad as n)) \<and>
   list_all (\<lambda>(i, t, now). now \<le> t + milliseconds PACKET_LIFE_TIME_MS) (verify_run pad as n)"
  using verify_run_order [of c pad as n] verify_run_fresh [of pad as n] by simp

lemma received_header:
  assumes "tb_wf bb" "in_clock (tbtime tb)"
  shows "tb_received pad (tb_header pad tb) bb = tb\<lparr>idx := idx bb, dt := dt bb\<rparr>"
proof -
  have i: "tb_image pad bb = tb_header pad bb @ u16s_bytes (idx bb @ dt bb)"
    by (simp add: tb_image_def u16s_bytes_append)
  have "take (length (tb_image pad bb)) (tb_header pad tb) @ drop (length (tb_header pad tb)) (tb_image pad bb) =
      tb_header pad tb @ u16s_bytes (idx bb @ dt bb)"
    unfolding i by simp
  then show ?thesis
    using assms by (simp add: tb_received_def Let_def tb_of_image_header tb_wf_def)
qed

text \<open>C36. The count in a datagram is trusted: a fresh packet that consists of a header only, with a count
  beyond the arrays, is accepted with that count, and a cluster that reads as many impulses as it
  is told reads past the end of the arrays.
\<close>

theorem oversized_count_accepted:
  assumes "tb_wf bb" and "in_clock (tbtime tb)" and "MAX_OUTPUT_NODES < tb_sizeData tb" and "ret > 0"
    and "now \<le> toLocal d (tbtime tb) + milliseconds PACKET_LIFE_TIME_MS"
    and "at_default time_min (sequences n) (srcId tb) \<le> toLocal d (tbtime tb)"
  shows "\<exists>n' bb'. readVerify pad ret (tb_header pad tb) d now bb n = (tb_sizeData tb, n', bb') \<and>
    tb_sizeData bb' = tb_sizeData tb \<and> MAX_OUTPUT_NODES < tb_sizeData bb' \<and> TimeBuffer_read MAX_OUTPUT_NODES bb' = None"
proof -
  have len: "length (idx bb) = MAX_OUTPUT_NODES" using assms(1) by (simp add: tb_wf_def)
  have "tb_sizeData tb \<noteq> 0" using assms(3) by simp
  then show ?thesis
    using assms len
    by (simp add: readVerify_def Multicast_read_def received_header verify_def prepareRead_def tb_sizeData_def
        TimeBuffer_read_def Let_def not_less)
qed

theorem oversized_count_accepted_witness:
  "\<exists>n' bb'. readVerify [] 14 (tb_header [] (sample_buffer\<lparr>tbcount := 40000\<rparr>)) 0 6000 sample_buffer Network_init = (40000, n', bb') \<and>
     TimeBuffer_read MAX_OUTPUT_NODES bb' = None"
proof -
  let ?tb = "sample_buffer\<lparr>tbcount := 40000\<rparr>"
  have "in_clock (tbtime ?tb)" "MAX_OUTPUT_NODES < tb_sizeData ?tb" "tb_sizeData ?tb = 40000" "tbtime ?tb = 5000"
    by (simp_all add: sample_buffer_def in_clock_def time_min_def time_max_def tb_sizeData_def MAX_OUTPUT_NODES_def)
  then show ?thesis
    using oversized_count_accepted [OF sample_buffer_wf, of ?tb 14 6000 0 Network_init "[]"]
    by (auto simp: toLocal_def PACKET_LIFE_TIME_MS_def Network_init_def time_min_def)
qed

end
