(* ===== verification/Network_Threads.thy ===== *)
theory Network_Threads
  imports Spin_Lock Network
begin

text \<open>
  \<open>network.cpp\<close> with its threads.  The servers' threads call \<open>subscribe\<close> and \<open>unsubscribe\<close>, the main
  thread calls \<open>getSubscriptions\<close>; each takes several steps, one per access to shared data, between the
  \<open>lock\<close> and the \<open>unlock\<close> of its \<open>lock_guard\<close>.  \<open>readVerify\<close> takes no lock.  That these
  operations can be taken as single steps (\<open>net_step\<close>) is the lemma of the locale \<open>guarded\<close>.
  The ids of the servers do not change here.
\<close>

section \<open>The sections, access by access\<close>

datatype net_pc =
    SubDirty ClusterID ClusterID
  | SubFind ClusterID ClusterID
  | SubPush ClusterID ClusterID
  | SubServers ClusterID
  | SubJoin ClusterID
  | UnsDirty ClusterID ClusterID
  | UnsErase ClusterID ClusterID
  | UnsOthers ClusterID "ClusterID list"
  | UnsServers ClusterID
  | UnsLeave ClusterID
  | GetDirty
  | GetLocals "ClusterID list"
  | Unlocking

fun net_entry :: "net_pc \<Rightarrow> bool" where
  "net_entry (SubDirty l r) = True"
| "net_entry (UnsDirty l r) = True"
| "net_entry GetDirty = True"
| "net_entry c = False"

abbreviation touched :: "ClusterID \<Rightarrow> network \<Rightarrow> network" where
  "touched l n \<equiv> n\<lparr>subscriptions := touch [] (subscriptions n) l\<rparr>"

abbreviation on_net :: "(network \<Rightarrow> network) \<Rightarrow> net_sys \<Rightarrow> net_sys" where
  "on_net f s \<equiv> s\<lparr>net := f (net s)\<rparr>"

text \<open>One entry of \<open>subscriptions\<close> in the loops of \<open>getSubscriptions\<close>.\<close>

definition add_local :: "ClusterID list \<Rightarrow> ClusterID \<Rightarrow> ClusterID list \<Rightarrow> (ClusterID \<rightharpoonup> nat list) \<Rightarrow> (ClusterID \<rightharpoonup> nat list)" where
  "add_local servers l remotes =
    fold (\<lambda>remote. fold (\<lambda>(i, sid). if l = sid then add_subscriber remote i else id) (enumerate 0 servers)) remotes"

inductive net_act :: "ClusterID list \<Rightarrow> net_pc \<times> net_sys \<Rightarrow> net_pc \<times> net_sys \<Rightarrow> bool" for servers where
  sub_dirty: "net_act servers (SubDirty l r, s) (SubFind l r, on_net (\<lambda>n. n\<lparr>dirty := True\<rparr>) s)"
| sub_found: "r \<in> set (subs_of (net s) l) \<Longrightarrow>
     net_act servers (SubFind l r, s) (Unlocking, on_net (touched l) s)"
| sub_new: "r \<notin> set (subs_of (net s) l) \<Longrightarrow>
     net_act servers (SubFind l r, s) (SubPush l r, on_net (touched l) s)"
| sub_push: "net_act servers (SubPush l r, s)
     (SubServers r, on_net (\<lambda>n. n\<lparr>subscriptions := (subscriptions n)(l \<mapsto> subs_of n l @ [r])\<rparr>) s)"
| sub_local: "r \<in> set servers \<Longrightarrow> net_act servers (SubServers r, s) (Unlocking, s)"
| sub_remote: "r \<notin> set servers \<Longrightarrow> net_act servers (SubServers r, s) (SubJoin r, s)"
| sub_join: "net_act servers (SubJoin r, s)
     (Unlocking, ask_kernel ok (JoinMulticast (idToMulticast r)) s)"
| uns_dirty: "net_act servers (UnsDirty l r, s) (UnsErase l r, on_net (\<lambda>n. n\<lparr>dirty := True\<rparr>) s)"
| uns_erase: "r \<in> set (subs_of (net s) l) \<Longrightarrow>
     iterates ks (touch [] (subscriptions (net s)) l) \<Longrightarrow>
     net_act servers (UnsErase l r, s) (UnsOthers r ks,
       on_net (\<lambda>n. n\<lparr>subscriptions := (touch [] (subscriptions n) l)(l \<mapsto> remove1 r (subs_of n l))\<rparr>) s)"
| uns_other: "r \<in> set (subs_of (net s) k) \<Longrightarrow> net_act servers (UnsOthers r (k # ks), s) (Unlocking, s)"
| uns_next: "r \<notin> set (subs_of (net s) k) \<Longrightarrow> net_act servers (UnsOthers r (k # ks), s) (UnsOthers r ks, s)"
| uns_none: "net_act servers (UnsOthers r [], s) (UnsServers r, s)"
| uns_local: "r \<in> set servers \<Longrightarrow> net_act servers (UnsServers r, s) (Unlocking, s)"
| uns_remote: "r \<notin> set servers \<Longrightarrow> net_act servers (UnsServers r, s) (UnsLeave r, s)"
| uns_leave: "net_act servers (UnsLeave r, s)
     (Unlocking, ask_kernel ok (LeaveMulticast (idToMulticast r)) s)"
| get_clean: "\<not> dirty (net s) \<Longrightarrow> net_act servers (GetDirty, s) (Unlocking, s)"
| get_dirty: "dirty (net s) \<Longrightarrow> iterates ks (subscriptions (net s)) \<Longrightarrow>
     net_act servers (GetDirty, s) (GetLocals ks, (on_net (\<lambda>n. n\<lparr>dirty := False\<rparr>) s)\<lparr>routes := Map.empty\<rparr>)"
| get_local: "net_act servers (GetLocals (k # ks), s)
     (GetLocals ks, s\<lparr>routes := add_local servers k (subs_of (net s) k) (routes s)\<rparr>)"
| get_done: "net_act servers (GetLocals [], s) (Unlocking, s)"

text \<open>The step without the lock.\<close>

definition packet_step :: "net_sys \<Rightarrow> net_sys \<Rightarrow> bool" where
  "packet_step s t \<longleftrightarrow> (\<exists>pad ret bytes d now bb k n bb'.
     readVerify pad ret bytes d now bb (net s) = (k, n, bb') \<and> t = s\<lparr>net := n\<rparr>)"

section \<open>A whole section is one operation\<close>

text \<open>What the section entered in state \<open>s0\<close> has done when its thread is at a point.\<close>

fun so_far :: "ClusterID list \<Rightarrow> net_sys \<Rightarrow> net_pc \<Rightarrow> net_sys \<Rightarrow> bool" where
  "so_far servers s0 (SubDirty l r) s = (s = s0)"
| "so_far servers s0 (SubFind l r) s = (s = on_net (\<lambda>n. n\<lparr>dirty := True\<rparr>) s0)"
| "so_far servers s0 (SubPush l r) s = (r \<notin> set (subs_of (net s0) l) \<and> s = on_net (\<lambda>n. touched l (n\<lparr>dirty := True\<rparr>)) s0)"
| "so_far servers s0 (SubServers r) s =
    (\<exists>l. r \<notin> set (subs_of (net s0) l) \<and> s = on_net (\<lambda>n. fst (subscribe servers l r n)) s0)"
| "so_far servers s0 (SubJoin r) s = (r \<notin> set servers \<and>
    (\<exists>l. r \<notin> set (subs_of (net s0) l) \<and> s = on_net (\<lambda>n. fst (subscribe servers l r n)) s0))"
| "so_far servers s0 (UnsDirty l r) s = (s = s0)"
| "so_far servers s0 (UnsErase l r) s = (s = on_net (\<lambda>n. n\<lparr>dirty := True\<rparr>) s0)"
| "so_far servers s0 (UnsOthers r ks) s = (\<exists>l js. r \<in> set (subs_of (net s0) l) \<and>
    iterates (js @ ks) (touch [] (subscriptions (net s0)) l) \<and> s = on_net (drop_subscription l r) s0 \<and>
    (\<forall>j \<in> set js. r \<notin> set (subs_of (net s) j)))"
| "so_far servers s0 (UnsServers r) s = (\<exists>l js. r \<in> set (subs_of (net s0) l) \<and>
    iterates js (touch [] (subscriptions (net s0)) l) \<and> s = on_net (drop_subscription l r) s0 \<and>
    (\<forall>j \<in> set js. r \<notin> set (subs_of (net s) j)))"
| "so_far servers s0 (UnsLeave r) s = (r \<notin> set servers \<and> (\<exists>l js. r \<in> set (subs_of (net s0) l) \<and>
    iterates js (touch [] (subscriptions (net s0)) l) \<and> s = on_net (drop_subscription l r) s0 \<and>
    (\<forall>j \<in> set js. r \<notin> set (subs_of (net s) j))))"
| "so_far servers s0 GetDirty s = (s = s0)"
| "so_far servers s0 (GetLocals ks) s = (\<exists>js. dirty (net s0) \<and> iterates (js @ ks) (subscriptions (net s0)) \<and>
    s = (on_net (\<lambda>n. n\<lparr>dirty := False\<rparr>) s0)\<lparr>routes := fold (\<lambda>l. add_local servers l (subs_of (net s0) l)) js Map.empty\<rparr>)"
| "so_far servers s0 Unlocking s = (net_step servers)\<^sup>=\<^sup>= s0 s"

lemma subscribe_known:
  "r \<in> set (subs_of n l) \<Longrightarrow> subscribe servers l r n = (touched l (n\<lparr>dirty := True\<rparr>), [])"
  by (simp add: subscribe_def Let_def)

lemma connect_quiet:
  "r \<in> set (subs_of (net s) l) \<or> r \<in> set servers \<Longrightarrow>
     net_step servers s (on_net (\<lambda>n. fst (subscribe servers l r n)) s)"
  using net_step.connect [of servers l r s "fst (subscribe servers l r (net s))" "[]"] subscribe_requests [of servers l r "net s"]
  by (cases "subscribe servers l r (net s)") auto

lemma connect_join:
  "r \<notin> set (subs_of (net s) l) \<Longrightarrow> r \<notin> set servers \<Longrightarrow>
     net_step servers s (ask_kernel ok (JoinMulticast (idToMulticast r)) (on_net (\<lambda>n. fst (subscribe servers l r n)) s))"
  using net_step.connect [of servers l r s "fst (subscribe servers l r (net s))" "[JoinMulticast (idToMulticast r)]" ok]
    subscribe_requests [of servers l r "net s"]
  by (cases "subscribe servers l r (net s)") auto

lemma drop_quiet:
  assumes "r \<in> set (subs_of (net s) l)" "iterates ks (touch [] (subscriptions (net s)) l)"
    and "(\<exists>k \<in> set ks. r \<in> set (subs_of (drop_subscription l r (net s)) k)) \<or> r \<in> set servers"
  shows "net_step servers s (on_net (drop_subscription l r) s)"
proof -
  have "unsubscribe ks servers l r (net s) = Inr (drop_subscription l r (net s), [])"
    using assms(1,3) by (simp add: unsubscribe_eq list_ex_iff del: drop_subscription_simps)
  then show ?thesis using net_step.drop [OF assms(2)] by fastforce
qed

lemma drop_leave:
  assumes "r \<in> set (subs_of (net s) l)" "iterates ks (touch [] (subscriptions (net s)) l)"
    and "\<forall>k \<in> set ks. r \<notin> set (subs_of (drop_subscription l r (net s)) k)" "r \<notin> set servers"
  shows "net_step servers s (ask_kernel ok (LeaveMulticast (idToMulticast r)) (on_net (drop_subscription l r) s))"
proof -
  have "unsubscribe ks servers l r (net s) = Inr (drop_subscription l r (net s), [LeaveMulticast (idToMulticast r)])"
    using assms(1,3,4) by (simp add: unsubscribe_eq list_ex_iff del: drop_subscription_simps)
  then show ?thesis using net_step.drop [OF assms(2)] by fastforce
qed

lemma refresh_dirty:
  assumes "dirty (net s)" "iterates ks (subscriptions (net s))"
  shows "net_step servers s ((on_net (\<lambda>n. n\<lparr>dirty := False\<rparr>) s)
    \<lparr>routes := fold (\<lambda>l. add_local servers l (subs_of (net s) l)) ks Map.empty\<rparr>)"
  using net_step.refresh [OF assms(2), of servers "(net s)\<lparr>dirty := False\<rparr>" "rebuild_subscribers ks servers (net s)"] assms(1)
  by (simp add: getSubscriptions_def rebuild_subscribers_def add_local_def)

lemma so_far_act:
  "net_act servers p q \<Longrightarrow> so_far servers s0 (fst p) (snd p) \<Longrightarrow> so_far servers s0 (fst q) (snd q)"
proof (induction rule: net_act.induct)
  case (sub_found r s l)
  then show ?case using connect_quiet [of r s0 l servers] by (simp add: subscribe_known)
next
  case (sub_push l r s)
  then show ?case by (auto simp: subscribe_def Let_def intro!: exI [of _ l])
next
  case (sub_local r s)
  then show ?case using connect_quiet by auto
next
  case (sub_join r s ok)
  then show ?case using connect_join by fastforce
next
  case (uns_erase r s l ks)
  then show ?case by (auto simp: drop_subscription_def intro!: exI [of _ l] exI [of _ "[]"])
next
  case (uns_other r s k ks)
  then show ?case using drop_quiet by fastforce
next
  case (uns_next r s k ks)
  then obtain l js where "r \<in> set (subs_of (net s0) l)" "iterates (js @ k # ks) (touch [] (subscriptions (net s0)) l)"
      "s = on_net (drop_subscription l r) s0" "\<forall>j \<in> set js. r \<notin> set (subs_of (net s) j)" by auto
  moreover from this uns_next(1) have "iterates ((js @ [k]) @ ks) (touch [] (subscriptions (net s0)) l)"
      "\<forall>j \<in> set (js @ [k]). r \<notin> set (subs_of (net s) j)" by auto
  ultimately show ?case unfolding fst_conv snd_conv so_far.simps by blast
next
  case (uns_none r s)
  then show ?case by fastforce
next
  case (uns_local r s)
  then show ?case using drop_quiet by fastforce
next
  case (uns_leave r s ok)
  then show ?case using drop_leave by fastforce
next
  case (get_dirty s ks)
  then show ?case by (auto intro!: exI [of _ "[]"])
next
  case (get_local k ks s)
  then obtain js where "dirty (net s0)" "iterates (js @ k # ks) (subscriptions (net s0))"
    "s = (on_net (\<lambda>n. n\<lparr>dirty := False\<rparr>) s0)\<lparr>routes := fold (\<lambda>l. add_local servers l (subs_of (net s0) l)) js Map.empty\<rparr>" by auto
  then show ?case by (auto intro!: exI [of _ "js @ [k]"])
next
  case (get_done s)
  then show ?case using refresh_dirty by auto
qed auto

lemma so_far_run:
  assumes "net_entry c" "(net_act servers)\<^sup>*\<^sup>* (c, m) (c', m')"
  shows "so_far servers m c' m'"
proof -
  have "so_far servers m c m" using assms(1) by (cases c) simp_all
  with assms(2) show ?thesis
    by (induction rule: rtranclp_induct2) (use so_far_act in fastforce)+
qed

section \<open>Steps without the lock\<close>

definition with_sequences :: "(ClusterID \<rightharpoonup> Time) \<Rightarrow> net_sys \<Rightarrow> net_sys" where
  "with_sequences q s = s\<lparr>net := (net s)\<lparr>sequences := q\<rparr>\<rparr>"

lemma with_sequences_simps [simp]:
  "subscriptions (net (with_sequences q s)) = subscriptions (net s)" "dirty (net (with_sequences q s)) = dirty (net s)"
  "sequences (net (with_sequences q s)) = q" "routes (with_sequences q s) = routes s" "groups (with_sequences q s) = groups s"
  "refused (with_sequences q s) = refused s"
  by (simp_all add: with_sequences_def)

text \<open>\<open>readVerify\<close> uses the sequences alone.\<close>

lemma readVerify_sequences:
  assumes "readVerify pad ret bytes d now bb n = (k, n', bb')"
  shows "\<exists>q. n' = n\<lparr>sequences := q\<rparr> \<and>
    (\<forall>n2. sequences n2 = sequences n \<longrightarrow> readVerify pad ret bytes d now bb n2 = (k, n2\<lparr>sequences := q\<rparr>, bb'))"
proof (intro exI [of _ "sequences n'"] conjI allI impI)
  have same: "n2\<lparr>sequences := sequences n\<rparr> = n2" if "sequences n2 = sequences n" for n2 :: network
    using that by (cases n2) simp
  show "n' = n\<lparr>sequences := sequences n'\<rparr>"
    using assms same [OF refl] by (auto simp: readVerify_def verify_def Let_def split: if_splits)
  fix n2 :: network assume n2: "sequences n2 = sequences n"
  show "readVerify pad ret bytes d now bb n2 = (k, n2\<lparr>sequences := sequences n'\<rparr>, bb')"
    using assms same [OF n2] n2 by (auto simp: readVerify_def verify_def Let_def split: if_splits)
qed

lemma packet_step_sequences:
  assumes "packet_step s t"
  obtains q where "t = with_sequences q s"
    "\<And>s2. sequences (net s2) = sequences (net s) \<Longrightarrow> packet_step s2 (with_sequences q s2)"
proof -
  obtain pad ret bytes d now bb k n bb' where r: "readVerify pad ret bytes d now bb (net s) = (k, n, bb')" "t = s\<lparr>net := n\<rparr>"
    using assms by (auto simp: packet_step_def)
  obtain q where q: "n = (net s)\<lparr>sequences := q\<rparr>"
      "\<forall>n2. sequences n2 = sequences (net s) \<longrightarrow> readVerify pad ret bytes d now bb n2 = (k, n2\<lparr>sequences := q\<rparr>, bb')"
    using readVerify_sequences [OF r(1)] by blast
  show ?thesis
  proof
    show "t = with_sequences q s" using r(2) q(1) by (simp add: with_sequences_def)
    show "packet_step s2 (with_sequences q s2)" if "sequences (net s2) = sequences (net s)" for s2
      using q(2) that unfolding packet_step_def with_sequences_def by blast
  qed
qed

text \<open>The sections do not look at them.\<close>

lemma with_sequences_commute:
  "with_sequences q (s\<lparr>net := (net s)\<lparr>dirty := b\<rparr>\<rparr>) = (with_sequences q s)\<lparr>net := (net (with_sequences q s))\<lparr>dirty := b\<rparr>\<rparr>"
  "with_sequences q (s\<lparr>net := (net s)\<lparr>subscriptions := m\<rparr>\<rparr>) = (with_sequences q s)\<lparr>net := (net (with_sequences q s))\<lparr>subscriptions := m\<rparr>\<rparr>"
  "with_sequences q (ask_kernel ok req s) = ask_kernel ok req (with_sequences q s)"
  "with_sequences q (s\<lparr>routes := c\<rparr>) = (with_sequences q s)\<lparr>routes := c\<rparr>"
  by (cases s; cases "net s"; simp add: with_sequences_def ask_kernel_def)+

lemma act_sequences:
  "net_act servers p p' \<Longrightarrow>
     net_act servers (fst p, with_sequences q (snd p)) (fst p', with_sequences q (snd p')) \<and>
     sequences (net (snd p')) = sequences (net (snd p))"
proof (induction rule: net_act.induct)
  case (sub_dirty l r s)
  show ?case using net_act.sub_dirty [of servers l r "with_sequences q s"] by (simp add: with_sequences_commute)
next
  case (sub_found r s l)
  then show ?case using net_act.sub_found [of r "with_sequences q s" l servers] by (simp add: with_sequences_commute)
next
  case (sub_new r s l)
  then show ?case using net_act.sub_new [of r "with_sequences q s" l servers] by (simp add: with_sequences_commute)
next
  case (sub_push l r s)
  show ?case using net_act.sub_push [of servers l r "with_sequences q s"] by (simp add: with_sequences_commute)
next
  case (sub_join r s ok)
  show ?case using net_act.sub_join [of servers r "with_sequences q s" ok] by (simp add: with_sequences_commute)
next
  case (uns_dirty l r s)
  show ?case using net_act.uns_dirty [of servers l r "with_sequences q s"] by (simp add: with_sequences_commute)
next
  case (uns_erase r s l ks)
  then show ?case using net_act.uns_erase [of r "with_sequences q s" l ks servers] by (simp add: with_sequences_commute)
next
  case (uns_leave r s ok)
  show ?case using net_act.uns_leave [of servers r "with_sequences q s" ok] by (simp add: with_sequences_commute)
next
  case (get_dirty s ks)
  then show ?case using net_act.get_dirty [of "with_sequences q s" ks servers] by (simp add: with_sequences_commute)
next
  case (get_local k ks s)
  show ?case using net_act.get_local [of servers k ks "with_sequences q s"] by (simp add: with_sequences_commute)
qed (auto intro: net_act.intros)

lemma packet_before_act:
  assumes "net_act servers (c, m) (c', m1)" "packet_step m1 m2"
  shows "\<exists>m3. packet_step m m3 \<and> net_act servers (c, m3) (c', m2)"
proof -
  obtain q where q: "m2 = with_sequences q m1"
      "\<And>s2. sequences (net s2) = sequences (net m1) \<Longrightarrow> packet_step s2 (with_sequences q s2)"
    using packet_step_sequences [OF assms(2)] by blast
  have a: "net_act servers (c, with_sequences q m) (c', with_sequences q m1)" "sequences (net m1) = sequences (net m)"
    using act_sequences [OF assms(1), of q] by simp_all
  then show ?thesis using q by metis
qed

interpretation netlock: guarded spin_acquire spin_release spin_wait "\<lambda>s i. lpc s i = Inside" spin_invar spin_init
  net_entry "net_act servers" "\<lambda>c. c = Unlocking" packet_step "(net_step servers)\<^sup>=\<^sup>=" net_init for servers
proof
  fix c c' m m' m1 m2
  show "(net_step servers)\<^sup>=\<^sup>= m m'" if "net_entry c" "(net_act servers)\<^sup>*\<^sup>* (c, m) (c', m')" "c' = Unlocking"
    using so_far_run [OF that(1,2)] that(3) by simp
  show "(net_step servers)\<^sup>=\<^sup>= m m'" if "packet_step m m'"
    using that net_step.packet by (fastforce simp: packet_step_def)
  show "\<exists>m3. packet_step m m3 \<and> net_act servers (c, m3) (c', m2)"
    if "net_act servers (c, m) (c', m1)" "packet_step m1 m2"
    by (rule packet_before_act [OF that])
qed

text \<open>The network with its threads: the lock, the points of the threads in their sections, the shared data.\<close>

abbreviation net_threads_step :: "ClusterID list \<Rightarrow> (spin_sys, net_pc, net_sys) lock_sys \<Rightarrow>
    (spin_sys, net_pc, net_sys) lock_sys \<Rightarrow> bool" where
  "net_threads_step servers \<equiv> lock_step spin_acquire spin_release spin_wait net_entry (net_act servers)
     (\<lambda>c. c = Unlocking) packet_step"

definition net_threads_init :: "(spin_sys, net_pc, net_sys) lock_sys" where
  "net_threads_init = \<lparr>lk = spin_init, ctl = (\<lambda>i. None), mem = net_init\<rparr>"

section \<open>Every section ends\<close>

abbreviation keys :: "net_sys \<Rightarrow> nat" where
  "keys s \<equiv> card (dom (subscriptions (net s)))"

text \<open>A bound for the number of steps to the end of a section.\<close>

fun steps_left :: "net_pc \<Rightarrow> net_sys \<Rightarrow> nat" where
  "steps_left (SubDirty l r) s = 5"
| "steps_left (SubFind l r) s = 4"
| "steps_left (SubPush l r) s = 3"
| "steps_left (SubServers r) s = 2"
| "steps_left (SubJoin r) s = 1"
| "steps_left (UnsDirty l r) s = keys s + 6"
| "steps_left (UnsErase l r) s = keys s + 5"
| "steps_left (UnsOthers r ks) s = length ks + 3"
| "steps_left (UnsServers r) s = 2"
| "steps_left (UnsLeave r) s = 1"
| "steps_left GetDirty s = keys s + 2"
| "steps_left (GetLocals ks) s = length ks + 1"
| "steps_left Unlocking s = 0"

abbreviation finite_keys :: "net_sys \<Rightarrow> bool" where
  "finite_keys s \<equiv> finite (dom (subscriptions (net s)))"

lemma iterates_length: "iterates ks m \<Longrightarrow> length ks = card (dom m)"
  by (metis distinct_card iterates_def)

lemma act_steps_left:
  "net_act servers p q \<Longrightarrow> finite_keys (snd p) \<Longrightarrow>
     steps_left (fst q) (snd q) < steps_left (fst p) (snd p) \<and> finite_keys (snd q)"
  by (induction rule: net_act.induct)
    (auto simp: iterates_length card_insert_if dest!: iterates_length)

text \<open>\<open>unsubscribe\<close> is about to erase an entry that is not there.\<close>

definition erases_end :: "net_pc \<Rightarrow> net_sys \<Rightarrow> bool" where
  "erases_end c s \<longleftrightarrow> (\<exists>l r. c = UnsErase l r \<and> r \<notin> set (subs_of (net s) l))"

lemma some_iteration: "finite (dom m) \<Longrightarrow> \<exists>ks. iterates ks m"
  using finite_distinct_list by (metis iterates_def)

lemma act_enabled:
  assumes "c \<noteq> Unlocking" "\<not> erases_end c s" "finite_keys s"
  shows "\<exists>q. net_act servers (c, s) q"
proof (cases c)
  case (UnsErase l r)
  obtain ks where "iterates ks (touch [] (subscriptions (net s)) l)"
    using some_iteration [of "touch [] (subscriptions (net s)) l"] assms(3) by auto
  then show ?thesis using assms(2) UnsErase net_act.uns_erase unfolding erases_end_def by blast
next
  case (UnsOthers r js)
  then show ?thesis
    using net_act.uns_none net_act.uns_other net_act.uns_next by (cases js) blast+
next
  case GetDirty
  obtain ks where "iterates ks (subscriptions (net s))" using some_iteration [OF assms(3)] by blast
  then show ?thesis using GetDirty net_act.get_dirty net_act.get_clean by blast
next
  case (GetLocals js)
  then show ?thesis using net_act.get_done net_act.get_local by (cases js) blast+
next
  case (SubFind l r)
  then show ?thesis using net_act.sub_found net_act.sub_new by blast
next
  case (SubServers r)
  then show ?thesis using net_act.sub_local net_act.sub_remote by blast
next
  case (UnsServers r)
  then show ?thesis using net_act.uns_local net_act.uns_remote by blast
next
  case (SubDirty l r)
  then show ?thesis using net_act.sub_dirty by blast
next
  case (SubPush l r)
  then show ?thesis using net_act.sub_push by blast
next
  case (SubJoin r)
  then show ?thesis using net_act.sub_join by blast
next
  case (UnsDirty l r)
  then show ?thesis using net_act.uns_dirty by blast
next
  case (UnsLeave r)
  then show ?thesis using net_act.uns_leave by blast
qed (use assms(1) in simp)

text \<open>So a thread inside can run on until it has only the unlock left, or would erase the end iterator.\<close>

lemma section_ends:
  "finite_keys s \<Longrightarrow> \<exists>c' t. (net_act servers)\<^sup>*\<^sup>* (c, s) (c', t) \<and> (c' = Unlocking \<or> erases_end c' t)"
proof (induction "steps_left c s" arbitrary: c s rule: less_induct)
  case less
  show ?case
  proof (cases "c = Unlocking \<or> erases_end c s")
    case False
    then obtain c1 s1 where a: "net_act servers (c, s) (c1, s1)" using act_enabled less.prems by (metis surj_pair)
    then have "steps_left c1 s1 < steps_left c s" "finite_keys s1" using act_steps_left [OF a] less.prems by simp_all
    then obtain c' t where t: "(net_act servers)\<^sup>*\<^sup>* (c1, s1) (c', t)" "c' = Unlocking \<or> erases_end c' t"
      using less.hyps by blast
    have "(net_act servers)\<^sup>*\<^sup>* (c, s) (c', t)" using a t(1) by (rule converse_rtranclp_into_rtranclp)
    then show ?thesis using t(2) by blast
  qed blast
qed

lemma threads_finite_keys: "(net_threads_step servers)\<^sup>*\<^sup>* net_threads_init s \<Longrightarrow> finite_keys (mem s)"
proof (induction rule: rtranclp_induct)
  case base
  then show ?case by (simp add: net_threads_init_def net_init_def Network_init_def)
next
  case (step s t)
  from step(2,3) show ?case
  proof (cases rule: lock_step.cases)
    case (acting i c c' m)
    then show ?thesis using act_steps_left [OF acting(3)] step.IH by simp
  next
    case (unguarded m)
    obtain q where "m = with_sequences q (mem s)" by (rule packet_step_sequences [OF unguarded(2)])
    then show ?thesis using unguarded(1) step.IH by simp
  qed simp_all
qed

lemma section_steps:
  "(net_act servers)\<^sup>*\<^sup>* (c, mem s) (c', m) \<Longrightarrow> ctl s i = Some c \<Longrightarrow>
     (net_threads_step servers)\<^sup>*\<^sup>* s (s\<lparr>ctl := (ctl s)(i := Some c'), mem := m\<rparr>)"
proof (induction rule: rtranclp_induct2)
  case refl
  then have "s\<lparr>ctl := (ctl s)(i := Some c), mem := mem s\<rparr> = s" by (cases s) (simp add: fun_upd_idem)
  then show ?case by (simp only: rtranclp.rtrancl_refl)
next
  case (step c1 m1 c2 m2)
  have "net_threads_step servers (s\<lparr>ctl := (ctl s)(i := Some c1), mem := m1\<rparr>) (s\<lparr>ctl := (ctl s)(i := Some c2), mem := m2\<rparr>)"
    using lock_step.acting [of "s\<lparr>ctl := (ctl s)(i := Some c1), mem := m1\<rparr>" i c1 "net_act servers" c2 m2] step(2) by simp
  with step.IH [OF step.prems] show ?case by (rule rtranclp.rtrancl_into_rtrancl)
qed

section \<open>Properties\<close>

text \<open>C14. The spin lock makes the operations of the network atomic.  With any number of threads, each access to
  shared data a step of its own and packets read in between without the lock, two threads are
  never inside the methods at the same time, and whenever the lock is free the subscriptions, the
  joined groups and the routing table are such as whole calls, one after the other, produce:
  a table that is not dirty routes to exactly the subscribers.
\<close>

theorem network_calls_are_atomic:
  assumes "(net_threads_step servers)\<^sup>*\<^sup>* net_threads_init s"
  shows "(ctl s i \<noteq> None \<longrightarrow> ctl s j \<noteq> None \<longrightarrow> i = j) \<and>
    (\<not> lockf (lk s) \<longrightarrow> net_reachable servers (mem s) \<and>
      (\<not> dirty (net (mem s)) \<longrightarrow> routes_ok servers (net (mem s)) (routes (mem s))))"
proof -
  have reach: "(net_threads_step servers)\<^sup>*\<^sup>* (netlock.start) s" using assms by (simp add: net_threads_init_def netlock.start_def)
  have inv: "spin_invar (lk s)" using netlock.reach_invar [OF reach] by (simp add: netlock.lock_invar_def)
  have "net_reachable servers (mem s)" if "\<not> lockf (lk s)"
    using netlock.idle_atomic [OF reach] inv that by (simp add: spin_invar_def rtranclp_reflclp)
  then show ?thesis
    using netlock.section_exclusive [OF reach, of i j] net_reachable_invar [of servers "mem s"]
    by (auto simp: net_invar_def)
qed

text \<open>A thread alone can run every section to its end.\<close>

abbreviation idle :: "net_sys \<Rightarrow> (spin_sys, net_pc, net_sys) lock_sys" where
  "idle m \<equiv> \<lparr>lk = spin_init, ctl = (\<lambda>i. None), mem = m\<rparr>"

lemma section_entered:
  assumes "net_entry c"
  shows "(net_threads_step servers)\<^sup>*\<^sup>* (idle m)
    \<lparr>lk = \<lparr>lockf = True, lpc = (lpc spin_init)(0 := Inside)\<rparr>, ctl = (\<lambda>i. None)(0 := Some c), mem = m\<rparr>"
proof -
  let ?call = "spin_init\<lparr>lpc := (lpc spin_init)(0 := Spinning)\<rparr>"
  let ?held = "\<lparr>lockf = True, lpc = (lpc spin_init)(0 := Inside)\<rparr>"
  have "net_threads_step servers (idle m) \<lparr>lk = ?call, ctl = (\<lambda>i. None), mem = m\<rparr>"
    using lock_step.waiting [of "idle m" 0 spin_wait ?call] by (simp add: spin_wait_def spin_init_def)
  moreover have "net_threads_step servers \<lparr>lk = ?call, ctl = (\<lambda>i. None), mem = m\<rparr>
      \<lparr>lk = ?held, ctl = (\<lambda>i. None)(0 := Some c), mem = m\<rparr>"
    using lock_step.entering [of "\<lparr>lk = ?call, ctl = (\<lambda>i. None), mem = m\<rparr>" 0 spin_acquire ?held net_entry c] assms
    by (simp add: spin_acquire_def spin_init_def spin_defs)
  ultimately show ?thesis by (meson converse_rtranclp_into_rtranclp r_into_rtranclp)
qed

lemma section_runs:
  assumes "net_entry c" "(net_act servers)\<^sup>*\<^sup>* (c, m) (Unlocking, m')"
  shows "(net_threads_step servers)\<^sup>*\<^sup>* (idle m) (idle m')"
proof -
  let ?held = "\<lparr>lockf = True, lpc = (lpc spin_init)(0 := Inside)\<rparr>"
  let ?in = "\<lambda>c m. \<lparr>lk = ?held, ctl = (\<lambda>i. None)(0 := Some c), mem = m\<rparr>"
  note section_entered [OF assms(1), of servers m]
  also have "(net_threads_step servers)\<^sup>*\<^sup>* (?in c m) (?in Unlocking m')"
    using section_steps [of servers c "?in c m" Unlocking m' 0] assms(2) by simp
  also have "net_threads_step servers (?in Unlocking m') (idle m')"
    using lock_step.leaving [of "?in Unlocking m'" 0 Unlocking "\<lambda>c. c = Unlocking" spin_release spin_init]
    by (simp add: spin_release_def spin_init_def spin_defs fun_upd_idem)
  finally show ?thesis .
qed

text \<open>Server 1 subscribes to 5, then the main thread builds its table.\<close>

theorem network_calls_are_atomic_witness:
  "(net_threads_step [1, 2])\<^sup>*\<^sup>* net_threads_init (idle example_net) \<and> routes_ok [1, 2] (net example_net) (routes example_net)"
proof -
  let ?n = "\<lparr>dirty = True, subscriptions = [1 \<mapsto> [5]], sequences = Map.empty\<rparr>"
  let ?s = "net_init\<lparr>net := ?n, groups := {idToMulticast 5}\<rparr>"
  have "net_act [1, 2] (SubDirty 1 5, net_init) (SubFind 1 5, on_net (\<lambda>n. n\<lparr>dirty := True\<rparr>) net_init)"
    by (rule net_act.sub_dirty)
  moreover have "net_act [1, 2] (SubFind 1 5, on_net (\<lambda>n. n\<lparr>dirty := True\<rparr>) net_init)
      (SubPush 1 5, on_net (touched 1) (on_net (\<lambda>n. n\<lparr>dirty := True\<rparr>) net_init))"
    by (rule net_act.sub_new) (simp add: net_init_def Network_init_def)
  moreover have "net_act [1, 2] (SubPush 1 5, on_net (touched 1) (on_net (\<lambda>n. n\<lparr>dirty := True\<rparr>) net_init))
      (SubServers 5, net_init\<lparr>net := ?n\<rparr>)"
    using net_act.sub_push [of "[1, 2]" 1 5 "on_net (touched 1) (on_net (\<lambda>n. n\<lparr>dirty := True\<rparr>) net_init)"]
    by (simp add: net_init_def Network_init_def touch_def)
  moreover have "net_act [1, 2] (SubServers 5, net_init\<lparr>net := ?n\<rparr>) (SubJoin 5, net_init\<lparr>net := ?n\<rparr>)"
    by (rule net_act.sub_remote) simp
  moreover have "net_act [1, 2] (SubJoin 5, net_init\<lparr>net := ?n\<rparr>) (Unlocking, ?s)"
    using net_act.sub_join [of "[1, 2]" 5 "net_init\<lparr>net := ?n\<rparr>" True] by (simp add: net_init_def ask_kernel_def)
  ultimately have "(net_act [1, 2])\<^sup>*\<^sup>* (SubDirty 1 5, net_init) (Unlocking, ?s)"
    by (meson converse_rtranclp_into_rtranclp rtranclp.rtrancl_refl)
  then have 1: "(net_threads_step [1, 2])\<^sup>*\<^sup>* (idle net_init) (idle ?s)" by (intro section_runs) simp_all
  have "net_act [1, 2] (GetDirty, ?s) (GetLocals [1], (on_net (\<lambda>n. n\<lparr>dirty := False\<rparr>) ?s)\<lparr>routes := Map.empty\<rparr>)"
    by (rule net_act.get_dirty) (simp_all add: iterates_def)
  moreover have "net_act [1, 2] (GetLocals [1], (on_net (\<lambda>n. n\<lparr>dirty := False\<rparr>) ?s)\<lparr>routes := Map.empty\<rparr>) (GetLocals [], example_net)"
    using net_act.get_local [of "[1, 2]" 1 "[]" "(on_net (\<lambda>n. n\<lparr>dirty := False\<rparr>) ?s)\<lparr>routes := Map.empty\<rparr>"]
    by (simp add: example_net_def add_local_def add_subscriber_def net_init_def)
  moreover have "net_act [1, 2] (GetLocals [], example_net) (Unlocking, example_net)" by (rule net_act.get_done)
  ultimately have "(net_act [1, 2])\<^sup>*\<^sup>* (GetDirty, ?s) (Unlocking, example_net)"
    by (meson converse_rtranclp_into_rtranclp rtranclp.rtrancl_refl)
  then have "(net_threads_step [1, 2])\<^sup>*\<^sup>* (idle ?s) (idle example_net)" by (intro section_runs) simp_all
  with 1 have r: "(net_threads_step [1, 2])\<^sup>*\<^sup>* net_threads_init (idle example_net)" by (simp add: net_threads_init_def)
  then show ?thesis using network_calls_are_atomic [OF r, of 0 0] by (simp add: spin_init_def example_net_def)
qed

text \<open>C33. The lock is never kept.  From every state the threads can reach they can go on to one in which the lock
  is free -- every section ends -- or in which the thread inside is about to drop a connection that
  does not exist, where the behaviour of the program is not defined.
\<close>

theorem network_lock_is_released:
  assumes "(net_threads_step servers)\<^sup>*\<^sup>* net_threads_init s"
  shows "\<exists>t. (net_threads_step servers)\<^sup>*\<^sup>* s t \<and>
    (\<not> lockf (lk t) \<or> (\<exists>i l r. ctl t i = Some (UnsErase l r) \<and> r \<notin> set (subs_of (net (mem t)) l)))"
proof (cases "lockf (lk s)")
  case True
  have reach: "(net_threads_step servers)\<^sup>*\<^sup>* netlock.start s" using assms by (simp add: net_threads_init_def netlock.start_def)
  then have inv: "spin_invar (lk s)" "ctl s i \<noteq> None \<longleftrightarrow> lpc (lk s) i = Inside" for i
    using netlock.reach_invar by (simp_all add: netlock.lock_invar_def)
  then obtain i where i: "lpc (lk s) i = Inside" using True by (auto simp: spin_invar_def)
  then obtain c where c: "ctl s i = Some c" using inv(2) by blast
  obtain c' m where run: "(net_act servers)\<^sup>*\<^sup>* (c, mem s) (c', m)" "c' = Unlocking \<or> erases_end c' m"
    using section_ends [OF threads_finite_keys [OF assms]] by blast
  let ?t = "s\<lparr>ctl := (ctl s)(i := Some c'), mem := m\<rparr>"
  note steps = section_steps [OF run(1) c]
  show ?thesis
  proof (cases "c' = Unlocking")
    case True
    let ?l = "(lk s)\<lparr>lockf := SpinLock_unlock (lockf (lk s)), lpc := (lpc (lk s))(i := Outside)\<rparr>"
    have "net_threads_step servers ?t (?t\<lparr>lk := ?l, ctl := (ctl ?t)(i := None)\<rparr>)"
      using True i by (intro lock_step.leaving) (simp_all add: spin_release_def)
    then have "(net_threads_step servers)\<^sup>*\<^sup>* s (?t\<lparr>lk := ?l, ctl := (ctl ?t)(i := None)\<rparr>)" using steps by simp
    then show ?thesis by (intro exI [of _ "?t\<lparr>lk := ?l, ctl := (ctl ?t)(i := None)\<rparr>"]) (simp add: SpinLock_unlock_def)
  next
    case False
    then show ?thesis using run(2) steps by (intro exI [of _ ?t]) (auto simp: erases_end_def)
  qed
qed blast

text \<open>From the state in which server 1 has just got the lock to subscribe to 5.\<close>

theorem network_lock_is_released_witness:
  "\<exists>s t. lockf (lk s) \<and> (net_threads_step [1, 2])\<^sup>*\<^sup>* net_threads_init s \<and> (net_threads_step [1, 2])\<^sup>*\<^sup>* s t \<and>
     (\<not> lockf (lk t) \<or> (\<exists>i l r. ctl t i = Some (UnsErase l r) \<and> r \<notin> set (subs_of (net (mem t)) l)))"
proof -
  let ?s = "\<lparr>lk = \<lparr>lockf = True, lpc = (lpc spin_init)(0 := Inside)\<rparr>, ctl = (\<lambda>i. None)(0 := Some (SubDirty 1 5)), mem = net_init\<rparr>"
  have r: "(net_threads_step [1, 2])\<^sup>*\<^sup>* net_threads_init ?s"
    using section_entered [of "SubDirty 1 5" "[1, 2]" net_init] by (simp only: net_threads_init_def) simp
  obtain t where "(net_threads_step [1, 2])\<^sup>*\<^sup>* ?s t"
      "\<not> lockf (lk t) \<or> (\<exists>i l r. ctl t i = Some (UnsErase l r) \<and> r \<notin> set (subs_of (net (mem t)) l))"
    using network_lock_is_released [OF r] by blast
  with r show ?thesis by (intro exI [of _ ?s] exI [of _ t]) simp
qed

end
