(* ===== verification/Block_Queue.thy ===== *)
theory Block_Queue
  imports Fifo
begin

text \<open>
  \<open>BlockingQueue\<close> of \<open>lib/blockq.h\<close>: an unbounded queue guarded by a mutex, with a condition
  variable for consumers that find it empty.  First the effect of the operations on the
  stored elements; then any number of threads that call \<open>push\<close>, \<open>pop\<close> and \<open>popNoBlock\<close>,
  with the mutex, the wait set of the condition variable, \<open>notify_one\<close> and spurious wake-ups
  as steps.
\<close>

section \<open>The operations run by one thread\<close>

definition BlockingQueue_push :: "'a \<Rightarrow> 'a list \<Rightarrow> 'a list" where
  "BlockingQueue_push val q = q @ [val]"

definition BlockingQueue_popNoBlock :: "'a list \<Rightarrow> 'a option \<times> 'a list" where
  "BlockingQueue_popNoBlock q = (case q of [] \<Rightarrow> (None, q) | x # xs \<Rightarrow> (Some x, xs))"

text \<open>\<open>pop\<close> returns only once the queue is not empty: \<open>None\<close> is "still waiting".\<close>

definition BlockingQueue_pop :: "'a list \<Rightarrow> ('a \<times> 'a list) option" where
  "BlockingQueue_pop q = (case q of [] \<Rightarrow> None | x # xs \<Rightarrow> Some (x, xs))"

interpretation bq: unbounded_fifo "\<lambda>x q. (True, BlockingQueue_push x q)" BlockingQueue_popNoBlock
  "\<lambda>q. q" "\<lambda>_. True" "\<lambda>_. True"
  by unfold_locales (auto simp: BlockingQueue_push_def BlockingQueue_popNoBlock_def split: list.splits)

lemma pop_of_popNoBlock:
  "BlockingQueue_popNoBlock q = (case BlockingQueue_pop q of None \<Rightarrow> (None, q) | Some (x, q') \<Rightarrow> (Some x, q'))"
  by (simp add: BlockingQueue_popNoBlock_def BlockingQueue_pop_def split: list.splits)

section \<open>Threads\<close>

datatype 'a bq_pc =
    Idle
  | PushLock 'a | PushBody 'a | PushNotify | PushUnlock
  | PopLock | PopTest | Waiting | Woken | PopUnlock
  | PollLock | PollTest | PollUnlock

record 'a bq_sys =
  elems :: "'a list"
  owner :: "nat option"
  bpc :: "nat \<Rightarrow> 'a bq_pc"
  pushed :: "'a list"
  popped :: "'a list"

definition bq_init :: "'a bq_sys" where
  "bq_init = \<lparr>elems = [], owner = None, bpc = (\<lambda>_. Idle), pushed = [], popped = []\<rparr>"

text \<open>What a thread does inside a call it has begun; then all steps, with the calls and the spurious wake-ups.\<close>

inductive bq_work :: "'a bq_sys \<Rightarrow> 'a bq_sys \<Rightarrow> bool" where
  push_lock: "bpc s i = PushLock v \<Longrightarrow> owner s = None \<Longrightarrow>
     bq_work s (s\<lparr>owner := Some i, bpc := (bpc s)(i := PushBody v)\<rparr>)"
| push_body: "bpc s i = PushBody v \<Longrightarrow>
     bq_work s (s\<lparr>elems := BlockingQueue_push v (elems s), pushed := pushed s @ [v],
       bpc := (bpc s)(i := PushNotify)\<rparr>)"
| notify_waiter: "bpc s i = PushNotify \<Longrightarrow> bpc s j = Waiting \<Longrightarrow>
     bq_work s (s\<lparr>bpc := (bpc s)(i := PushUnlock, j := Woken)\<rparr>)"
| notify_nobody: "bpc s i = PushNotify \<Longrightarrow> \<forall>j. bpc s j \<noteq> Waiting \<Longrightarrow>
     bq_work s (s\<lparr>bpc := (bpc s)(i := PushUnlock)\<rparr>)"
| push_unlock: "bpc s i = PushUnlock \<Longrightarrow>
     bq_work s (s\<lparr>owner := None, bpc := (bpc s)(i := Idle)\<rparr>)"
| pop_lock: "bpc s i = PopLock \<Longrightarrow> owner s = None \<Longrightarrow>
     bq_work s (s\<lparr>owner := Some i, bpc := (bpc s)(i := PopTest)\<rparr>)"
| pop_wait: "bpc s i = PopTest \<Longrightarrow> BlockingQueue_pop (elems s) = None \<Longrightarrow>
     bq_work s (s\<lparr>owner := None, bpc := (bpc s)(i := Waiting)\<rparr>)"
| pop_relock: "bpc s i = Woken \<Longrightarrow> owner s = None \<Longrightarrow>
     bq_work s (s\<lparr>owner := Some i, bpc := (bpc s)(i := PopTest)\<rparr>)"
| pop_take: "bpc s i = PopTest \<Longrightarrow> BlockingQueue_pop (elems s) = Some (x, q) \<Longrightarrow>
     bq_work s (s\<lparr>elems := q, popped := popped s @ [x], bpc := (bpc s)(i := PopUnlock)\<rparr>)"
| pop_unlock: "bpc s i = PopUnlock \<Longrightarrow>
     bq_work s (s\<lparr>owner := None, bpc := (bpc s)(i := Idle)\<rparr>)"
| poll_lock: "bpc s i = PollLock \<Longrightarrow> owner s = None \<Longrightarrow>
     bq_work s (s\<lparr>owner := Some i, bpc := (bpc s)(i := PollTest)\<rparr>)"
| poll: "bpc s i = PollTest \<Longrightarrow> BlockingQueue_popNoBlock (elems s) = (r, q) \<Longrightarrow>
     bq_work s (s\<lparr>elems := q, popped := popped s @ (case r of None \<Rightarrow> [] | Some x \<Rightarrow> [x]),
       bpc := (bpc s)(i := PollUnlock)\<rparr>)"
| poll_unlock: "bpc s i = PollUnlock \<Longrightarrow>
     bq_work s (s\<lparr>owner := None, bpc := (bpc s)(i := Idle)\<rparr>)"

inductive bq_step :: "'a bq_sys \<Rightarrow> 'a bq_sys \<Rightarrow> bool" where
  in_call: "bq_work s t \<Longrightarrow> bq_step s t"
| push_call: "bpc s i = Idle \<Longrightarrow> bq_step s (s\<lparr>bpc := (bpc s)(i := PushLock v)\<rparr>)"
| pop_call: "bpc s i = Idle \<Longrightarrow> bq_step s (s\<lparr>bpc := (bpc s)(i := PopLock)\<rparr>)"
| spurious_wake: "bpc s i = Waiting \<Longrightarrow> bq_step s (s\<lparr>bpc := (bpc s)(i := Woken)\<rparr>)"
| poll_call: "bpc s i = Idle \<Longrightarrow> bq_step s (s\<lparr>bpc := (bpc s)(i := PollLock)\<rparr>)"

abbreviation bq_reachable :: "'a bq_sys \<Rightarrow> bool" where
  "bq_reachable \<equiv> bq_step\<^sup>*\<^sup>* bq_init"

section \<open>The invariant\<close>

text \<open>The states inside the mutex.\<close>

definition critical :: "'a bq_pc \<Rightarrow> bool" where
  "critical p \<longleftrightarrow> (case p of PushBody v \<Rightarrow> True | PushNotify \<Rightarrow> True | PushUnlock \<Rightarrow> True | PopTest \<Rightarrow> True
     | PopUnlock \<Rightarrow> True | PollTest \<Rightarrow> True | PollUnlock \<Rightarrow> True | _ \<Rightarrow> False)"

text \<open>The states of a thread that will look at the queue, or wake somebody who will.\<close>

definition attending :: "'a bq_pc \<Rightarrow> bool" where
  "attending p \<longleftrightarrow> (case p of Woken \<Rightarrow> True | PopTest \<Rightarrow> True | PushNotify \<Rightarrow> True | _ \<Rightarrow> False)"

definition attendants :: "(nat \<Rightarrow> 'a bq_pc) \<Rightarrow> nat set" where
  "attendants p = {i. attending (p i)}"

definition mutex_ok :: "nat option \<Rightarrow> (nat \<Rightarrow> 'a bq_pc) \<Rightarrow> bool" where
  "mutex_ok m p \<longleftrightarrow> (\<forall>i. critical (p i) \<longleftrightarrow> m = Some i)"

text \<open>While a thread sleeps, no more elements are stored than threads attend to the queue.\<close>

definition wakeups_ok :: "'a list \<Rightarrow> (nat \<Rightarrow> 'a bq_pc) \<Rightarrow> bool" where
  "wakeups_ok q p \<longleftrightarrow> finite (attendants p) \<and>
     ((\<exists>i. p i = Waiting) \<longrightarrow> length q \<le> card (attendants p))"

definition bq_invar :: "'a bq_sys \<Rightarrow> bool" where
  "bq_invar s \<longleftrightarrow> mutex_ok (owner s) (bpc s) \<and> pushed s = popped s @ elems s \<and>
     wakeups_ok (elems s) (bpc s)"

lemmas pc_simps = critical_def attending_def

lemma mutex_enter: "mutex_ok None p \<Longrightarrow> critical c \<Longrightarrow> mutex_ok (Some i) (p(i := c))"
  by (auto simp: mutex_ok_def)

lemma mutex_stay: "mutex_ok m p \<Longrightarrow> critical c = critical (p i) \<Longrightarrow> mutex_ok m (p(i := c))"
  by (auto simp: mutex_ok_def)

lemma mutex_leave: "mutex_ok m p \<Longrightarrow> critical (p i) \<Longrightarrow> \<not> critical c \<Longrightarrow> mutex_ok None (p(i := c))"
  by (auto simp: mutex_ok_def)

lemma attendants_upd:
  "attendants (p(i := c)) = (if attending c then insert i (attendants p) else attendants p - {i})"
  by (auto simp: attendants_def)

lemma mem_attendants: "i \<in> attendants p \<longleftrightarrow> attending (p i)"
  by (simp add: attendants_def)

lemma wakeups_weaken:
  assumes "wakeups_ok q p" and "length q' \<le> length q" and "c \<noteq> Waiting"
    and "attending (p i) \<longrightarrow> attending c"
  shows "wakeups_ok q' (p(i := c))"
proof -
  have "attendants (p(i := c)) = (if attending c then insert i (attendants p) else attendants p)"
    using assms(4) by (auto simp: attendants_upd mem_attendants)
  moreover have "card (attendants p) \<le> card (insert i (attendants p))"
    by (rule card_insert_le)
  ultimately show ?thesis
    using assms by (auto simp: wakeups_ok_def split: if_splits)
qed

lemma wakeups_push:
  "wakeups_ok q p \<Longrightarrow> \<not> attending (p i) \<Longrightarrow> attending c \<Longrightarrow> c \<noteq> Waiting \<Longrightarrow>
     wakeups_ok (q @ [v]) (p(i := c))"
  by (auto simp: wakeups_ok_def attendants_upd mem_attendants split: if_splits)

lemma wakeups_notify:
  assumes "wakeups_ok q p" and "attending (p i)" and "p j = Waiting" and "\<not> attending c"
    and "c \<noteq> Waiting"
  shows "wakeups_ok q (p(i := c, j := Woken))"
proof -
  have i: "i \<in> attendants p" and j: "j \<notin> attendants p"
    using assms by (auto simp: mem_attendants attending_def)
  then have "i \<noteq> j" by auto
  with assms(4) have att: "attendants (p(i := c, j := Woken)) = insert j (attendants p - {i})"
    by (simp add: attendants_upd attending_def)
  have "card (insert j (attendants p - {i})) = card (attendants p)" if "finite (attendants p)"
    using that i j by (metis card_Suc_Diff1 card_insert_disjoint finite_Diff insert_Diff insert_iff)
  with assms(1,3) show ?thesis
    unfolding wakeups_ok_def att by auto
qed

lemma wakeups_nobody:
  "wakeups_ok q p \<Longrightarrow> \<forall>j. p j \<noteq> Waiting \<Longrightarrow> c \<noteq> Waiting \<Longrightarrow> wakeups_ok q' (p(i := c))"
  by (auto simp: wakeups_ok_def attendants_upd)

lemma wakeups_empty: "wakeups_ok q p \<Longrightarrow> wakeups_ok [] (p(i := c))"
  by (auto simp: wakeups_ok_def attendants_upd)

lemma wakeups_take:
  assumes "wakeups_ok (x # q) p" and "attending (p i)" and "c \<noteq> Waiting"
  shows "wakeups_ok q (p(i := c))"
proof -
  have "i \<in> attendants p" using assms(2) by (simp add: mem_attendants)
  with assms show ?thesis
    by (auto simp: wakeups_ok_def attendants_upd card_insert_if insert_absorb split: if_splits)
qed

lemma BlockingQueue_pop_iff [result_iff]:
  "BlockingQueue_pop q = None \<longleftrightarrow> q = []"
  "BlockingQueue_pop q = Some (x, q') \<longleftrightarrow> q = x # q'"
  by (auto simp: BlockingQueue_pop_def split: list.splits)

lemma bq_work_invar:
  assumes "bq_work s t" and "bq_invar s"
  shows "bq_invar t"
  using assms
proof (induction rule: bq_work.induct)
  case (push_lock s i v)
  then show ?case
    by (auto simp: bq_invar_def pc_simps intro: mutex_enter wakeups_weaken)
next
  case (push_body s i v)
  then show ?case
    by (auto simp: bq_invar_def pc_simps BlockingQueue_push_def intro: mutex_stay wakeups_push)
next
  case (notify_waiter s i j)
  then have "mutex_ok (owner s) ((bpc s)(i := PushUnlock, j := Woken))"
    by (intro mutex_stay) (auto simp: bq_invar_def pc_simps)
  with notify_waiter show ?case
    by (simp add: bq_invar_def pc_simps wakeups_notify)
next
  case (notify_nobody s i)
  then show ?case
    by (auto simp: bq_invar_def pc_simps intro: mutex_stay wakeups_nobody)
next
  case (pop_lock s i)
  then show ?case
    by (auto simp: bq_invar_def pc_simps intro: mutex_enter wakeups_weaken)
next
  case (pop_wait s i)
  then have "wakeups_ok (elems s) ((bpc s)(i := Waiting))"
    using wakeups_empty [of "elems s" "bpc s" i Waiting] by (simp add: bq_invar_def result_iff)
  with pop_wait show ?case
    using mutex_leave [of "owner s" "bpc s" i Waiting] by (simp add: bq_invar_def pc_simps)
next
  case (pop_relock s i)
  then show ?case
    by (auto simp: bq_invar_def pc_simps intro: mutex_enter wakeups_weaken)
next
  case (pop_take s i x q)
  then show ?case
    by (auto simp: bq_invar_def pc_simps result_iff intro: mutex_stay wakeups_take)
next
  case (poll_lock s i)
  then show ?case
    by (auto simp: bq_invar_def pc_simps intro: mutex_enter wakeups_weaken)
next
  case (poll s i r q)
  then have "popped s @ (case r of None \<Rightarrow> [] | Some x \<Rightarrow> [x]) @ q = popped s @ elems s"
    and "length q \<le> length (elems s)"
    by (auto simp: BlockingQueue_popNoBlock_def split: list.splits)
  with poll show ?case
    using wakeups_weaken [of "elems s" "bpc s" q PollUnlock i]
      mutex_stay [of "owner s" "bpc s" PollUnlock i]
    by (simp add: bq_invar_def pc_simps)
next
  case (push_unlock s i)
  then show ?case
    by (auto simp: bq_invar_def pc_simps intro: mutex_leave wakeups_weaken)
next
  case (pop_unlock s i)
  then show ?case
    by (auto simp: bq_invar_def pc_simps intro: mutex_leave wakeups_weaken)
next
  case (poll_unlock s i)
  then show ?case
    by (auto simp: bq_invar_def pc_simps intro: mutex_leave wakeups_weaken)
qed

lemma bq_step_invar [inv_intros]:
  assumes "bq_step s t" and "bq_invar s"
  shows "bq_invar t"
  using assms
proof (induction rule: bq_step.induct)
  case (push_call s i v)
  then show ?case
    by (auto simp: bq_invar_def pc_simps intro: mutex_stay wakeups_weaken)
next
  case (pop_call s i)
  then show ?case
    by (auto simp: bq_invar_def pc_simps intro: mutex_stay wakeups_weaken)
next
  case (poll_call s i)
  then show ?case
    by (auto simp: bq_invar_def pc_simps intro: mutex_stay wakeups_weaken)
next
  case (spurious_wake s i)
  then show ?case
    by (auto simp: bq_invar_def pc_simps intro: mutex_stay wakeups_weaken)
next
  case (in_call s t)
  then show ?case by (rule bq_work_invar)
qed

lemma bq_init_invar: "bq_invar bq_init"
  by (simp add: bq_init_def bq_invar_def mutex_ok_def wakeups_ok_def pc_simps attendants_def)

lemma bq_reachable_invar: "bq_reachable s \<Longrightarrow> bq_invar s"
  by (induction rule: rtranclp_induct) (auto intro: bq_step_invar bq_init_invar)

section \<open>Calls come to rest\<close>

text \<open>
  What is left to do for a thread: a \<open>push\<close> that has not notified yet may set a sleeper going again.
\<close>

fun bq_rank :: "'a bq_pc \<Rightarrow> nat" where
  "bq_rank (PushLock v) = 9"
| "bq_rank (PushBody v) = 8"
| "bq_rank PushNotify = 7"
| "bq_rank PopLock = 4"
| "bq_rank Woken = 4"
| "bq_rank PopTest = 3"
| "bq_rank PollLock = 3"
| "bq_rank PollTest = 2"
| "bq_rank PushUnlock = 1"
| "bq_rank PopUnlock = 1"
| "bq_rank PollUnlock = 1"
| "bq_rank Idle = 0"
| "bq_rank Waiting = 0"

definition bq_busy :: "(nat \<Rightarrow> 'a bq_pc) \<Rightarrow> nat set" where
  "bq_busy p = {i. p i \<noteq> Idle}"

definition bq_todo :: "nat set \<Rightarrow> (nat \<Rightarrow> 'a bq_pc) \<Rightarrow> nat" where
  "bq_todo A p = (\<Sum>i\<in>A. bq_rank (p i))"

lemma bq_busy_upd: "bq_busy p \<subseteq> A \<Longrightarrow> p i \<noteq> Idle \<Longrightarrow> bq_busy (p(i := c)) \<subseteq> A"
  by (auto simp: bq_busy_def)

lemma bq_todo_upd:
  assumes "finite A" "bq_busy p \<subseteq> A" "p i \<noteq> Idle"
  shows "bq_todo A (p(i := c)) + bq_rank (p i) = bq_todo A p + bq_rank c"
proof -
  have i: "i \<in> A" using assms(2,3) by (auto simp: bq_busy_def)
  have "(\<Sum>j\<in>A - {i}. bq_rank ((p(i := c)) j)) = (\<Sum>j\<in>A - {i}. bq_rank (p j))" by (rule sum.cong) auto
  then show ?thesis by (simp add: bq_todo_def sum.remove [OF assms(1) i])
qed

lemma bq_moves:
  assumes "finite A" "bq_busy p \<subseteq> A" "p i \<noteq> Idle" "bq_rank c < bq_rank (p i)"
  shows "bq_busy (p(i := c)) \<subseteq> A \<and> bq_todo A (p(i := c)) < bq_todo A p"
  using bq_todo_upd [of A p i c] bq_busy_upd [of p A i c] assms by auto

lemma bq_work_decreases:
  assumes "bq_work s t" "finite A" "bq_busy (bpc s) \<subseteq> A"
  shows "bq_busy (bpc t) \<subseteq> A \<and> bq_todo A (bpc t) < bq_todo A (bpc s)"
  using assms
proof (induction rule: bq_work.induct)
  case (notify_waiter s i j)
  let ?p = "(bpc s)(i := PushUnlock)" and ?q = "(bpc s)(i := PushUnlock, j := Woken)"
  have p: "bq_busy ?p \<subseteq> A" "?p j = Waiting"
    using bq_busy_upd [of "bpc s" A i PushUnlock] notify_waiter by auto
  have "bq_busy ?q \<subseteq> A" using bq_busy_upd [of ?p A j Woken] p by simp
  moreover have "bq_todo A ?q < bq_todo A (bpc s)"
    using bq_todo_upd [of A "bpc s" i PushUnlock] bq_todo_upd [of A ?p j Woken] p notify_waiter
    by (simp del: fun_upd_apply)
  ultimately show ?case by (simp del: fun_upd_apply)
qed (simp_all add: bq_moves del: fun_upd_apply)

lemma bq_reachable_busy: "bq_reachable s \<Longrightarrow> finite (bq_busy (bpc s))"
proof (induction rule: rtranclp_induct)
  case base
  show ?case by (simp add: bq_busy_def bq_init_def)
next
  case (step s t)
  have call: "finite (bq_busy (p(i := c)))" if "finite (bq_busy p)" for p :: "nat \<Rightarrow> 'a bq_pc" and i c
    by (rule finite_subset [of _ "insert i (bq_busy p)"]) (use that in \<open>auto simp: bq_busy_def\<close>)
  from step(2) show ?case
  proof cases
    case in_call
    then show ?thesis using bq_work_decreases [OF _ step.IH order_refl] finite_subset [OF _ step.IH] by blast
  qed (simp_all add: call [unfolded fun_upd_def] step.IH fun_upd_def)
qed

text \<open>As long as a thread is inside a call and not asleep, some thread can go on.\<close>

lemma bq_progress:
  assumes "bq_invar s" and "bpc s i \<noteq> Idle" "bpc s i \<noteq> Waiting"
  shows "\<exists>t. bq_work s t"
proof (cases "owner s")
  case None
  then have "\<not> critical (bpc s i)" using assms(1) by (simp add: bq_invar_def mutex_ok_def)
  with assms(2,3) None show ?thesis
    by (cases "bpc s i") (auto simp: pc_simps intro: bq_work.intros)
next
  case (Some j)
  then have "critical (bpc s j)" using assms(1) by (simp add: bq_invar_def mutex_ok_def)
  moreover have "\<exists>t. bq_work s t" if "bpc s j = PushNotify"
    using that notify_waiter [of s j] notify_nobody [of s j] by blast
  moreover have "\<exists>t. bq_work s t" if "bpc s j = PopTest"
    using that pop_wait [of s j] pop_take [of s j] by (cases "BlockingQueue_pop (elems s)") force+
  moreover have "\<exists>t. bq_work s t" if "bpc s j = PollTest"
    using that poll [of s j] by (cases "BlockingQueue_popNoBlock (elems s)") blast
  ultimately show ?thesis by (cases "bpc s j") (auto simp: pc_simps intro: bq_work.intros)
qed

lemma bq_work_reachable: "bq_work\<^sup>*\<^sup>* s t \<Longrightarrow> bq_reachable s \<Longrightarrow> bq_reachable t"
  by (induction rule: rtranclp_induct) (auto intro: in_call rtranclp.rtrancl_into_rtrancl)

lemma bq_at_rest:
  assumes "bq_reachable t" and "\<nexists>u. bq_work t u"
  shows "bpc t i = Idle \<or> bpc t i = Waiting \<and> elems t = []"
proof -
  note inv = bq_reachable_invar [OF assms(1)]
  have rest: "bpc t j = Idle \<or> bpc t j = Waiting" for j using bq_progress [OF inv] assms(2) by blast
  have "\<not> attending (bpc t j)" for j using rest [of j] by (auto simp: attending_def)
  then have "attendants (bpc t) = {}" by (simp add: attendants_def)
  with inv rest show ?thesis by (auto simp: bq_invar_def wakeups_ok_def)
qed

lemma bq_no_infinite_work:
  assumes "bq_reachable (f 0)" and "\<forall>k. bq_work (f k) (f (Suc k))"
  shows False
proof -
  let ?A = "bq_busy (bpc (f 0))"
  have "bq_busy (bpc (f k)) \<subseteq> ?A \<and> bq_todo ?A (bpc (f k)) + k \<le> bq_todo ?A (bpc (f 0))" for k
  proof (induction k)
    case (Suc k)
    then show ?case using bq_work_decreases [of "f k" "f (Suc k)" ?A] assms bq_reachable_busy [OF assms(1)] by force
  qed simp
  from this [of "Suc (bq_todo ?A (bpc (f 0)))"] show False by simp
qed

lemma bq_comes_to_rest:
  assumes "bq_reachable s"
  shows "\<exists>t. bq_work\<^sup>*\<^sup>* s t \<and> (\<nexists>u. bq_work t u)"
  using assms
proof (induction "bq_todo (bq_busy (bpc s)) (bpc s)" arbitrary: s rule: less_induct)
  case less
  show ?case
  proof (cases "\<exists>u. bq_work s u")
    case True
    then obtain u where u: "bq_work s u" by blast
    let ?A = "bq_busy (bpc s)"
    have A: "finite ?A" by (rule bq_reachable_busy [OF less.prems])
    note d = bq_work_decreases [OF u A order_refl]
    have "bq_todo (bq_busy (bpc u)) (bpc u) \<le> bq_todo ?A (bpc u)"
      unfolding bq_todo_def by (rule sum_mono2) (use A d in auto)
    with d have "bq_todo (bq_busy (bpc u)) (bpc u) < bq_todo ?A (bpc s)" by linarith
    moreover have "bq_reachable u" using less.prems u by (auto intro: in_call rtranclp.rtrancl_into_rtrancl)
    ultimately show ?thesis using less.hyps u by (meson converse_rtranclp_into_rtranclp)
  qed blast
qed

section \<open>Properties\<close>

text \<open>
  C35.
  Whatever the number of threads and however they interleave, the elements come out of a
  blocking queue in the order they went in, each once: what was pushed is what was popped
  followed by what is stored.  At most one thread is between locking and unlocking the mutex.
\<close>

theorem BlockingQueue_fifo:
  assumes "bq_reachable s"
  shows "pushed s = popped s @ elems s \<and>
    (critical (bpc s i) \<longrightarrow> critical (bpc s j) \<longrightarrow> i = j)"
  using bq_reachable_invar [OF assms] by (auto simp: bq_invar_def mutex_ok_def)

lemma bq_one_push:
  "\<exists>s. bq_reachable s \<and> pushed s = [4 :: nat] \<and> popped s = [] \<and> bpc s 0 = Waiting \<and> bpc s 1 = PushNotify"
proof -
  let ?s0 = "bq_init :: nat bq_sys"
  let ?s1 = "?s0\<lparr>bpc := (bpc ?s0)(0 := PopLock)\<rparr>"
  let ?s2 = "?s1\<lparr>owner := Some 0, bpc := (bpc ?s1)(0 := PopTest)\<rparr>"
  let ?s3 = "?s2\<lparr>owner := None, bpc := (bpc ?s2)(0 := Waiting)\<rparr>"
  let ?s4 = "?s3\<lparr>bpc := (bpc ?s3)(1 := PushLock 4)\<rparr>"
  let ?s5 = "?s4\<lparr>owner := Some 1, bpc := (bpc ?s4)(1 := PushBody 4)\<rparr>"
  let ?s6 = "?s5\<lparr>elems := BlockingQueue_push 4 (elems ?s5), pushed := pushed ?s5 @ [4],
    bpc := (bpc ?s5)(1 := PushNotify)\<rparr>"
  have 1: "bq_step ?s0 ?s1" by (rule pop_call) (simp add: bq_init_def)
  have 2: "bq_step ?s1 ?s2" by (rule in_call, rule bq_work.pop_lock) (simp_all add: bq_init_def)
  have 3: "bq_step ?s2 ?s3" by (rule in_call, rule pop_wait) (simp_all add: bq_init_def BlockingQueue_pop_def)
  have 4: "bq_step ?s3 ?s4" by (rule push_call) (simp add: bq_init_def)
  have 5: "bq_step ?s4 ?s5" by (rule in_call, rule push_lock) (simp_all add: bq_init_def)
  have 6: "bq_step ?s5 ?s6" by (rule in_call, rule push_body) simp
  from 1 2 3 4 5 6 have "bq_reachable ?s6"
    by (meson rtranclp.rtrancl_into_rtrancl rtranclp.rtrancl_refl)
  then show ?thesis by (intro exI [of _ ?s6]) (simp add: bq_init_def)
qed

theorem BlockingQueue_fifo_witness:
  "\<exists>s. bq_reachable s \<and> pushed s = [4 :: nat] \<and> elems s = [4]"
proof -
  obtain s where s: "bq_reachable s" "pushed s = [4 :: nat]" "popped s = []"
    using bq_one_push by blast
  with BlockingQueue_fifo [OF s(1)] show ?thesis by auto
qed

text \<open>
  C15.
  No wake-up is lost.  Let no call of \<open>push\<close>, \<open>pop\<close> or \<open>popNoBlock\<close> be begun any more and no
  spurious wake-up happen.  Then, from every reachable state and whatever the schedule, the calls begun
  come to rest after finitely many steps, and in the state where nothing can be done any more the mutex
  is free and every call has returned, except for consumers asleep in \<open>pop\<close>; and none of them sleeps
  while an element is stored.  At every moment before, as long as a consumer sleeps, at least as many
  threads have been woken, test the queue under the mutex or are about to call \<open>notify_one\<close> as
  elements are stored.
\<close>

theorem BlockingQueue_no_lost_wakeup:
  assumes "bq_reachable s"
  shows "(\<nexists>f. f 0 = s \<and> (\<forall>k. bq_work (f k) (f (Suc k)))) \<and>
    (\<forall>t. bq_work\<^sup>*\<^sup>* s t \<and> (\<nexists>u. bq_work t u) \<longrightarrow>
      owner t = None \<and> (\<forall>i. bpc t i = Idle \<or> bpc t i = Waiting \<and> elems t = [])) \<and>
    (\<forall>i. bpc s i = Waiting \<longrightarrow> length (elems s) \<le> card {j. attending (bpc s j)})"
proof (intro conjI allI impI)
  show "\<nexists>f. f 0 = s \<and> (\<forall>k. bq_work (f k) (f (Suc k)))" using bq_no_infinite_work assms by blast
next
  fix t assume t: "bq_work\<^sup>*\<^sup>* s t \<and> (\<nexists>u. bq_work t u)"
  then have r: "bq_reachable t" using bq_work_reachable assms by blast
  show rest: "bpc t i = Idle \<or> bpc t i = Waiting \<and> elems t = []" for i using bq_at_rest [OF r] t by blast
  have "\<not> critical (bpc t i)" for i using rest [of i] by (auto simp: pc_simps)
  with bq_reachable_invar [OF r] show "owner t = None" by (cases "owner t") (auto simp: bq_invar_def mutex_ok_def)
next
  fix i assume "bpc s i = Waiting"
  with bq_reachable_invar [OF assms] show "length (elems s) \<le> card {j. attending (bpc s j)}"
    by (auto simp: bq_invar_def wakeups_ok_def attendants_def)
qed

theorem BlockingQueue_no_lost_wakeup_witness:
  "\<exists>s t. bq_reachable s \<and> bpc s 0 = Waiting \<and> elems s = [4 :: nat] \<and> (\<exists>j. attending (bpc s j)) \<and>
    bq_work\<^sup>*\<^sup>* s t \<and> (\<nexists>u. bq_work t u) \<and> (bpc t 0 = Idle \<or> elems t = [])"
proof -
  obtain s where s: "bq_reachable s" "pushed s = [4 :: nat]" "popped s = []" "bpc s 0 = Waiting" "bpc s 1 = PushNotify"
    using bq_one_push by blast
  then have e: "elems s = [4]"
    using bq_reachable_invar [OF s(1)] by (auto simp: bq_invar_def)
  obtain t where t: "bq_work\<^sup>*\<^sup>* s t" "\<nexists>u. bq_work t u" using bq_comes_to_rest [OF s(1)] by blast
  have "1 \<le> card {j. attending (bpc s j)}" using BlockingQueue_no_lost_wakeup [OF s(1)] s(4) e by auto
  then have "{j. attending (bpc s j)} \<noteq> {}" by (metis card.empty not_one_le_zero)
  moreover have "bpc t 0 = Idle \<or> elems t = []" using BlockingQueue_no_lost_wakeup [OF s(1)] t by blast
  ultimately show ?thesis using s(1,4) e t by blast
qed

end
