(* ===== verification/Udp.thy ===== *)
theory Udp
  imports Iostreams
begin

unbundle bit_operations_syntax

text \<open>
  \<open>Udp\<close> of \<open>lib/udp.h\<close> and \<open>lib/udp.cpp\<close> (its POSIX branch): the constructor, the two ways to
  read a datagram, the write that waits for the socket, and the calls for multicast groups and
  for the local address.

  The kernel is a parameter: an operation takes what each system call it makes returned.  A
  call that fails comes with its \<open>errno\<close>.  The constructor also returns the calls it made, in
  order.
\<close>

section \<open>System calls\<close>

text \<open>The values of the error numbers on Linux, where \<open>EWOULDBLOCK\<close> is \<open>EAGAIN\<close>.\<close>

definition EAGAIN :: int where
  "EAGAIN = 11"

definition UNREACHABLE :: int where
  "UNREACHABLE = 111"

definition htons :: "u16 \<Rightarrow> u16" where
  "htons w = of_nat (from_le (rev (to_le 2 (unat w))))"

lemma htons_involutive [simp]: "htons (htons w) = w"
proof -
  let ?bs = "rev (to_le 2 (unat w))"
  have "from_le ?bs < 2 ^ 16" using from_le_bound [of ?bs] by simp
  then have "unat (of_nat (from_le ?bs) :: u16) = from_le ?bs" by (simp add: unat_of_nat take_bit_nat_eq_self_iff)
  moreover have "to_le 2 (from_le ?bs) = ?bs" using to_from_le [of ?bs] by simp
  ultimately show ?thesis using from_to_le_word [of 2 w] by (simp add: htons_def)
qed

lemma htons_nonzero: "w \<noteq> 0 \<Longrightarrow> htons w \<noteq> 0"
proof
  assume "w \<noteq> 0" and "htons w = 0"
  moreover from this have "w = htons 0" by (metis htons_involutive)
  moreover have "htons 0 = 0" by (simp add: htons_def numeral_2_eq_2)
  ultimately show False by simp
qed

datatype 'c recv_call = RecvFails int | Received "'c list" sockaddr

datatype 'c select_call = SelectTimeout | SelectFails int | SelectReady "'c recv_call"

datatype syscall =
    Socket
  | GetFlags int
  | SetFlags int u32
  | ReuseAddr int
  | BindAny int u16
  | Close int

definition O_NONBLOCK :: u32 where
  "O_NONBLOCK = 0x800"

text \<open>
  The outcomes of the constructor's calls: the descriptor of \<open>socket\<close> or its error, the flags,
  and for each of the other three the error when it failed.
\<close>

record ctor_calls =
  socket_result :: "int + int"
  getfl_result :: u32
  setfl_error :: "int option"
  reuse_error :: "int option"
  bind_error :: "int option"

section \<open>The constructor\<close>

definition Udp_bind :: "ctor_calls \<Rightarrow> int \<Rightarrow> u16 \<Rightarrow> (string + int) \<times> syscall list" where
  "Udp_bind k fd port =
    (case bind_error k of
       Some e \<Rightarrow> (Inl (''socket error in bind().  port: '' @ show_word port @ ''. errno: '' @ show_int e),
                  [BindAny fd (htons port), Close fd])
     | None \<Rightarrow> (Inr fd, [BindAny fd (htons port)]))"

definition Udp_reuse :: "ctor_calls \<Rightarrow> int \<Rightarrow> u16 \<Rightarrow> bool \<Rightarrow> (string + int) \<times> syscall list" where
  "Udp_reuse k fd port multicastRX =
    (if multicastRX then
       (case reuse_error k of
          Some e \<Rightarrow> (Inl ''socket error in setsockopt().  can not set SO_REUSEADDR'',
                     [ReuseAddr fd, Close fd])
        | None \<Rightarrow> apsnd ((#) (ReuseAddr fd)) (Udp_bind k fd port))
     else Udp_bind k fd port)"

definition Udp_init :: "ctor_calls \<Rightarrow> u16 \<Rightarrow> bool \<Rightarrow> (string + int) \<times> syscall list" where
  "Udp_init k port multicastRX =
    (case socket_result k of
       Inl e \<Rightarrow> (Inl (''socket error in socket(). errno: '' @ show_int e), [Socket])
     | Inr fd \<Rightarrow>
         apsnd (\<lambda>cs. [Socket, GetFlags fd, SetFlags fd (getfl_result k OR O_NONBLOCK)] @ cs)
           (case setfl_error k of
              Some e \<Rightarrow> (Inl (''socket error in fcntl(). errno: '' @ show_int e), [])
            | None \<Rightarrow> Udp_reuse k fd port multicastRX))"

section \<open>Reading\<close>

text \<open>
  \<open>recvfrom\<close> with room for \<open>size\<close> characters: the datagram is cut to the room and stored over
  the start of the buffer.
\<close>

definition store :: "nat \<Rightarrow> 'c list \<Rightarrow> 'c list \<Rightarrow> 'c list" where
  "store room data buffer = take room data @ drop (length (take room data)) buffer"

text \<open>\<open>Read\<close> and \<open>ReadSelect\<close>: the value returned, the buffer and the sender's address.\<close>

definition Udp_Read :: "nat \<Rightarrow> 'c recv_call \<Rightarrow> 'c list \<Rightarrow> sockaddr \<Rightarrow> int \<times> 'c list \<times> sockaddr" where
  "Udp_Read room r buffer from0 =
    (case r of
       Received data sender \<Rightarrow> (int (length (take room data)), store room data buffer, sender)
     | RecvFails e \<Rightarrow>
         (if e = EAGAIN then 0 else if e = UNREACHABLE then - 1 else - 2, buffer, from0))"

definition ReadSelect :: "nat \<Rightarrow> 'c select_call \<Rightarrow> 'c list \<Rightarrow> sockaddr \<Rightarrow> int \<times> 'c list \<times> sockaddr" where
  "ReadSelect room s buffer from0 =
    (case s of
       SelectTimeout \<Rightarrow> (0, buffer, from0)
     | SelectFails e \<Rightarrow> (- 2, buffer, from0)
     | SelectReady (Received data sender) \<Rightarrow>
         (int (length (take room data)), store room data buffer, sender)
     | SelectReady (RecvFails e) \<Rightarrow> (if e = UNREACHABLE then - 1 else - 3, buffer, from0))"

text \<open>The timeout as \<open>select\<close> takes it: seconds and microseconds.\<close>

definition select_timeout :: "int \<Rightarrow> int \<times> int" where
  "select_timeout timeoutMicroseconds = (timeoutMicroseconds sdiv 1000000, timeoutMicroseconds smod 1000000)"

section \<open>Writing\<close>

text \<open>
  \<open>Write\<close>: \<open>send k\<close> is the outcome of the \<open>k\<close>th attempt.  The loop may run forever, which is
  the value \<open>None\<close>.
\<close>

partial_function (option) Udp_Write :: "(nat \<Rightarrow> int + nat) \<Rightarrow> nat \<Rightarrow> nat option" where
  "Udp_Write send k =
    (case send k of
       Inr n \<Rightarrow> Some n
     | Inl e \<Rightarrow> if e = EAGAIN then Udp_Write send (Suc k) else Some 0)"

section \<open>Groups and the local address\<close>

text \<open>The argument is the value \<open>setsockopt\<close> returned.\<close>

definition JoinMulticast_result :: "int \<Rightarrow> int" where
  "JoinMulticast_result r = (if r < 0 then - 1 else 0)"

definition LeaveMulticast_result :: "int \<Rightarrow> int" where
  "LeaveMulticast_result r = (if r < 0 then - 1 else 0)"

text \<open>
  \<open>GetNetworkAddress\<close>: the results of \<open>getsockname\<close>, of \<open>gethostname\<close> (whether it failed) and
  of \<open>gethostbyname\<close> (the eight bytes read at its first address, when it found the host).
\<close>

definition GetNetworkAddress :: "int + sockaddr \<Rightarrow> bool \<Rightarrow> IP option \<Rightarrow> string + IP \<times> u16" where
  "GetNetworkAddress sockname hostname_fails host =
    (case sockname of
       Inl e \<Rightarrow> Inl (''socket error in getsockname(). errno: '' @ show_int e)
     | Inr sin \<Rightarrow>
         let ip = ucast (s_addr sin)
         in if ip = 0 \<and> \<not> hostname_fails then
              (case host of
                 Some he \<Rightarrow> Inr (he, sin_port sin)
               | None \<Rightarrow> Inl ''socket error in gethostname(): returned 0'')
            else Inr (ip, sin_port sin))"

section \<open>Lemmas\<close>

lemma length_store [simp]: "room \<le> length buffer \<Longrightarrow> length (store room data buffer) = length buffer"
  by (simp add: store_def)

lemma take_store: "n \<le> length (take room data) \<Longrightarrow> take n (store room data buffer) = take n (take room data)"
  by (simp add: store_def min_def split: if_splits)

lemma ReadSelect_result:
  "ReadSelect room s buffer from0 = (ret, buffer', sender) \<Longrightarrow>
     (ret > 0 \<and> (\<exists>data. s = SelectReady (Received data sender) \<and> ret = int (length (take room data)) \<and>
        buffer' = store room data buffer)) \<or>
     (ret \<le> 0 \<and> buffer' = buffer)"
  by (auto simp: ReadSelect_def store_def split: select_call.splits recv_call.splits if_splits)

lemma Udp_Write_step:
  "send k = Inl EAGAIN \<Longrightarrow> Udp_Write send k = Udp_Write send (Suc k)"
  by (simp add: Udp_Write.simps)

lemma Udp_Write_done:
  "send k \<noteq> Inl EAGAIN \<Longrightarrow> Udp_Write send k = Some (case send k of Inr n \<Rightarrow> n | Inl e \<Rightarrow> 0)"
  by (subst Udp_Write.simps) (auto split: sum.splits)

lemma Udp_Write_at:
  "\<forall>i<j. send (k + i) = Inl EAGAIN \<Longrightarrow> Udp_Write send k = Udp_Write send (k + j)"
proof (induction j)
  case 0
  show ?case by simp
next
  case (Suc j)
  then have "Udp_Write send k = Udp_Write send (k + j)" by simp
  also have "\<dots> = Udp_Write send (k + Suc j)" using Suc.prems by (simp add: Udp_Write_step)
  finally show ?case .
qed

lemma Udp_Write_some: "Udp_Write send k = Some n \<Longrightarrow> \<exists>i\<ge>k. send i \<noteq> Inl EAGAIN"
proof (rule Udp_Write.raw_induct [where P = "\<lambda>s k n. \<exists>i\<ge>k. s i \<noteq> Inl EAGAIN"])
  fix W s k n
  assume IH: "\<And>s k n. W s k = Some n \<Longrightarrow> \<exists>i\<ge>k. s i \<noteq> Inl EAGAIN"
    and eq: "(case s k of Inr n \<Rightarrow> Some n | Inl e \<Rightarrow> if e = EAGAIN then W s (Suc k) else Some 0) = Some n"
  show "\<exists>i\<ge>k. s i \<noteq> Inl EAGAIN"
  proof (cases "s k = Inl EAGAIN")
    case True
    with eq have "W s (Suc k) = Some n" by simp
    from IH [OF this] show ?thesis by (meson Suc_leD)
  qed auto
qed

lemma Udp_Write_fails: "\<forall>i. send (k + i) = Inl EAGAIN \<Longrightarrow> Udp_Write send k = None"
  using Udp_Write_some [of send k] by (metis le_Suc_ex not_None_eq)

section \<open>Properties\<close>

text \<open>A write that returns has made some number of attempts that found the socket busy and then one
  that did not; its result is the number of characters sent, or 0 when that attempt failed.  It
  does not return exactly when every attempt finds the socket busy.
\<close>

theorem Udp_Write_spec:
  "(Udp_Write send 0 = None \<and> (\<forall>i. send i = Inl EAGAIN)) \<or>
   (\<exists>j. (\<lambda>i. send i) ` {..<j} \<subseteq> {Inl EAGAIN} \<and> send j \<noteq> Inl EAGAIN \<and>
      Udp_Write send 0 = Some (case send j of Inr n \<Rightarrow> n | Inl e \<Rightarrow> 0))"
proof (cases "\<forall>i. send i = Inl EAGAIN")
  case True
  then show ?thesis using Udp_Write_fails [of send 0] by simp
next
  case False
  define j where "j = (LEAST i. send i \<noteq> Inl EAGAIN)"
  have j: "send j \<noteq> Inl EAGAIN" using False unfolding j_def by (metis (mono_tags, lifting) LeastI)
  have before: "\<forall>i<j. send i = Inl EAGAIN" unfolding j_def using not_less_Least by blast
  then have "Udp_Write send 0 = Udp_Write send j" using Udp_Write_at [of j send 0] by simp
  with j before show ?thesis by (auto simp: Udp_Write_done intro!: exI [of _ j])
qed

text \<open>The constructor either throws or returns a socket that is not blocking and bound to the port
  in network byte order, with the address made reusable before for a multicast socket.  When it
  throws it has closed the descriptor it opened, unless it was \<open>fcntl\<close> that failed: then the
  descriptor is leaked.
\<close>

theorem Udp_init_spec:
  "(\<exists>e. socket_result k = Inl e \<and> isl (fst (Udp_init k port m)) \<and> snd (Udp_init k port m) = [Socket]) \<or>
   (\<exists>fd calls. socket_result k = Inr fd \<and>
      snd (Udp_init k port m) = Socket # GetFlags fd # SetFlags fd (getfl_result k OR O_NONBLOCK) # calls \<and>
      (isl (fst (Udp_init k port m)) \<and> setfl_error k \<noteq> None \<and> calls = [] \<or>
       isl (fst (Udp_init k port m)) \<and> setfl_error k = None \<and> last calls = Close fd \<or>
       fst (Udp_init k port m) = Inr fd \<and> setfl_error k = None \<and>
         calls = (if m then [ReuseAddr fd] else []) @ [BindAny fd (htons port)]))"
  by (cases "socket_result k"; cases "setfl_error k"; cases m; cases "reuse_error k"; cases "bind_error k")
    (simp_all add: Udp_init_def Udp_reuse_def Udp_bind_def)

end
