(* ===== verification/Server.thy ===== *)
theory Server
  imports Network Free_Queue Block_Queue Udp
begin

text \<open>
  \<open>Server\<close> of \<open>server.h\<close> and \<open>server.cpp\<close>: the object that hosts one cluster.  It executes
  commands, feeds received buffers to the cluster, collects the impulses the cluster fires into
  a buffer and sends the buffer off when it is full.

  The cluster is a plug-in loaded at run time, so it is a parameter: the operations of
  \<open>ICluster\<close> that a plug-in defines are the fields of \<open>icluster\<close>.  \<open>polled\<close> gives the calls of
  \<open>IWriter::write\<close> that its \<open>read\<close> makes (each returns 0, so a cluster learns nothing from
  them), \<open>waits\<close> is \<open>isWaitForInput\<close>.  The id and its accessors belong to \<open>ICluster\<close> itself and
  are a field of the server: the model is of plug-ins that leave both, and the buffers they are
  shown, as they are, and whose operations return, without an exception (the handlers at the end of
  \<open>Server::run\<close> would catch one), like the one in \<open>dummy/dummy.cpp\<close>.
\<close>

section \<open>State\<close>

record 'c icluster =
  command :: "string \<Rightarrow> 'c \<Rightarrow> string \<times> 'c"
  input :: "timebuffer \<Rightarrow> 'c \<Rightarrow> 'c"
  polled :: "'c \<Rightarrow> (int \<times> Time) list \<times> 'c"
  waits :: "'c \<Rightarrow> bool"

record 'c server =
  cluster :: 'c
  cluster_id :: ClusterID
  inQ :: "timebuffer list"
  outQ :: "timebuffer free_queue"
  timeBuff :: timebuffer
  tracker :: sockaddr
  mCastGrp :: sockaddr
  cmd_buff :: string

type_synonym packet = "sockaddr \<times> timebuffer"

datatype stopped =
    Exited
  | Undefined net_error

definition SERVER_BUFF :: nat where
  "SERVER_BUFF = 0xFFFF"

text \<open>The constructor; the contents of new arrays are arguments.\<close>

definition Server_init :: "'c \<Rightarrow> u16 list \<Rightarrow> u16 list \<Rightarrow> timebuffer list \<Rightarrow> sockaddr \<Rightarrow> sockaddr \<Rightarrow>
    string \<Rightarrow> 'c server" where
  "Server_init c i0 d0 slots trk grp b =
    \<lparr>cluster = c, cluster_id = 0, inQ = [], outQ = FreeQueue_init slots,
     timeBuff = TimeBuffer_init i0 d0, tracker = trk, mCastGrp = grp, cmd_buff = b\<rparr>"

text \<open>\<open>run\<close> up to its loop: the addresses and the id.\<close>

definition Server_run_setup :: "IP \<Rightarrow> u16 \<Rightarrow> ClusterID \<Rightarrow> 'c server \<Rightarrow> 'c server" where
  "Server_run_setup ip port i s =
    s\<lparr>tracker := \<lparr>s_addr = ucast ip, sin_port = port\<rparr>,
      mCastGrp := \<lparr>s_addr = ucast (idToMulticast i), sin_port = htons MULTICAST_PORT\<rparr>,
      cluster_id := i\<rparr>"

section \<open>Commands\<close>

text \<open>
  \<open>parseCommand\<close>: \<open>junk\<close> is the uninitialised \<open>param1\<close>, \<open>ks\<close> the iteration order \<open>unsubscribe\<close>
  uses and \<open>servers\<close> the ids of all local clusters.  The result is the reply, the server, the
  network and its requests to the kernel, or the reason why there is none.
\<close>

definition parseCommand :: "'c icluster \<Rightarrow> ClusterID \<Rightarrow> ClusterID list \<Rightarrow> ClusterID list \<Rightarrow> string \<Rightarrow>
    'c server \<Rightarrow> network \<Rightarrow> stopped + string \<times> 'c server \<times> network \<times> group_request list" where
  "parseCommand C junk ks servers cmd s n =
    (let (cmdword, is) = get_word [] (istringstream cmd);
         param1 = fst (get_unsigned junk is)
     in if cmdword = ''CONNECT'' then
          (case subscribe servers (cluster_id s) param1 n of
             (n', reqs) \<Rightarrow> Inr (''ACK'', s, n', reqs))
        else if cmdword = ''DROP'' then
          (case unsubscribe ks servers (cluster_id s) param1 n of
             Inl e \<Rightarrow> Inl (Undefined e)
           | Inr (n', reqs) \<Rightarrow> Inr (''ACK'', s, n', reqs))
        else if cmdword = ''RUN'' then
          (let old = cluster_id s
           in Inr (''ACK'',
                if old \<noteq> param1 then
                  s\<lparr>cluster_id := param1, mCastGrp := (mCastGrp s)\<lparr>s_addr := ucast (idToMulticast param1)\<rparr>\<rparr>
                else s, n, []))
        else if cmdword = ''EXIT'' then Inl Exited
        else
          (case command C cmd (cluster s) of
             (reply, c) \<Rightarrow> Inr (reply, s\<lparr>cluster := c\<rparr>, n, [])))"

text \<open>\<open>processCommands\<close>, with the outcome of \<open>ReadSelect\<close>.  Replies go to the sender.\<close>

definition processCommands :: "'c icluster \<Rightarrow> ClusterID \<Rightarrow> ClusterID list \<Rightarrow> ClusterID list \<Rightarrow>
    char select_call \<Rightarrow> sockaddr \<Rightarrow> 'c server \<Rightarrow> network \<Rightarrow>
    stopped + 'c server \<times> network \<times> group_request list \<times> (sockaddr \<times> string) list" where
  "processCommands C junk ks servers sel from0 s n =
    (case ReadSelect (SERVER_BUFF - 1) sel (cmd_buff s) from0 of
       (ret, b, from) \<Rightarrow>
         if ret > 0 then
           let b1 = b[nat ret := NUL]; s1 = s\<lparr>cmd_buff := b1\<rparr>
           in (case parseCommand C junk ks servers (c_string b1) s1 n of
                 Inl e \<Rightarrow> Inl e
               | Inr (reply, s2, n', reqs) \<Rightarrow>
                   Inr (s2, n', reqs, if reply \<noteq> [] then [(from, reply @ [NUL])] else []))
         else Inr (s\<lparr>cmd_buff := b\<rparr>, n, [], []))"

definition requestIdFromTracker :: "'c server \<Rightarrow> (sockaddr \<times> string) list" where
  "requestIdFromTracker s = [(tracker s, ''ID '' @ show_word (cluster_id s) @ [NUL])]"

section \<open>Impulses\<close>

text \<open>
  \<open>write\<close>: \<open>env k\<close> holds the offset \<open>toNetwork\<close> loads in the \<open>k\<close>th turn of the loop and the
  contents of the arrays of the buffer allocated in it.  The buffers sent are collected, with
  their destination.
\<close>

partial_function (option) Server_write :: "(nat \<Rightarrow> int \<times> u16 list \<times> u16 list) \<Rightarrow> int \<Rightarrow> Time \<Rightarrow> nat \<Rightarrow>
    'c server \<Rightarrow> packet list \<Rightarrow> (string + 'c server \<times> packet list) option" where
  "Server_write env nodeIndex time k s sent =
    (case env k of
       (d, i0, d0) \<Rightarrow>
         (case TimeBuffer_write d (word_of_int nodeIndex) time (timeBuff s) of
            Inl e \<Rightarrow> Some (Inl e)
          | Inr (r, tb) \<Rightarrow>
              if r < 0 then
                let tb1 = tb\<lparr>srcId := cluster_id s\<rparr>;
                    s1 = s\<lparr>outQ := snd (FreeQueue_push MAX_MSG_Q_SIZE tb1 (outQ s)),
                           timeBuff := TimeBuffer_init i0 d0\<rparr>
                in Server_write env nodeIndex time (Suc k) s1 (sent @ [(mCastGrp s, tb1)])
              else Some (Inr (s\<lparr>timeBuff := tb\<rparr>, sent))))"

text \<open>The calls a cluster makes during one \<open>read\<close>, with an environment for each.\<close>

fun Server_writes :: "((nat \<Rightarrow> int \<times> u16 list \<times> u16 list) \<times> int \<times> Time) list \<Rightarrow> 'c server \<Rightarrow> packet list \<Rightarrow>
    (string + 'c server \<times> packet list) option" where
  "Server_writes [] s sent = Some (Inr (s, sent))"
| "Server_writes ((env, i, t) # ws) s sent =
    (case Server_write env i t 0 s sent of
       None \<Rightarrow> None
     | Some (Inl e) \<Rightarrow> Some (Inl e)
     | Some (Inr (s', sent')) \<Rightarrow> Server_writes ws s' sent')"

text \<open>
  \<open>performIO\<close>: \<open>None\<close> is a call that does not return (a cluster that waits for input, and no
  buffer in the queue), \<open>envs\<close> the environments of the calls of \<open>write\<close>.
\<close>

definition performIO :: "'c icluster \<Rightarrow> (nat \<Rightarrow> nat \<Rightarrow> int \<times> u16 list \<times> u16 list) \<Rightarrow> 'c server \<Rightarrow>
    (string + 'c server \<times> packet list) option" where
  "performIO C envs s =
    (case (if waits C (cluster s) then
             (case BlockingQueue_pop (inQ s) of
                Some (bb, q) \<Rightarrow> Some (s\<lparr>inQ := q, cluster := input C bb (cluster s)\<rparr>)
              | None \<Rightarrow> None)
           else
             (case BlockingQueue_popNoBlock (inQ s) of
                (Some bb, q) \<Rightarrow> Some (s\<lparr>inQ := q, cluster := input C bb (cluster s)\<rparr>)
              | (None, q) \<Rightarrow> Some (s\<lparr>inQ := q\<rparr>))) of
       None \<Rightarrow> None
     | Some s1 \<Rightarrow>
         if cluster_id s1 > 0 then
           (case polled C (cluster s1) of
              (calls, c) \<Rightarrow>
                Server_writes (map (\<lambda>(k, i, t). (envs k, i, t)) (enumerate 0 calls)) (s1\<lparr>cluster := c\<rparr>) [])
         else Some (Inr (s1, [])))"

section \<open>Invariant\<close>

definition group_of :: "ClusterID \<Rightarrow> sockaddr" where
  "group_of i = \<lparr>s_addr = ucast (idToMulticast i), sin_port = htons MULTICAST_PORT\<rparr>"

text \<open>A buffer that is being filled: one without impulses has not been started.\<close>

definition filling :: "timebuffer \<Rightarrow> bool" where
  "filling tb \<longleftrightarrow> tb_wf tb \<and> (tbcount tb = 0 \<longrightarrow> tbtime tb = time_min)"

definition server_wf :: "'c server \<Rightarrow> bool" where
  "server_wf s \<longleftrightarrow> filling (timeBuff s) \<and> fq_invar MAX_MSG_Q_SIZE (outQ s) \<and>
     mCastGrp s = group_of (cluster_id s) \<and> length (cmd_buff s) = SERVER_BUFF"

definition fresh_ok :: "(nat \<Rightarrow> int \<times> u16 list \<times> u16 list) \<Rightarrow> bool" where
  "fresh_ok env \<longleftrightarrow> (\<forall>k. length (fst (snd (env k))) = MAX_OUTPUT_NODES \<and>
     length (snd (snd (env k))) = MAX_OUTPUT_NODES)"

section \<open>The loop of write\<close>

text \<open>The buffer after an impulse was stored, and the buffer as it is sent.\<close>

definition tb_stored :: "int \<Rightarrow> Time \<Rightarrow> timebuffer \<Rightarrow> timebuffer" where
  "tb_stored nodeIndex t tb = tb\<lparr>tbtime := write_base t tb,
     idx := (idx tb)[unat (tbcount tb) := word_of_int nodeIndex],
     dt := (dt tb)[unat (tbcount tb) := word_of_int (write_delta t tb)], tbcount := tbcount tb + 1\<rparr>"

definition tb_flushed :: "int \<Rightarrow> ClusterID \<Rightarrow> Time \<Rightarrow> timebuffer \<Rightarrow> timebuffer" where
  "tb_flushed d i t tb = tb\<lparr>tbtime := toNetwork d (write_base t tb), srcId := i\<rparr>"

lemma Server_write_old:
  "write_delta t (timeBuff s) < - (2 ^ 15) \<Longrightarrow> Server_write env i t k s sent = Some (Inr (s, sent))"
  by (subst Server_write.simps) (auto simp: write_old split: prod.splits)

lemma Server_write_stored:
  "- (2 ^ 15) \<le> write_delta t (timeBuff s) \<Longrightarrow> write_delta t (timeBuff s) < 2 ^ 15 \<Longrightarrow>
     unat (tbcount (timeBuff s)) < MAX_OUTPUT_NODES \<Longrightarrow>
     Server_write env i t k s sent = Some (Inr (s\<lparr>timeBuff := tb_stored i t (timeBuff s)\<rparr>, sent))"
  by (subst Server_write.simps) (auto simp: write_stored tb_stored_def split: prod.splits)

lemma write_delta_init: "write_delta t (TimeBuffer_init i0 d0) = 0"
  by (simp add: write_delta_def TimeBuffer_init_def)

lemma init_stored:
  "Server_write env i t k (s\<lparr>timeBuff := TimeBuffer_init i0 d0\<rparr>) sent =
     Some (Inr (s\<lparr>timeBuff := tb_stored i t (TimeBuffer_init i0 d0)\<rparr>, sent))"
proof -
  have "unat (tbcount (TimeBuffer_init i0 d0)) < MAX_OUTPUT_NODES"
    by (simp add: TimeBuffer_init_def MAX_OUTPUT_NODES_def)
  then show ?thesis
    by (subst Server_write_stored) (simp_all add: write_delta_init)
qed

lemma Server_write_refused:
  assumes "- (2 ^ 15) \<le> write_delta t (timeBuff s)"
    and "unat (tbcount (timeBuff s)) \<ge> MAX_OUTPUT_NODES \<or> write_delta t (timeBuff s) > 2 ^ 15 - 1"
    and e: "env k = (d, i0, d0)"
  shows "Server_write env i t k s sent =
    (let tb1 = tb_flushed d (cluster_id s) t (timeBuff s)
     in Some (Inr (s\<lparr>outQ := snd (FreeQueue_push MAX_MSG_Q_SIZE tb1 (outQ s)),
          timeBuff := tb_stored i t (TimeBuffer_init i0 d0)\<rparr>, sent @ [(mCastGrp s, tb1)])))"
proof -
  let ?tb1 = "tb_flushed d (cluster_id s) t (timeBuff s)"
  have "Server_write env i t k s sent = Server_write env i t (Suc k)
      ((s\<lparr>outQ := snd (FreeQueue_push MAX_MSG_Q_SIZE ?tb1 (outQ s))\<rparr>)\<lparr>timeBuff := TimeBuffer_init i0 d0\<rparr>)
      (sent @ [(mCastGrp s, ?tb1)])"
    by (subst Server_write.simps) (simp add: e write_refused [OF assms(1,2)] tb_flushed_def Let_def)
  also have "\<dots> = Some (Inr (s\<lparr>outQ := snd (FreeQueue_push MAX_MSG_Q_SIZE ?tb1 (outQ s)),
      timeBuff := tb_stored i t (TimeBuffer_init i0 d0)\<rparr>, sent @ [(mCastGrp s, ?tb1)]))"
    unfolding init_stored by simp
  finally show ?thesis by (simp add: Let_def)
qed

text \<open>The loop in one of three ways.\<close>

lemma Server_write_cases:
  obtains (old) "write_delta t (timeBuff s) < - (2 ^ 15)"
      "Server_write env i t k s sent = Some (Inr (s, sent))"
  | (stored) "- (2 ^ 15) \<le> write_delta t (timeBuff s)" "write_delta t (timeBuff s) < 2 ^ 15"
      "unat (tbcount (timeBuff s)) < MAX_OUTPUT_NODES"
      "Server_write env i t k s sent = Some (Inr (s\<lparr>timeBuff := tb_stored i t (timeBuff s)\<rparr>, sent))"
  | (flushed) d i0 d0 where "env k = (d, i0, d0)" "- (2 ^ 15) \<le> write_delta t (timeBuff s)"
      "unat (tbcount (timeBuff s)) \<ge> MAX_OUTPUT_NODES \<or> write_delta t (timeBuff s) > 2 ^ 15 - 1"
      "Server_write env i t k s sent =
        Some (Inr (s\<lparr>outQ := snd (FreeQueue_push MAX_MSG_Q_SIZE (tb_flushed d (cluster_id s) t (timeBuff s)) (outQ s)),
          timeBuff := tb_stored i t (TimeBuffer_init i0 d0)\<rparr>,
          sent @ [(mCastGrp s, tb_flushed d (cluster_id s) t (timeBuff s))]))"
proof (cases rule: write_cases [of t "timeBuff s"])
  case old
  then show ?thesis by (intro that(1) Server_write_old)
next
  case refused
  obtain d i0 d0 where "env k = (d, i0, d0)" by (cases "env k")
  then show ?thesis using Server_write_refused [OF refused] refused by (intro that(3)) (simp_all add: Let_def)
next
  case stored
  then show ?thesis by (intro that(2) Server_write_stored)
qed

lemma filling_stored:
  assumes "filling tb" "unat (tbcount tb) < MAX_OUTPUT_NODES"
  shows "filling (tb_stored i t tb)"
proof -
  have "unat (tbcount tb + 1) = Suc (unat (tbcount tb))" by (rule unat_count_Suc [OF assms(2)])
  moreover from this have "tbcount tb + 1 \<noteq> 0" by (metis nat.simps(3) unat_0)
  ultimately show ?thesis using assms by (simp add: filling_def tb_wf_def tb_stored_def)
qed

lemma filling_init: "fresh_ok env \<Longrightarrow> env k = (d, i0, d0) \<Longrightarrow> filling (TimeBuffer_init i0 d0)"
  unfolding fresh_ok_def filling_def by (metis TimeBuffer_init_def fst_conv snd_conv tb_init_wf timebuffer.select_convs(2))

lemma init_not_full: "unat (tbcount (TimeBuffer_init i0 d0)) < MAX_OUTPUT_NODES"
  by (simp add: TimeBuffer_init_def MAX_OUTPUT_NODES_def)

text \<open>What every packet satisfies, and what a server keeps, over the calls of \<open>write\<close>.\<close>

definition packet_ok :: "ClusterID \<Rightarrow> packet \<Rightarrow> bool" where
  "packet_ok i = (\<lambda>(dst, tb). dst = group_of i \<and> srcId tb = i \<and> tb_wf tb \<and> tb_sizeData tb > 0)"

lemma flushed_packet_ok:
  assumes "server_wf s"
    and "unat (tbcount (timeBuff s)) \<ge> MAX_OUTPUT_NODES \<or> write_delta t (timeBuff s) > 2 ^ 15 - 1"
  shows "packet_ok (cluster_id s) (mCastGrp s, tb_flushed d (cluster_id s) t (timeBuff s))"
proof -
  let ?tb = "timeBuff s"
  have "tbcount ?tb \<noteq> 0"
  proof
    assume c: "tbcount ?tb = 0"
    then have "tbtime ?tb = time_min" using assms(1) by (simp add: server_wf_def filling_def)
    with c assms(2) show False by (simp add: write_delta_def MAX_OUTPUT_NODES_def)
  qed
  then have "0 < unat (tbcount ?tb)" by (simp add: unat_gt_0)
  then show ?thesis
    using assms(1) by (simp add: packet_ok_def server_wf_def filling_def tb_wf_def tb_flushed_def tb_sizeData_def)
qed

lemma Server_write_wf:
  assumes "server_wf s" "fresh_ok env"
  shows "\<exists>s' out. Server_write env i t k s sent = Some (Inr (s', sent @ out)) \<and> length out \<le> 1 \<and>
    server_wf s' \<and> cluster_id s' = cluster_id s \<and> cluster s' = cluster s \<and> inQ s' = inQ s \<and>
    list_all (packet_ok (cluster_id s)) out"
proof (cases rule: Server_write_cases [of t s env i k sent])
  case old
  then show ?thesis using assms by (intro exI [of _ s] exI [of _ "[]"]) simp
next
  case stored
  then have "server_wf (s\<lparr>timeBuff := tb_stored i t (timeBuff s)\<rparr>)"
    using assms by (simp add: server_wf_def filling_stored)
  then show ?thesis
    using stored(4) by (intro exI [of _ "s\<lparr>timeBuff := tb_stored i t (timeBuff s)\<rparr>"] exI [of _ "[]"]) simp
next
  case (flushed d i0 d0)
  let ?tb = "tb_flushed d (cluster_id s) t (timeBuff s)"
  let ?s = "s\<lparr>outQ := snd (FreeQueue_push MAX_MSG_Q_SIZE ?tb (outQ s)), timeBuff := tb_stored i t (TimeBuffer_init i0 d0)\<rparr>"
  have "fq_invar MAX_MSG_Q_SIZE (snd (FreeQueue_push MAX_MSG_Q_SIZE ?tb (outQ s)))"
    using assms(1) by (auto simp: server_wf_def FreeQueue_push_def fq_invar_def Let_def)
  then have "server_wf ?s"
    using assms(1) filling_stored [OF filling_init [OF assms(2) flushed(1)] init_not_full]
    by (simp add: server_wf_def)
  moreover have "packet_ok (cluster_id s) (mCastGrp s, ?tb)"
    by (rule flushed_packet_ok [OF assms(1) flushed(3)])
  ultimately show ?thesis
    using flushed(4) by (intro exI [of _ ?s] exI [of _ "[(mCastGrp s, ?tb)]"]) simp
qed

lemma Server_writes_wf:
  assumes "server_wf s" "list_all (\<lambda>(env, i, t). fresh_ok env) ws"
  shows "\<exists>s' out. Server_writes ws s sent = Some (Inr (s', sent @ out)) \<and>
    server_wf s' \<and> cluster_id s' = cluster_id s \<and> cluster s' = cluster s \<and> inQ s' = inQ s \<and>
    list_all (packet_ok (cluster_id s)) out"
  using assms
proof (induction ws arbitrary: s sent)
  case Nil
  then show ?case by (intro exI [of _ s] exI [of _ "[]"]) simp
next
  case (Cons w ws)
  obtain env i t where w: "w = (env, i, t)" by (cases w)
  then obtain s1 out1 where 1: "Server_write env i t 0 s sent = Some (Inr (s1, sent @ out1))"
      "server_wf s1" "cluster_id s1 = cluster_id s" "cluster s1 = cluster s" "inQ s1 = inQ s"
      "list_all (packet_ok (cluster_id s)) out1"
    using Server_write_wf [of s env i t 0 sent] Cons.prems by auto
  have tl: "list_all (\<lambda>(env, i, t). fresh_ok env) ws" using Cons.prems(2) by (auto simp: list_all_iff)
  obtain s2 out2 where 2: "Server_writes ws s1 (sent @ out1) = Some (Inr (s2, (sent @ out1) @ out2))"
      "server_wf s2" "cluster_id s2 = cluster_id s1" "cluster s2 = cluster s1" "inQ s2 = inQ s1"
      "list_all (packet_ok (cluster_id s1)) out2"
    using Cons.IH [OF 1(2) tl, of "sent @ out1"] by blast
  show ?case
    using 1 2 by (intro exI [of _ s2] exI [of _ "out1 @ out2"]) (simp add: w)
qed

section \<open>Commands and the invariant\<close>

lemma setup_wf:
  assumes "length i0 = MAX_OUTPUT_NODES" "length d0 = MAX_OUTPUT_NODES"
    "length slots = MAX_MSG_Q_SIZE" "length b = SERVER_BUFF"
  shows "server_wf (Server_run_setup ip port i (Server_init c i0 d0 slots trk grp b))"
  using assms tb_init_wf [of i0 d0]
  by (simp add: server_wf_def Server_run_setup_def Server_init_def filling_def group_of_def
      fq_invar_def FreeQueue_init_def MAX_MSG_Q_SIZE_def) (simp add: TimeBuffer_init_def)

lemma parseCommand_wf:
  "server_wf s \<Longrightarrow> parseCommand C junk ks servers cmd s n = Inr (reply, s', n', reqs) \<Longrightarrow> server_wf s'"
  by (auto simp: parseCommand_def Let_def server_wf_def group_of_def split: prod.splits sum.splits if_splits)

lemma ReadSelect_length:
  "ReadSelect room sel b from0 = (ret, b', from) \<Longrightarrow> room \<le> length b \<Longrightarrow> length b' = length b"
  using ReadSelect_result [of room sel b from0 ret b' "from"] by auto

lemma processCommands_wf:
  assumes wf: "server_wf s"
    and p: "processCommands C junk ks servers sel from0 s n = Inr (s', n', reqs, out)"
  shows "server_wf s'"
proof -
  obtain ret b "from" where r: "ReadSelect (SERVER_BUFF - 1) sel (cmd_buff s) from0 = (ret, b, from)"
    by (cases "ReadSelect (SERVER_BUFF - 1) sel (cmd_buff s) from0") auto
  have "length b = SERVER_BUFF"
    using ReadSelect_length [OF r] wf by (simp add: server_wf_def)
  then have wf1: "server_wf (s\<lparr>cmd_buff := b[nat ret := NUL]\<rparr>)" "server_wf (s\<lparr>cmd_buff := b\<rparr>)"
    using wf by (simp_all add: server_wf_def)
  show ?thesis
  proof (cases "ret > 0")
    case True
    then show ?thesis
      using p r parseCommand_wf [OF wf1(1)]
      by (auto simp: processCommands_def Let_def split: sum.splits prod.splits)
  next
    case False
    then show ?thesis using p r wf1(2) by (simp add: processCommands_def)
  qed
qed

text \<open>What \<open>performIO\<close> does before it polls the cluster.\<close>

lemma take_input_wf:
  "server_wf s \<Longrightarrow> server_wf (s\<lparr>inQ := q, cluster := c\<rparr>)" "server_wf s \<Longrightarrow> server_wf (s\<lparr>inQ := q\<rparr>)"
  "server_wf s \<Longrightarrow> server_wf (s\<lparr>cluster := c\<rparr>)"
  by (simp_all add: server_wf_def)

definition performInput :: "'c icluster \<Rightarrow> 'c server \<Rightarrow> 'c server option" where
  "performInput C s = (if waits C (cluster s) \<and> inQ s = [] then None
     else if inQ s = [] then Some s
     else Some (s\<lparr>inQ := tl (inQ s), cluster := input C (hd (inQ s)) (cluster s)\<rparr>))"

lemma inQ_unchanged: "inQ s = [] \<Longrightarrow> s\<lparr>inQ := []\<rparr> = s"
  "inQ s = [] \<Longrightarrow> s\<lparr>inQ := [], cluster := c\<rparr> = s\<lparr>cluster := c\<rparr>"
  by (cases s; simp)+

lemma performIO_eq:
  "performIO C envs s =
    (case performInput C s of
       None \<Rightarrow> None
     | Some s1 \<Rightarrow>
         if cluster_id s > 0 then
           Server_writes (map (\<lambda>(k, i, t). (envs k, i, t)) (enumerate 0 (fst (polled C (cluster s1)))))
             (s1\<lparr>cluster := snd (polled C (cluster s1))\<rparr>) []
         else Some (Inr (s1, [])))"
  by (auto simp: performIO_def performInput_def BlockingQueue_pop_def BlockingQueue_popNoBlock_def
      inQ_unchanged split: list.splits prod.splits)

lemma performInput_wf:
  "performInput C s = Some s1 \<Longrightarrow> server_wf s \<Longrightarrow> server_wf s1 \<and> cluster_id s1 = cluster_id s"
  by (auto simp: performInput_def take_input_wf split: if_splits)

lemma performIO_wf:
  assumes "server_wf s" "\<forall>k. fresh_ok (envs k)" and p: "performIO C envs s = Some r"
  shows "\<exists>s' out. r = Inr (s', out) \<and> server_wf s' \<and> cluster_id s' = cluster_id s \<and>
    list_all (packet_ok (cluster_id s)) out \<and> (cluster_id s = 0 \<longrightarrow> out = [])"
proof -
  obtain s1 where s1: "performInput C s = Some s1" using p by (auto simp: performIO_eq split: option.splits)
  have wf1: "server_wf s1" "cluster_id s1 = cluster_id s" using performInput_wf [OF s1 assms(1)] by auto
  show ?thesis
  proof (cases "cluster_id s > 0")
    case True
    let ?ws = "map (\<lambda>(k, i, t). (envs k, i, t)) (enumerate 0 (fst (polled C (cluster s1))))"
    have "list_all (\<lambda>(env, i, t). fresh_ok env) ?ws"
      using assms(2) by (auto simp: list_all_iff)
    from Server_writes_wf [OF take_input_wf(3) [OF wf1(1)] this, of "snd (polled C (cluster s1))" "[]"]
    show ?thesis using p True wf1(2) by (auto simp: performIO_eq s1)
  next
    case False
    then show ?thesis using p wf1 by (auto simp: performIO_eq s1)
  qed
qed

section \<open>No impulse is lost\<close>

text \<open>The node indexes of a buffer, as a reader of it gets them.\<close>

definition nodes :: "timebuffer \<Rightarrow> int list" where
  "nodes tb = map fst (impulses tb)"

lemma nodes_eq: "nodes tb = map (\<lambda>k. uint (idx tb ! k)) [0..<unat (tbcount tb)]"
  by (simp add: nodes_def impulses_def)

lemma nodes_flushed [simp]: "nodes (tb_flushed d i t tb) = nodes tb"
  by (simp add: nodes_eq tb_flushed_def)

lemma nodes_init [simp]: "nodes (TimeBuffer_init i0 d0) = []"
  by (simp add: nodes_eq TimeBuffer_init_def)

lemma nodes_stored:
  assumes "filling tb" "unat (tbcount tb) < MAX_OUTPUT_NODES"
  shows "nodes (tb_stored i t tb) = nodes tb @ [uint (word_of_int i :: u16)]"
proof -
  have "unat (tbcount tb + 1) = Suc (unat (tbcount tb))" by (rule unat_count_Suc [OF assms(2)])
  then show ?thesis
    using assms by (simp add: nodes_eq tb_stored_def filling_def tb_wf_def)
qed

text \<open>
  The times of a server's calls: none before the buffer's, all within \<open>2^31\<close> microseconds after
  \<open>lo\<close>, and none the value that marks a buffer as not started.
\<close>

definition base_ok :: "Time \<Rightarrow> Time \<Rightarrow> timebuffer \<Rightarrow> bool" where
  "base_ok lo t tb \<longleftrightarrow> time_min < lo \<and> lo \<le> t \<and> t < lo + microseconds (2 ^ 31) \<and>
     (tbtime tb = time_min \<or> lo \<le> tbtime tb \<and> tbtime tb \<le> t)"

lemma base_ok_delta:
  assumes "base_ok lo t tb"
  shows "0 \<le> write_delta t tb"
proof (cases "tbtime tb = time_min")
  case False
  let ?d = "t - tbtime tb"
  have d: "0 \<le> ?d" "?d < microseconds (2 ^ 31)" using assms False by (auto simp: base_ok_def)
  then have "0 \<le> to_us ?d" "to_us ?d < 2 ^ 31" by (simp_all add: to_us_def sdiv_pos)
  then show ?thesis using False by (simp add: write_delta_def as_int32_id)
qed (simp add: write_delta_def)

lemma base_ok_stored:
  assumes "base_ok lo t tb" "t \<le> t'" "t' < lo + microseconds (2 ^ 31)"
  shows "base_ok lo t' (tb_stored i t tb)"
  using assms by (auto simp: base_ok_def tb_stored_def write_base_def)

lemma base_ok_init: "base_ok lo t tb \<Longrightarrow> base_ok lo t (TimeBuffer_init i0 d0)"
  by (auto simp: base_ok_def TimeBuffer_init_def)

lemma Server_write_nodes:
  assumes wf: "server_wf s" and fresh: "fresh_ok env" and base: "base_ok lo t (timeBuff s)"
    and t': "t \<le> t'" "t' < lo + microseconds (2 ^ 31)"
  shows "\<exists>s' out. Server_write env i t k s sent = Some (Inr (s', sent @ out)) \<and> server_wf s' \<and>
    concat (map (\<lambda>(dst, tb). nodes tb) out) @ nodes (timeBuff s') =
      nodes (timeBuff s) @ [uint (word_of_int i :: u16)] \<and>
    base_ok lo t' (timeBuff s')"
proof -
  obtain s1 out1 where w: "Server_write env i t k s sent = Some (Inr (s1, sent @ out1))" "server_wf s1"
    using Server_write_wf [OF wf fresh] by blast
  have fil: "filling (timeBuff s)" using wf by (simp add: server_wf_def)
  show ?thesis
  proof (cases rule: Server_write_cases [of t s env i k sent])
    case old
    then show ?thesis using base_ok_delta [OF base] by simp
  next
    case stored
    then show ?thesis
      using w nodes_stored [OF fil stored(3)] base_ok_stored [OF base t'] by auto
  next
    case (flushed d i0 d0)
    have "nodes (tb_stored i t (TimeBuffer_init i0 d0)) = [uint (word_of_int i :: u16)]"
      using nodes_stored [OF filling_init [OF fresh flushed(1)] init_not_full] by simp
    then show ?thesis
      using w flushed(4) base_ok_stored [OF base_ok_init [OF base] t'] by auto
  qed
qed

type_synonym write_call = "(nat \<Rightarrow> int \<times> u16 list \<times> u16 list) \<times> int \<times> Time"

definition call_ok :: "Time \<Rightarrow> write_call \<Rightarrow> bool" where
  "call_ok lo = (\<lambda>(env, i, t). fresh_ok env \<and> lo \<le> t \<and> t < lo + microseconds (2 ^ 31))"

definition call_time :: "write_call \<Rightarrow> Time" where
  "call_time = (\<lambda>(env, i, t). t)"

definition call_node :: "write_call \<Rightarrow> int" where
  "call_node = (\<lambda>(env, i, t). uint (word_of_int i :: u16))"

lemma base_ok_later:
  "base_ok lo t tb \<Longrightarrow> t \<le> t' \<Longrightarrow> t' < lo + microseconds (2 ^ 31) \<Longrightarrow> base_ok lo t' tb"
  by (auto simp: base_ok_def)

lemma Server_writes_nodes:
  assumes "server_wf s" "list_all (call_ok lo) ws" "sorted (map call_time ws)"
    and "ws \<noteq> [] \<Longrightarrow> base_ok lo (call_time (hd ws)) (timeBuff s)"
  shows "\<exists>s' out. Server_writes ws s sent = Some (Inr (s', sent @ out)) \<and>
    concat (map (\<lambda>(dst, tb). nodes tb) out) @ nodes (timeBuff s') = nodes (timeBuff s) @ map call_node ws"
  using assms
proof (induction ws arbitrary: s sent)
  case Nil
  then show ?case by simp
next
  case (Cons w ws)
  obtain env i t where w: "w = (env, i, t)" by (cases w)
  define t' where "t' = (case ws of [] \<Rightarrow> t | v # vs \<Rightarrow> call_time v)"
  have t': "t \<le> t'" "t' < lo + microseconds (2 ^ 31)"
    using Cons.prems(2,3) by (auto simp: t'_def w call_time_def call_ok_def split: list.splits)
  have c: "fresh_ok env" "base_ok lo t (timeBuff s)"
    using Cons.prems(2,4) by (auto simp: w call_ok_def call_time_def)
  obtain s1 out1 where 1: "Server_write env i t 0 s sent = Some (Inr (s1, sent @ out1))" "server_wf s1"
      "concat (map (\<lambda>(dst, tb). nodes tb) out1) @ nodes (timeBuff s1) =
        nodes (timeBuff s) @ [uint (word_of_int i :: u16)]"
      "base_ok lo t' (timeBuff s1)"
    using Server_write_nodes [OF Cons.prems(1) c t'] by blast
  have "ws \<noteq> [] \<Longrightarrow> base_ok lo (call_time (hd ws)) (timeBuff s1)"
    using 1(4) by (cases ws) (simp_all add: t'_def)
  then obtain s2 out2 where 2: "Server_writes ws s1 (sent @ out1) = Some (Inr (s2, (sent @ out1) @ out2))"
      "concat (map (\<lambda>(dst, tb). nodes tb) out2) @ nodes (timeBuff s2) = nodes (timeBuff s1) @ map call_node ws"
    using Cons.IH [OF 1(2), of "sent @ out1"] Cons.prems(2,3) by auto
  have "concat (map (\<lambda>(dst, tb). nodes tb) (out1 @ out2)) @ nodes (timeBuff s2) =
      nodes (timeBuff s) @ map call_node (w # ws)"
    using 1(3) 2(2) by (simp add: w call_node_def)
  then show ?case using 1(1) 2(1) by (intro exI [of _ s2] exI [of _ "out1 @ out2"]) (simp add: w)
qed

section \<open>Properties\<close>

definition test_cluster :: "unit icluster" where
  "test_cluster = \<lparr>command = (\<lambda>cmd c. (''NACK'', c)), input = (\<lambda>bb c. c),
     polled = (\<lambda>c. ([(5, 1000)], c)), waits = (\<lambda>c. False)\<rparr>"

definition example_peer :: sockaddr where
  "example_peer = \<lparr>s_addr = 0x0100007F, sin_port = 9000\<rparr>"

definition zeros :: "u16 list" where
  "zeros = replicate MAX_OUTPUT_NODES 0"

definition test_env :: "nat \<Rightarrow> int \<times> u16 list \<times> u16 list" where
  "test_env k = (0, zeros, zeros)"

definition test_server :: "unit server" where
  "test_server = Server_run_setup 0x0100007F 0x2823 7
     (Server_init () zeros zeros (replicate MAX_MSG_Q_SIZE sample_buffer) \<lparr>s_addr = 0, sin_port = 0\<rparr>
       \<lparr>s_addr = 0, sin_port = 0\<rparr> (replicate SERVER_BUFF NUL))"

lemma test_env_ok: "fresh_ok test_env"
  by (simp add: fresh_ok_def test_env_def zeros_def)

lemma test_server_wf: "server_wf test_server"
  unfolding test_server_def by (rule setup_wf) (simp_all add: zeros_def)

lemma test_server_time: "tbtime (timeBuff test_server) = time_min"
  "nodes (timeBuff test_server) = []" "cluster_id test_server = 7" "inQ test_server = []"
  "cluster test_server = ()"
  by (simp_all add: test_server_def Server_run_setup_def Server_init_def TimeBuffer_init_def nodes_eq)

lemma test_server_unit: "test_server\<lparr>cluster := ()\<rparr> = test_server"
  by (rule server.equality) simp_all

text \<open>The loop of \<open>write\<close> returns, whatever the state of the server, the impulse, the clock offsets
  and the memory it is given: it sends at most one buffer.
\<close>

theorem Server_write_returns:
  "\<exists>s' out. Server_write env i t 0 s [] = Some (Inr (s', out)) \<and> length out \<le> 1"
  by (cases rule: Server_write_cases [of t s env i 0 "[]"]) auto

text \<open>C1. No impulse is lost or reordered on its way into the packets.  When a cluster fires with times
  that do not decrease, within half an hour of each other, the node indexes in the packets
  sent, followed by those left in the buffer, are those that were in the buffer followed by the
  ones fired, cut to 16 bits.
\<close>

theorem Server_writes_lossless:
  assumes "server_wf s" and "list_all (call_ok lo) ws" and "sorted (map call_time ws)"
    and "ws \<noteq> []" and "base_ok lo (call_time (hd ws)) (timeBuff s)"
  shows "\<exists>s' out. Server_writes ws s [] = Some (Inr (s', out)) \<and>
    concat (map (\<lambda>(dst, tb). nodes tb) out) @ nodes (timeBuff s') = nodes (timeBuff s) @ map call_node ws"
  using Server_writes_nodes [OF assms(1-3), of "[]"] assms(5) by simp

theorem Server_writes_lossless_witness:
  "\<exists>s' out. Server_writes [(test_env, 9, 1000), (test_env, 3, 400000000)] test_server [] = Some (Inr (s', out)) \<and>
     concat (map (\<lambda>(dst, tb). nodes tb) out) @ nodes (timeBuff s') = [9, 3]"
proof -
  let ?ws = "[(test_env, 9, 1000), (test_env, 3, 400000000)]"
  have "list_all (call_ok 0) ?ws" "sorted (map call_time ?ws)"
    by (simp_all add: call_ok_def test_env_ok call_time_def)
  moreover have "base_ok 0 (call_time (hd ?ws)) (timeBuff test_server)"
    by (simp add: base_ok_def call_time_def test_server_time) (simp add: time_min_def)
  ultimately show ?thesis
    using Server_writes_lossless [OF test_server_wf, of 0 ?ws] by (simp add: test_server_time call_node_def)
qed

text \<open>A server sends only once it has an id, to the group of that id and nowhere else, and each of
  its packets carries its id and at least one impulse; polling its cluster keeps the id and the
  invariant of the server.
\<close>

theorem performIO_packets:
  assumes "server_wf s" and "\<forall>k. fresh_ok (envs k)" and "performIO C envs s = Some r"
  shows "\<exists>s' out. r = Inr (s', out) \<and> server_wf s' \<and> cluster_id s' = cluster_id s \<and>
    (cluster_id s = 0 \<longrightarrow> out = []) \<and>
    list_all (\<lambda>(dst, tb). dst = group_of (cluster_id s) \<and> srcId tb = cluster_id s \<and>
      0 < tb_sizeData tb \<and> tb_sizeData tb \<le> MAX_OUTPUT_NODES) out"
proof -
  obtain s' out where "r = Inr (s', out)" "server_wf s'" "cluster_id s' = cluster_id s"
      "list_all (packet_ok (cluster_id s)) out" "cluster_id s = 0 \<longrightarrow> out = []"
    using performIO_wf [OF assms] by blast
  then show ?thesis by (auto simp: packet_ok_def list_all_iff tb_wf_def tb_sizeData_def)
qed

theorem performIO_packets_witness:
  "\<exists>s' out. performIO test_cluster (\<lambda>k. test_env) test_server = Some (Inr (s', out)) \<and> cluster_id s' = 7"
proof -
  have "performIO test_cluster (\<lambda>k. test_env) test_server =
      Server_writes [(test_env, 5, 1000)] test_server []"
    by (simp add: performIO_eq performInput_def test_server_time test_cluster_def test_server_unit)
  also obtain s' out where "\<dots> = Some (Inr (s', out))"
    using Server_write_returns [of test_env 5 1000 test_server] by auto
  finally have p: "performIO test_cluster (\<lambda>k. test_env) test_server = Some (Inr (s', out))" .
  then show ?thesis
    using performIO_packets [OF test_server_wf _ p] by (auto simp: test_env_ok test_server_time)
qed

lemma parse_RUN:
  "parseCommand C junk ks servers (''RUN '' @ show_word i) s n =
     Inr (''ACK'', if cluster_id s \<noteq> i then
       s\<lparr>cluster_id := i, mCastGrp := (mCastGrp s)\<lparr>s_addr := ucast (idToMulticast i)\<rparr>\<rparr> else s, n, [])"
proof -
  have "get_word [] (istringstream (''RUN'' @ '' '' @ show_word i)) =
      (''RUN'', \<lparr>inp = '' '' @ show_word i, eofbit = False, failbit = False\<rparr>)"
    using word_field.get_put [of "''RUN''" "'' '' @ show_word i"]
    by (simp add: istringstream_def plain_word_def is_space_def less_eq_char_def)
  then show ?thesis by (simp add: parseCommand_def Let_def unsigned_field.get_last)
qed

lemma parse_CONNECT:
  "parseCommand C junk ks servers (''CONNECT '' @ show_word i) s n =
     (case subscribe servers (cluster_id s) i n of (n', reqs) \<Rightarrow> Inr (''ACK'', s, n', reqs))"
proof -
  have "get_word [] (istringstream (''CONNECT'' @ '' '' @ show_word i)) =
      (''CONNECT'', \<lparr>inp = '' '' @ show_word i, eofbit = False, failbit = False\<rparr>)"
    using word_field.get_put [of "''CONNECT''" "'' '' @ show_word i"]
    by (simp add: istringstream_def plain_word_def is_space_def less_eq_char_def)
  then show ?thesis by (simp add: parseCommand_def Let_def unsigned_field.get_last)
qed

lemma parse_DROP:
  "parseCommand C junk ks servers (''DROP '' @ show_word i) s n =
     (case unsubscribe ks servers (cluster_id s) i n of
        Inl e \<Rightarrow> Inl (Undefined e)
      | Inr (n', reqs) \<Rightarrow> Inr (''ACK'', s, n', reqs))"
proof -
  have "get_word [] (istringstream (''DROP'' @ '' '' @ show_word i)) =
      (''DROP'', \<lparr>inp = '' '' @ show_word i, eofbit = False, failbit = False\<rparr>)"
    using word_field.get_put [of "''DROP''" "'' '' @ show_word i"]
    by (simp add: istringstream_def plain_word_def is_space_def less_eq_char_def)
  then show ?thesis by (simp add: parseCommand_def Let_def unsigned_field.get_last)
qed

lemma processCommands_message:
  assumes "NUL \<notin> set msg" "length msg < SERVER_BUFF - 1" "length (cmd_buff s) = SERVER_BUFF"
  shows "\<exists>b. length b = SERVER_BUFF \<and>
    processCommands C junk ks servers (SelectReady (Received (msg @ [NUL]) a)) from0 s n =
      (case parseCommand C junk ks servers msg (s\<lparr>cmd_buff := b\<rparr>) n of
         Inl e \<Rightarrow> Inl e
       | Inr (reply, s2, n', reqs) \<Rightarrow>
           Inr (s2, n', reqs, if reply \<noteq> [] then [(a, reply @ [NUL])] else []))"
proof -
  let ?b = "(store (SERVER_BUFF - 1) (msg @ [NUL]) (cmd_buff s))[Suc (length msg) := NUL]"
  have "store (SERVER_BUFF - 1) (msg @ [NUL]) (cmd_buff s) = msg @ NUL # drop (Suc (length msg)) (cmd_buff s)"
    using assms by (simp add: store_def SERVER_BUFF_def)
  then have b: "?b = msg @ NUL # (drop (Suc (length msg)) (cmd_buff s))[0 := NUL]"
    by (simp add: list_update_append)
  have "c_string ?b = msg" unfolding b using assms(1) by (rule c_string_message)
  moreover have "length ?b = SERVER_BUFF" using assms by (simp add: SERVER_BUFF_def)
  moreover have "nat (1 + int (length msg)) = Suc (length msg)" by simp
  ultimately show ?thesis
    using assms(2)
    by (intro exI [of _ ?b])
      (simp add: processCommands_def ReadSelect_def Let_def SERVER_BUFF_def)
qed

text \<open>Whatever message arrives, a server that survives it sends to the group of the id it has then,
  and its command buffer keeps its size.
\<close>

theorem processCommands_keeps_group:
  assumes "server_wf s" and "processCommands C junk ks servers sel from0 s n = Inr (s', n', reqs, out)"
  shows "mCastGrp s' = group_of (cluster_id s') \<and> length (cmd_buff s') = SERVER_BUFF \<and> server_wf s'"
  using processCommands_wf [OF assms] by (simp add: server_wf_def)

theorem processCommands_keeps_group_witness:
  "\<exists>s' n' reqs out. processCommands test_cluster 0 [] [] (SelectReady (Received (''RUN 5'' @ [NUL]) example_peer)) example_peer
     test_server Network_init = Inr (s', n', reqs, out) \<and> mCastGrp s' = group_of 5"
proof -
  have show5: "show_word (5 :: ClusterID) = ''5''"
    by (simp add: show_word_def show_nat.simps char_of_def bit_0)
  have len: "length (cmd_buff test_server) = SERVER_BUFF" using test_server_wf by (simp add: server_wf_def)
  obtain b where "processCommands test_cluster 0 [] [] (SelectReady (Received (''RUN 5'' @ [NUL]) example_peer)) example_peer
      test_server Network_init =
      (case parseCommand test_cluster 0 [] [] ''RUN 5'' (test_server\<lparr>cmd_buff := b\<rparr>) Network_init of
         Inl e \<Rightarrow> Inl e
       | Inr (reply, s2, n', reqs) \<Rightarrow> Inr (s2, n', reqs, if reply \<noteq> [] then [(example_peer, reply @ [NUL])] else []))"
    using processCommands_message [of "''RUN 5''" test_server test_cluster 0 "[]" "[]" example_peer example_peer Network_init] len
    by (auto simp: SERVER_BUFF_def)
  then obtain s' n' reqs out where p: "processCommands test_cluster 0 [] [] (SelectReady (Received (''RUN 5'' @ [NUL]) example_peer)) example_peer
      test_server Network_init = Inr (s', n', reqs, out)" and i: "cluster_id s' = 5"
    using parse_RUN [of test_cluster 0 "[]" "[]" 5] by (simp add: show5 test_server_time)
  from processCommands_keeps_group [OF test_server_wf p] i p show ?thesis by auto
qed

text \<open>A server that changes its id on \<open>RUN\<close> leaves its connections behind: they stay filed under the
  old id, so once the routing table is rebuilt no packet of the cluster it had connected to
  reaches it, although the process has joined the group.
\<close>

theorem RUN_orphans_connections:
  assumes "parseCommand C junk ks servers (''CONNECT '' @ show_word r) s n = Inr (reply1, s1, n1, reqs1)"
    and "parseCommand C junk ks servers (''RUN '' @ show_word j) s1 n1 = Inr (reply2, s2, n2, reqs2)"
    and "j \<noteq> cluster_id s" "r \<notin> set (subs_of n j)" "\<forall>l. distinct (subs_of n l)"
    and "p < length servers"
    and "iterates ks' (subscriptions n2)"
    and "getSubscriptions ks' (servers[p := j]) n2 routes0 = (n3, routes1)"
  shows "cluster_id s2 = j \<and> r \<in> set (subs_of n3 (cluster_id s)) \<and> p \<notin> set (at_default [] routes1 r)"
proof -
  have n1: "n1 = fst (subscribe servers (cluster_id s) r n)" and s1: "s1 = s"
    using assms(1) unfolding parse_CONNECT by (auto split: prod.splits)
  have n2: "n2 = n1" and s2: "cluster_id s2 = j"
    using assms(2) unfolding parse_RUN by auto
  have dist: "\<forall>l. distinct (subs_of n2 l)"
    using assms(5) by (simp add: n2 n1 subscribe_subs)
  have "dirty n2" by (simp add: n2 n1 subscribe_dirty)
  then have g: "n3 = n2\<lparr>dirty := False\<rparr>" "routes1 = rebuild_subscribers ks' (servers[p := j]) n2"
    using assms(8) by (auto simp: getSubscriptions_def)
  have "r \<notin> set (subs_of n2 j)" using assms(3,4) by (simp add: n2 n1 subscribe_subs)
  then have "p \<notin> set (at_default [] routes1 r)"
    using rebuild_routes_ok [OF dist assms(7)] assms(6) by (simp add: g routes_ok_def)
  moreover have "r \<in> set (subs_of n2 (cluster_id s))" by (simp add: n2 n1 subscribe_subs)
  ultimately show ?thesis using s2 by (simp add: g)
qed

theorem RUN_orphans_connections_witness:
  "\<exists>routes. getSubscriptions [7] [9] (fst (subscribe [7] 7 3 Network_init)) Map.empty =
     ((fst (subscribe [7] 7 3 Network_init))\<lparr>dirty := False\<rparr>, routes) \<and> 0 \<notin> set (at_default [] routes 3)"
proof -
  let ?n = "fst (subscribe [7] 7 3 Network_init)" and ?reqs = "snd (subscribe [7] 7 3 Network_init)"
  obtain routes where g: "getSubscriptions [7] [9] ?n Map.empty = (?n\<lparr>dirty := False\<rparr>, routes)"
    by (simp add: getSubscriptions_def subscribe_dirty)
  have 1: "parseCommand test_cluster 0 [] [7] (''CONNECT '' @ show_word (3 :: ClusterID)) test_server Network_init =
      Inr (''ACK'', test_server, ?n, ?reqs)"
    unfolding parse_CONNECT by (simp add: test_server_time split: prod.splits)
  obtain s2 where 2: "parseCommand test_cluster 0 [] [7] (''RUN '' @ show_word (9 :: ClusterID)) test_server ?n =
      Inr (''ACK'', s2, ?n, [])"
    unfolding parse_RUN by simp
  have "iterates [7] (subscriptions ?n)"
    by (simp add: subscribe_def Network_init_def iterates_def Let_def touch_def)
  moreover have "3 \<notin> set (subs_of Network_init 9)" "\<forall>l. distinct (subs_of Network_init l)"
    by (simp_all add: Network_init_def)
  ultimately have "0 \<notin> set (at_default [] routes 3)"
    using RUN_orphans_connections [OF 1 2, of 0 "[7]" Map.empty "?n\<lparr>dirty := False\<rparr>" routes] g
    by (simp add: test_server_time)
  with g show ?thesis by blast
qed

end
