(* ===== verification/Main_Loop.thy ===== *)
theory Main_Loop
  imports Server
begin

text \<open>
  The dispatch loop of \<open>main.cpp\<close>: every thousandth turn it refreshes the routing table, then it
  reads one packet and hands it to the servers that subscribe to its cluster, and takes one
  buffer from the queue of each local server and does the same with it.  A \<open>Server*\<close> of the
  table is a position in the list of servers.
\<close>

section \<open>The loop\<close>

definition deliver :: "timebuffer \<Rightarrow> nat list \<Rightarrow> 'c server list \<Rightarrow> 'c server list" where
  "deliver tb js ss = fold (\<lambda>j ss. ss[j := (ss ! j)\<lparr>inQ := BlockingQueue_push tb (inQ (ss ! j))\<rparr>]) js ss"

record 'c process =
  servers :: "'c server list"
  pnet :: network
  subscribers :: "ClusterID \<rightharpoonup> nat list"

definition refresh_subscribers :: "nat \<Rightarrow> ClusterID list \<Rightarrow> 'c process \<Rightarrow> 'c process" where
  "refresh_subscribers i ks p =
    (if i mod 1000 = 0 then
       (case getSubscriptions ks (map cluster_id (servers p)) (pnet p) (subscribers p) of
          (n, subs) \<Rightarrow> p\<lparr>pnet := n, subscribers := subs\<rparr>)
     else p)"

text \<open>\<open>subscribers[id]\<close> enters an empty list for an unknown id.\<close>

definition forward :: "timebuffer \<Rightarrow> 'c process \<Rightarrow> 'c process" where
  "forward tb p = p\<lparr>subscribers := touch [] (subscribers p) (srcId tb),
     servers := deliver tb (at_default [] (subscribers p) (srcId tb)) (servers p)\<rparr>"

definition receive_packet :: "byte list \<Rightarrow> int \<Rightarrow> byte list \<Rightarrow> int \<Rightarrow> Time \<Rightarrow> timebuffer \<Rightarrow> 'c process \<Rightarrow> 'c process" where
  "receive_packet pad ret bytes d now fresh p =
    (case readVerify pad ret bytes d now fresh (pnet p) of
       (k, n, tb) \<Rightarrow> if k \<noteq> 0 then forward tb (p\<lparr>pnet := n\<rparr>) else p\<lparr>pnet := n\<rparr>)"

definition forward_local :: "nat \<Rightarrow> 'c process \<Rightarrow> 'c process" where
  "forward_local j p =
    (case FreeQueue_pop MAX_MSG_Q_SIZE (outQ (servers p ! j)) of
       (None, q) \<Rightarrow> p
     | (Some tb, q) \<Rightarrow> forward tb (p\<lparr>servers := (servers p)[j := (servers p ! j)\<lparr>outQ := q\<rparr>]\<rparr>))"

definition dispatch_round :: "nat \<Rightarrow> ClusterID list \<Rightarrow> byte list \<Rightarrow> int \<Rightarrow> byte list \<Rightarrow> int \<Rightarrow> Time \<Rightarrow> timebuffer \<Rightarrow>
    'c process \<Rightarrow> 'c process" where
  "dispatch_round i ks pad ret bytes d now fresh p =
    (let p1 = receive_packet pad ret bytes d now fresh (refresh_subscribers i ks p)
     in fold forward_local [0..<length (servers p1)] p1)"

section \<open>Delivery\<close>

lemma length_deliver [simp]: "length (deliver tb js ss) = length ss"
  by (induction js arbitrary: ss) (simp_all add: deliver_def)

lemma deliver_Cons:
  "deliver tb (j # js) ss = deliver tb js (ss[j := (ss ! j)\<lparr>inQ := inQ (ss ! j) @ [tb]\<rparr>])"
  by (simp add: deliver_def BlockingQueue_push_def)

lemma nth_deliver:
  "distinct js \<Longrightarrow> k < length ss \<Longrightarrow>
     deliver tb js ss ! k = (ss ! k)\<lparr>inQ := inQ (ss ! k) @ (if k \<in> set js then [tb] else [])\<rparr>"
proof (induction js arbitrary: ss)
  case Nil
  then show ?case by (simp add: deliver_def)
next
  case (Cons j js)
  then show ?case
    by (cases "k = j") (simp_all add: deliver_Cons)
qed

text \<open>Who a buffer goes to, by the table.\<close>

definition receives :: "'c process \<Rightarrow> nat \<Rightarrow> timebuffer \<Rightarrow> bool" where
  "receives p k tb \<longleftrightarrow> k \<in> set (at_default [] (subscribers p) (srcId tb))"

definition table_ok :: "'c process \<Rightarrow> bool" where
  "table_ok p \<longleftrightarrow> (\<forall>r. distinct (at_default [] (subscribers p) r))"

lemma forward_simps [simp]:
  "length (servers (forward tb p)) = length (servers p)"
  "pnet (forward tb p) = pnet p"
  "receives (forward tb p) = receives p"
  "table_ok (forward tb p) = table_ok p"
  by (simp_all add: forward_def receives_def table_ok_def fun_eq_iff)

lemma nth_forward:
  "table_ok p \<Longrightarrow> k < length (servers p) \<Longrightarrow>
     servers (forward tb p) ! k =
       (servers p ! k)\<lparr>inQ := inQ (servers p ! k) @ filter (receives p k) [tb]\<rparr>"
  by (simp add: forward_def nth_deliver table_ok_def receives_def)

text \<open>The oldest buffer of a server's queue, if it has one.\<close>

definition oldest :: "'c server \<Rightarrow> timebuffer list" where
  "oldest s = take 1 (fq_items MAX_MSG_Q_SIZE (outQ s))"

lemma oldest_inQ [simp]: "oldest (s\<lparr>inQ := q\<rparr>) = oldest s"
  by (simp add: oldest_def)

abbreviation out_ok :: "'c server \<Rightarrow> bool" where
  "out_ok s \<equiv> fq_invar MAX_MSG_Q_SIZE (outQ s)"

abbreviation out_items :: "'c server \<Rightarrow> timebuffer list" where
  "out_items s \<equiv> fq_items MAX_MSG_Q_SIZE (outQ s)"

definition after_pop :: "'c server \<Rightarrow> 'c server" where
  "after_pop s = s\<lparr>outQ := snd (FreeQueue_pop MAX_MSG_Q_SIZE (outQ s))\<rparr>"

lemma out_cases:
  assumes "out_ok s"
  obtains (empty) "oldest s = []" "out_items s = []" "FreeQueue_pop MAX_MSG_Q_SIZE (outQ s) = (None, outQ s)"
  | (filled) tb tbs q where "oldest s = [tb]" "out_items s = tb # tbs"
      "FreeQueue_pop MAX_MSG_Q_SIZE (outQ s) = (Some tb, q)" "fq_items MAX_MSG_Q_SIZE q = tbs"
      "fq_invar MAX_MSG_Q_SIZE q"
proof (cases rule: fq.pop_cases [OF assms])
  case 1
  then show ?thesis by (intro empty) (simp_all add: oldest_def)
next
  case (2 y ys q')
  then show ?thesis by (intro filled [of y ys q']) (simp_all add: oldest_def)
qed

lemma after_pop_simps [simp]:
  "inQ (after_pop s) = inQ s" "cluster_id (after_pop s) = cluster_id s"
  by (simp_all add: after_pop_def)

lemma after_pop_items: "out_ok s \<Longrightarrow> out_items (after_pop s) = tl (out_items s) \<and> out_ok (after_pop s)"
  by (cases s rule: out_cases) (simp_all add: after_pop_def)

lemma forward_local_eq:
  assumes "out_ok (servers p ! j)" "j < length (servers p)"
  shows "forward_local j p =
    fold forward (oldest (servers p ! j)) (p\<lparr>servers := (servers p)[j := after_pop (servers p ! j)]\<rparr>)"
  using assms(1)
proof (cases rule: out_cases)
  case empty
  then have "after_pop (servers p ! j) = servers p ! j" by (simp add: after_pop_def)
  with empty show ?thesis by (simp add: forward_local_def)
next
  case (filled tb tbs q)
  then show ?thesis by (simp add: forward_local_def after_pop_def)
qed

text \<open>
  One server's turn: every server gets that server's oldest buffer if it subscribes to it, and
  keeps everything else.
\<close>

lemma forward_local_nth:
  assumes "table_ok p" "out_ok (servers p ! j)" "j < length (servers p)" "k < length (servers p)"
  shows "servers (forward_local j p) ! k =
    (if k = j then after_pop (servers p ! k) else servers p ! k)
      \<lparr>inQ := inQ (servers p ! k) @ filter (receives p k) (oldest (servers p ! j))\<rparr>"
proof -
  let ?p = "p\<lparr>servers := (servers p)[j := after_pop (servers p ! j)]\<rparr>"
  have t: "table_ok ?p" "receives ?p = receives p"
    using assms(1) by (simp_all add: table_ok_def receives_def fun_eq_iff)
  have k: "servers ?p ! k = (if k = j then after_pop (servers p ! k) else servers p ! k)"
    using assms(4) by (simp add: nth_list_update)
  from assms(2) show ?thesis
  proof (cases rule: out_cases)
    case empty
    then show ?thesis using forward_local_eq [OF assms(2,3)] k by simp
  next
    case (filled tb tbs q)
    have "servers (forward tb ?p) ! k =
        (servers ?p ! k)\<lparr>inQ := inQ (servers ?p ! k) @ filter (receives ?p k) [tb]\<rparr>"
      using assms(4) by (intro nth_forward [OF t(1)]) simp
    then show ?thesis
      using forward_local_eq [OF assms(2,3)] filled(1) k t(2) by simp
  qed
qed

lemma forward_local_simps [simp]:
  "length (servers (forward_local j p)) = length (servers p)"
  "pnet (forward_local j p) = pnet p"
  "receives (forward_local j p) = receives p"
  "table_ok (forward_local j p) = table_ok p"
  by (auto simp: forward_local_def forward_def receives_def table_ok_def fun_eq_iff
      split: option.splits prod.splits)

lemma locals_nth:
  assumes "table_ok p" "list_all out_ok (servers p)" "m \<le> length (servers p)"
  shows "table_ok (fold forward_local [0..<m] p) \<and> receives (fold forward_local [0..<m] p) = receives p \<and>
    length (servers (fold forward_local [0..<m] p)) = length (servers p) \<and>
    (\<forall>k < length (servers p). servers (fold forward_local [0..<m] p) ! k =
      (if k < m then after_pop (servers p ! k) else servers p ! k)
        \<lparr>inQ := inQ (servers p ! k) @ filter (receives p k) (concat (map oldest (take m (servers p))))\<rparr>)"
  using assms(3)
proof (induction m)
  case 0
  then show ?case using assms(1) by simp
next
  case (Suc m)
  let ?p = "fold forward_local [0..<m] p"
  have m: "m < length (servers p)" using Suc.prems by simp
  have IH: "table_ok ?p" "receives ?p = receives p" "length (servers ?p) = length (servers p)"
      "\<And>k. k < length (servers p) \<Longrightarrow> servers ?p ! k = (if k < m then after_pop (servers p ! k) else servers p ! k)
        \<lparr>inQ := inQ (servers p ! k) @ filter (receives p k) (concat (map oldest (take m (servers p))))\<rparr>"
    using Suc by simp_all
  have out: "out_ok (servers ?p ! m)" using assms(2) m IH(4) [OF m] by (simp add: list_all_length)
  have old: "oldest (servers ?p ! m) = oldest (servers p ! m)" using IH(4) [OF m] by (simp add: oldest_def)
  have "servers (forward_local m ?p) ! k = (if k < Suc m then after_pop (servers p ! k) else servers p ! k)
        \<lparr>inQ := inQ (servers p ! k) @ filter (receives p k) (concat (map oldest (take (Suc m) (servers p))))\<rparr>"
    if "k < length (servers p)" for k
  proof -
    have "servers (forward_local m ?p) ! k = (if k = m then after_pop (servers ?p ! k) else servers ?p ! k)
        \<lparr>inQ := inQ (servers ?p ! k) @ filter (receives ?p k) (oldest (servers ?p ! m))\<rparr>"
      using IH(1,3) m that out by (intro forward_local_nth) simp_all
    then show ?thesis
      using IH(2) IH(4) [OF that] IH(4) [OF m] m
      by (cases "k = m") (simp_all add: take_Suc_conv_app_nth after_pop_def less_Suc_eq)
  qed
  then show ?case using IH(1-3) by simp
qed

section \<open>A turn of the loop\<close>

lemma refresh_keeps:
  "servers (refresh_subscribers i ks p) = servers p"
  "subs_of (pnet (refresh_subscribers i ks p)) = subs_of (pnet p)"
  by (auto simp: refresh_subscribers_def getSubscriptions_def fun_eq_iff split: prod.splits)

definition refresh_ok :: "nat \<Rightarrow> ClusterID list \<Rightarrow> 'c process \<Rightarrow> bool" where
  "refresh_ok i ks p =
    (if i mod 1000 = 0 \<and> dirty (pnet p)
     then (\<forall>l. distinct (subs_of (pnet p) l)) \<and> iterates ks (subscriptions (pnet p))
     else routes_ok (map cluster_id (servers p)) (pnet p) (subscribers p))"

lemma refresh_routes:
  assumes "refresh_ok i ks p"
  shows "routes_ok (map cluster_id (servers p)) (pnet p) (subscribers (refresh_subscribers i ks p))"
proof (cases "i mod 1000 = 0 \<and> dirty (pnet p)")
  case True
  then have "subscribers (refresh_subscribers i ks p) =
      rebuild_subscribers ks (map cluster_id (servers p)) (pnet p)"
    by (simp add: refresh_subscribers_def getSubscriptions_def)
  with True assms show ?thesis by (simp add: refresh_ok_def rebuild_routes_ok)
next
  case False
  then have "refresh_subscribers i ks p = p"
    by (auto simp: refresh_subscribers_def getSubscriptions_def)
  with False assms show ?thesis by (simp add: refresh_ok_def split: if_splits)
qed

lemma routes_receives:
  assumes "routes_ok (map cluster_id (servers p)) n (subscribers p)" "k < length (servers p)"
  shows "table_ok p" "receives p k = (\<lambda>tb. srcId tb \<in> set (subs_of n (cluster_id (servers p ! k))))"
  using assms by (auto simp: routes_ok_def table_ok_def receives_def fun_eq_iff)

text \<open>The packet a turn accepts, if any.\<close>

definition accepted_packet :: "byte list \<Rightarrow> int \<Rightarrow> byte list \<Rightarrow> int \<Rightarrow> Time \<Rightarrow> timebuffer \<Rightarrow> network \<Rightarrow> timebuffer list" where
  "accepted_packet pad ret bytes d now fresh n =
    (case readVerify pad ret bytes d now fresh n of (k, n', tb) \<Rightarrow> if k \<noteq> 0 then [tb] else [])"

lemma receive_packet_nth:
  assumes "table_ok p" "k < length (servers p)"
  shows "servers (receive_packet pad ret bytes d now fresh p) ! k = (servers p ! k)
      \<lparr>inQ := inQ (servers p ! k) @ filter (receives p k) (accepted_packet pad ret bytes d now fresh (pnet p))\<rparr>"
    "length (servers (receive_packet pad ret bytes d now fresh p)) = length (servers p)"
    "receives (receive_packet pad ret bytes d now fresh p) = receives p"
    "table_ok (receive_packet pad ret bytes d now fresh p)"
proof -
  obtain r n tb where r: "readVerify pad ret bytes d now fresh (pnet p) = (r, n, tb)"
    by (cases "readVerify pad ret bytes d now fresh (pnet p)")
  have t: "table_ok (p\<lparr>pnet := n\<rparr>)" "receives (p\<lparr>pnet := n\<rparr>) = receives p"
    using assms(1) by (simp_all add: table_ok_def receives_def fun_eq_iff)
  show "servers (receive_packet pad ret bytes d now fresh p) ! k = (servers p ! k)
      \<lparr>inQ := inQ (servers p ! k) @ filter (receives p k) (accepted_packet pad ret bytes d now fresh (pnet p))\<rparr>"
    using nth_forward [OF t(1), of k tb] assms(2) t(2)
    by (auto simp: receive_packet_def accepted_packet_def r)
  show "length (servers (receive_packet pad ret bytes d now fresh p)) = length (servers p)"
    "receives (receive_packet pad ret bytes d now fresh p) = receives p"
    "table_ok (receive_packet pad ret bytes d now fresh p)"
    using t by (simp_all add: receive_packet_def r)
qed

lemma table_from_routes: "routes_ok ids n (subscribers p) \<Longrightarrow> table_ok p"
  by (simp add: routes_ok_def table_ok_def)

text \<open>What a turn hands to server \<open>k\<close>, by the table it uses.\<close>

definition routed :: "nat \<Rightarrow> ClusterID list \<Rightarrow> byte list \<Rightarrow> int \<Rightarrow> byte list \<Rightarrow> int \<Rightarrow> Time \<Rightarrow> timebuffer \<Rightarrow>
    'c process \<Rightarrow> nat \<Rightarrow> timebuffer list" where
  "routed i ks pad ret bytes d now fresh p k = filter (receives (refresh_subscribers i ks p) k)
     (accepted_packet pad ret bytes d now fresh (pnet (refresh_subscribers i ks p)) @
      concat (map oldest (servers p)))"

lemma dispatch_round_routed:
  assumes "table_ok (refresh_subscribers i ks p)" and "list_all out_ok (servers p)" and "k < length (servers p)"
  shows "servers (dispatch_round i ks pad ret bytes d now fresh p) ! k =
    (after_pop (servers p ! k))\<lparr>inQ := inQ (servers p ! k) @ routed i ks pad ret bytes d now fresh p k\<rparr>"
proof -
  let ?p1 = "refresh_subscribers i ks p"
  let ?p2 = "receive_packet pad ret bytes d now fresh ?p1"
  note s1 = refresh_keeps(1) [of i ks p]
  have k1: "k < length (servers ?p1)" using assms(3) by (simp add: s1)
  note r2 = receive_packet_nth [OF assms(1), where pad = pad and ret = ret and bytes = bytes and d = d
      and now = now and fresh = fresh]
  have len: "length (servers ?p2) = length (servers p)" using r2(2) [OF k1] by (simp add: s1)
  have each: "servers ?p2 ! j = (servers p ! j)
      \<lparr>inQ := inQ (servers p ! j) @ filter (receives ?p1 j) (accepted_packet pad ret bytes d now fresh (pnet ?p1))\<rparr>"
    if "j < length (servers p)" for j
    using r2(1) [of j] that by (simp add: s1)
  have out2: "list_all out_ok (servers ?p2)"
    using assms(2) by (simp add: list_all_length len each)
  have old: "map oldest (servers ?p2) = map oldest (servers p)"
    by (rule nth_equalityI) (simp_all add: len each oldest_def)
  show ?thesis
    using locals_nth [OF r2(4) [OF k1] out2, of "length (servers ?p2)"] assms(3)
    unfolding dispatch_round_def Let_def routed_def
    by (simp add: len each old r2(3) [OF k1] s1 after_pop_def)
qed

lemma dispatch_round_nth:
  assumes "refresh_ok i ks p" and "list_all out_ok (servers p)" and "k < length (servers p)"
  shows "servers (dispatch_round i ks pad ret bytes d now fresh p) ! k = (after_pop (servers p ! k))
    \<lparr>inQ := inQ (servers p ! k) @
      filter (\<lambda>tb. srcId tb \<in> set (subs_of (pnet p) (cluster_id (servers p ! k))))
        (accepted_packet pad ret bytes d now fresh (pnet (refresh_subscribers i ks p)) @
         concat (map oldest (servers p)))\<rparr>"
proof -
  let ?p1 = "refresh_subscribers i ks p"
  note s1 = refresh_keeps(1) [of i ks p]
  have routes: "routes_ok (map cluster_id (servers ?p1)) (pnet p) (subscribers ?p1)"
    using refresh_routes [OF assms(1)] by (simp add: s1)
  have "k < length (servers ?p1)" using assms(3) by (simp add: s1)
  note rec = routes_receives [OF routes this]
  show ?thesis
    using dispatch_round_routed [OF table_from_routes [OF routes] assms(2,3)] by (simp add: routed_def rec(2) s1)
qed

section \<open>Properties\<close>

text \<open>C10. One turn of the dispatch loop, with a routing table that is up to date or rebuilt in the turn:
  every server gets, at the end of its input queue, the accepted packet and then the oldest
  buffer of each local server in order, of these exactly the ones its cluster subscribes to;
  each of these buffers leaves the queue it was in, and nothing else changes.
\<close>

theorem dispatch_round_delivers:
  assumes "refresh_ok i ks p" and "list_all out_ok (servers p)" and "k < length (servers p)"
  shows "servers (dispatch_round i ks pad ret bytes d now fresh p) ! k = (after_pop (servers p ! k))
    \<lparr>inQ := inQ (servers p ! k) @
      filter (\<lambda>tb. srcId tb \<in> set (subs_of (pnet p) (cluster_id (servers p ! k))))
        (accepted_packet pad ret bytes d now fresh (pnet (refresh_subscribers i ks p)) @
         concat (map oldest (servers p)))\<rparr>"
  by (rule dispatch_round_nth [OF assms])

definition sample_process :: "unit process" where
  "sample_process =
    \<lparr>servers = [test_server\<lparr>outQ := snd (FreeQueue_push MAX_MSG_Q_SIZE sample_buffer (outQ test_server))\<rparr>,
                test_server\<lparr>cluster_id := 9\<rparr>],
     pnet = fst (subscribe [7, 9] 9 7 Network_init), subscribers = Map.empty\<rparr>"

lemma test_server_out: "out_ok test_server" "out_items test_server = []"
  using test_server_wf fq_init_items [of "replicate MAX_MSG_Q_SIZE sample_buffer" MAX_MSG_Q_SIZE]
  by (simp_all add: server_wf_def test_server_def Server_run_setup_def Server_init_def MAX_MSG_Q_SIZE_def)

lemma push_empty:
  assumes "out_ok s" "out_items s = []"
  obtains q where "FreeQueue_push MAX_MSG_Q_SIZE tb (outQ s) = (True, q)" "fq_items MAX_MSG_Q_SIZE q = [tb]"
    "fq_invar MAX_MSG_Q_SIZE q"
proof -
  have "fq_count MAX_MSG_Q_SIZE (outQ s) = 0" using assms(2) by (metis length_fq_items list.size(3))
  then have "fq_count MAX_MSG_Q_SIZE (outQ s) < MAX_MSG_Q_SIZE - 1" by (simp add: MAX_MSG_Q_SIZE_def)
  then show ?thesis using FreeQueue_push_room [OF assms(1), of tb] assms(2) that by auto
qed

theorem dispatch_round_delivers_witness:
  "inQ (servers (dispatch_round 0 [9] [] 0 [] 0 0 sample_buffer sample_process) ! 1) = [sample_buffer]"
proof -
  obtain q where q: "FreeQueue_push MAX_MSG_Q_SIZE sample_buffer (outQ test_server) = (True, q)"
      "fq_items MAX_MSG_Q_SIZE q = [sample_buffer]" "fq_invar MAX_MSG_Q_SIZE q"
    by (rule push_empty [OF test_server_out])
  have n: "pnet sample_process = \<lparr>dirty = True, subscriptions = [9 \<mapsto> [7]], sequences = Map.empty\<rparr>"
    by (simp add: sample_process_def subscribe_def Let_def Network_init_def touch_def)
  have s: "servers sample_process = [test_server\<lparr>outQ := q\<rparr>, test_server\<lparr>cluster_id := 9\<rparr>]"
    by (simp add: sample_process_def q)
  have r: "refresh_ok 0 [9] sample_process" by (simp add: refresh_ok_def n iterates_def at_default_def)
  have o: "list_all out_ok (servers sample_process)" using q test_server_out by (simp add: s)
  have "concat (map oldest (servers sample_process)) = [sample_buffer]"
    using q test_server_out by (simp add: s oldest_def)
  moreover have "srcId sample_buffer = 7" by (simp add: sample_buffer_def)
  ultimately show ?thesis
    using dispatch_round_delivers [OF r o, of 1 "[]" 0 "[]" 0 0 sample_buffer]
    by (simp add: s n accepted_packet_def readVerify_def test_server_time)
qed

text \<open>A local subscriber gets the buffer in network time: the queue shares the object whose time
  \<open>TimeBuffer::write\<close> has converted for the packet, and nothing converts it back.  All times
  are off by the clock offset.
\<close>

theorem local_delivery_not_converted:
  assumes "Server_write env i t 0 s [] = Some (Inr (s', [(dst, tb)]))"
    and "out_ok s" and "out_items s = []" and "tbtime (timeBuff s) \<noteq> time_min"
  shows "oldest s' = [tb] \<and>
    impulses tb = map (\<lambda>(n, x). (n, x - microseconds (fst (env 0)))) (impulses (timeBuff s))"
proof (cases rule: Server_write_cases [of t s env i 0 "[]"])
  case (flushed d i0 d0)
  obtain q where q: "FreeQueue_push MAX_MSG_Q_SIZE tb (outQ s) = (True, q)"
      "fq_items MAX_MSG_Q_SIZE q = [tb]"
    by (rule push_empty [OF assms(2,3)])
  have tb: "tb = tb_flushed d (cluster_id s) t (timeBuff s)" and s': "outQ s' = q"
    using flushed(4) assms(1) q(1) by auto
  have "impulses tb = map (\<lambda>(n, x). (n, x - microseconds d)) (impulses (timeBuff s))"
    using assms(4) by (simp add: tb tb_flushed_def impulses_def write_base_def toNetwork_def)
  then show ?thesis using q(2) s' flushed(1) by (simp add: oldest_def)
qed (use assms(1) in auto)

theorem local_delivery_not_converted_witness:
  "\<exists>s' dst tb. Server_write (\<lambda>k. (8, zeros, zeros)) 2 40005000 0 (test_server\<lparr>timeBuff := sample_buffer\<rparr>) [] =
     Some (Inr (s', [(dst, tb)])) \<and> oldest s' = [tb] \<and> impulses tb = [(3, - 3000)]"
proof -
  let ?s = "test_server\<lparr>timeBuff := sample_buffer\<rparr>"
  have "to_us (40005000 - 5000) = 40000" by (simp add: to_us_def)
  then have dl: "write_delta 40005000 (timeBuff ?s) = 40000"
    by (simp add: write_delta_def sample_buffer_def time_min_def as_int32_id)
  obtain s' dst tb where w: "Server_write (\<lambda>k. (8, zeros, zeros)) 2 40005000 0 ?s [] = Some (Inr (s', [(dst, tb)]))"
    using Server_write_refused [of 40005000 ?s "\<lambda>k. (8, zeros, zeros)" 0 8 zeros zeros 2 "[]"] dl
    by (auto simp: Let_def)
  have "impulses sample_buffer = [(3, 5000)]"
    by (simp add: impulses_def sample_buffer_def MAX_OUTPUT_NODES_def as_int16_def)
  moreover have "tbtime sample_buffer \<noteq> time_min" by (simp add: sample_buffer_def time_min_def)
  ultimately show ?thesis
    using local_delivery_not_converted [OF w] w test_server_out by auto
qed

end
