(* ===== verification/Delivery.thy ===== *)
theory Delivery
  imports Main_Loop
begin

text \<open>
  The way of an impulse from host to host, through \<open>Server::write\<close>, the bytes of the buffer, the
  multicast socket and the dispatch loop of the receiving process (\<open>server.cpp\<close>,
  \<open>lib/timebuff.h\<close>, \<open>network.cpp\<close>, \<open>main.cpp\<close>).
\<close>

lemma refresh_last_seen: "last_seen (pnet (refresh_subscribers i ks p)) = last_seen (pnet p)"
  by (auto simp: refresh_subscribers_def getSubscriptions_def fun_eq_iff split: prod.splits)

text \<open>
  What of a buffer arrives, for an object with any even number of padding bytes: the header, the node
  indexes if there are at least half as many as padding bytes, and of the time offsets only those that
  lie within the bytes sent.
\<close>

lemma datagram_arrives:
  assumes "tb_wf tb" "tb_wf tb0" "in_clock (tbtime tb)"
    and "length pad = length pad0" "even (length pad)" "length pad \<le> 2 * tb_sizeData tb"
  defines "r \<equiv> tb_received pad0 (tb_sent pad tb) tb0"
  shows "nodes r = nodes tb" "tbtime r = tbtime tb" "tbcount r = tbcount tb" "srcId r = srcId tb"
    "\<And>j. j < MAX_OUTPUT_NODES \<Longrightarrow>
      dt r ! j = (if j + MAX_OUTPUT_NODES < 2 * tb_sizeData tb - length pad div 2 then dt tb ! j else dt tb0 ! j)"
proof -
  let ?m = "2 * tb_sizeData tb - length pad div 2"
  have r: "r = tb_overlay ?m tb tb0"
    using tb_received_sent [OF assms(1-5)] assms(6) by (simp add: r_def tb_sizeData_def)
  then show f: "tbtime r = tbtime tb" "tbcount r = tbcount tb" "srcId r = srcId tb"
    by (simp_all add: tb_overlay_def Let_def)
  have c: "tb_sizeData tb \<le> MAX_OUTPUT_NODES" using assms(1) by (simp add: tb_wf_def tb_sizeData_def)
  have "idx r ! j = idx tb ! j" if "j < tb_sizeData tb" for j
    using overlay_idx [OF assms(1,2), of j ?m] that c assms(6) by (auto simp: r)
  then show "nodes r = nodes tb" unfolding nodes_eq f(2) by (simp add: tb_sizeData_def)
  show "dt r ! j = (if j + MAX_OUTPUT_NODES < ?m then dt tb ! j else dt tb0 ! j)" if "j < MAX_OUTPUT_NODES" for j
    unfolding r by (rule overlay_dt [OF assms(1,2) that])
qed

lemma nodes_of_datagram:
  assumes "tb_wf tb" "tb_wf tb0" "in_clock (tbtime tb)"
  shows "nodes (tb_received [] (tb_sent [] tb) tb0) = nodes tb"
    "tbtime (tb_received [] (tb_sent [] tb) tb0) = tbtime tb"
    "tbcount (tb_received [] (tb_sent [] tb) tb0) = tbcount tb"
    "srcId (tb_received [] (tb_sent [] tb) tb0) = srcId tb"
  using datagram_arrives [OF assms, of "[]" "[]"] by simp_all

lemma padded_accepted:
  assumes "tb_wf tb" "tb_wf tb0" "in_clock (tbtime tb)"
    and "length pad = length pad0" "even (length pad)" "length pad \<le> 2 * tb_sizeData tb"
    and "0 < tb_sizeData tb" "ret > 0"
    and "now \<le> toLocal d (tbtime tb) + milliseconds PACKET_LIFE_TIME_MS"
    and "last_seen n (srcId tb) \<le> toLocal d (tbtime tb)"
  shows "accepted_packet pad0 ret (tb_sent pad tb) d now tb0 n = [prepareRead d (tb_received pad0 (tb_sent pad tb) tb0)]"
  using assms(7-10) datagram_arrives(2-4) [OF assms(1-6)]
  by (simp add: accepted_packet_def readVerify_def Multicast_read_def verify_def prepareRead_def tb_sizeData_def
      Let_def not_less)

lemma datagram_accepted:
  assumes "tb_wf tb" "tb_wf tb0" "in_clock (tbtime tb)" "0 < tb_sizeData tb" "ret > 0"
    and "now \<le> toLocal d (tbtime tb) + milliseconds PACKET_LIFE_TIME_MS"
    and "last_seen n (srcId tb) \<le> toLocal d (tbtime tb)"
  shows "accepted_packet [] ret (tb_sent [] tb) d now tb0 n = [prepareRead d (tb_received [] (tb_sent [] tb) tb0)]"
  using padded_accepted [OF assms(1-3), of "[]" "[]"] assms(4-7) by simp

text \<open>The filter lets equal times pass: a datagram that arrives twice within its life time is accepted
  twice, so its impulses are delivered twice.
\<close>

theorem duplicate_accepted:
  assumes "tb_wf tb" and "tb_wf tb0" and "tb_wf tb1" and "in_clock (tbtime tb)" and "0 < tb_sizeData tb" and "ret > 0"
    and "now \<le> toLocal d (tbtime tb) + milliseconds PACKET_LIFE_TIME_MS"
    and "now1 \<le> toLocal d (tbtime tb) + milliseconds PACKET_LIFE_TIME_MS"
    and "last_seen n (srcId tb) \<le> toLocal d (tbtime tb)"
    and "readVerify [] ret (tb_sent [] tb) d now tb0 n = (k, n1, bb)"
  shows "\<exists>a b. accepted_packet [] ret (tb_sent [] tb) d now tb0 n = [a] \<and>
    accepted_packet [] ret (tb_sent [] tb) d now1 tb1 n1 = [b] \<and> nodes a = nodes tb \<and> nodes b = nodes tb"
proof -
  note same = nodes_of_datagram [OF assms(1,2,4)] and same1 = nodes_of_datagram [OF assms(1,3,4)]
  have a: "accepted_packet [] ret (tb_sent [] tb) d now tb0 n = [prepareRead d (tb_received [] (tb_sent [] tb) tb0)]"
    by (rule datagram_accepted [OF assms(1,2,4-7,9)])
  then have bb: "bb = prepareRead d (tb_received [] (tb_sent [] tb) tb0)" "k \<noteq> 0"
    using assms(10) by (auto simp: accepted_packet_def split: if_splits)
  have "verify d now (tb_received [] (tb_sent [] tb) tb0) n = (k, n1, bb)"
    using assms(6,10) by (simp add: readVerify_def Multicast_read_def)
  then have "last_seen n1 (srcId tb) = toLocal d (tbtime tb)"
    using bb(2) by (cases rule: verify_cases) (simp_all add: bb(1) same prepareRead_def)
  then have "accepted_packet [] ret (tb_sent [] tb) d now1 tb1 n1 = [prepareRead d (tb_received [] (tb_sent [] tb) tb1)]"
    by (intro datagram_accepted [OF assms(1,3,4-6,8)]) simp
  with a show ?thesis using same(1) same1(1) by (simp add: prepareRead_def nodes_eq)
qed


text \<open>The example: a server that sends its first buffer, and a process whose server 9 listens to it.\<close>

definition sending_server :: "unit server" where
  "sending_server = test_server\<lparr>timeBuff := sample_buffer\<rparr>"

definition late_cluster :: "unit icluster" where
  "late_cluster = test_cluster\<lparr>polled := (\<lambda>c. ([(2, 40005000)], c))\<rparr>"

lemma sending_server_wf: "server_wf sending_server"
  using test_server_wf by (simp add: sending_server_def server_wf_def filling_def) (simp add: sample_buffer_def)

lemma late_poll:
  "\<exists>s'. performIO late_cluster (\<lambda>j. test_env) sending_server =
     Some (Inr (s', [(mCastGrp test_server, tb_flushed 0 7 40005000 sample_buffer)]))"
proof -
  have "to_us (40005000 - 5000) = 40000" by (simp add: to_us_def)
  then have dl: "write_delta 40005000 sample_buffer = 40000"
    by (simp add: write_delta_def sample_buffer_def time_min_def as_int32_id)
  have "performIO late_cluster (\<lambda>j. test_env) sending_server = Server_writes [(test_env, 2, 40005000)] sending_server []"
    by (simp add: performIO_eq performInput_def late_cluster_def sending_server_def test_cluster_def test_server_time)
      (simp add: test_server_def Server_run_setup_def Server_init_def)
  then show ?thesis
    using Server_write_refused [of 40005000 sending_server test_env 0 0 zeros zeros 2 "[]"] dl
    by (simp add: sending_server_def test_env_def test_server_time Let_def)
qed


end
