(* ===== verification/Process_Run.thy ===== *)
theory Process_Run
  imports Main_Loop
begin

text \<open>
  A whole server process (\<open>main.cpp\<close>): the dispatch loop and the threads of its servers,
  interleaved in any way.  A step is a turn of the dispatch loop, a command handled by one server,
  or a poll of one cluster; the operations on shared data inside a step are those shown to be
  atomic or race free in \<open>Block_Queue\<close>, \<open>Free_Queue_Threads\<close> and \<open>Spin_Lock\<close>.  Every server has a
  plug-in of its own.
\<close>

section \<open>Steps\<close>

inductive server_step :: "(nat \<Rightarrow> 'c icluster) \<Rightarrow> 'c process \<Rightarrow> 'c process \<Rightarrow> bool" for Cs where
  commanded: "k < length (servers p) \<Longrightarrow>
     iterates ks (touch [] (subscriptions (pnet p)) (cluster_id (servers p ! k))) \<Longrightarrow>
     processCommands (Cs k) junk ks (map cluster_id (servers p)) sel from0 (servers p ! k) (pnet p) =
       Inr (s, n, reqs, out) \<Longrightarrow>
     server_step Cs p (p\<lparr>servers := (servers p)[k := s], pnet := n\<rparr>)"
| polling: "k < length (servers p) \<Longrightarrow> \<forall>j. fresh_ok (envs j) \<Longrightarrow>
     performIO (Cs k) envs (servers p ! k) = Some (Inr (s, out)) \<Longrightarrow>
     server_step Cs p (p\<lparr>servers := (servers p)[k := s]\<rparr>)"

inductive process_step :: "(nat \<Rightarrow> 'c icluster) \<Rightarrow> 'c process \<Rightarrow> 'c process \<Rightarrow> bool" for Cs where
  dispatch: "iterates ks (subscriptions (pnet p)) \<Longrightarrow>
     process_step Cs p (dispatch_round i ks pad ret bytes d now fresh p)"
| serve: "server_step Cs p q \<Longrightarrow> process_step Cs p q"

inductive_cases server_stepE [consumes 1, case_names commanded polling]: "server_step Cs p q"
inductive_cases process_stepE [consumes 1, case_names dispatch serve]: "process_step Cs p q"

definition process_init :: "'c server list \<Rightarrow> 'c process" where
  "process_init ss = \<lparr>servers = ss, pnet = Network_init, subscribers = Map.empty\<rparr>"

abbreviation process_reaches :: "(nat \<Rightarrow> 'c icluster) \<Rightarrow> 'c process \<Rightarrow> 'c process \<Rightarrow> bool" where
  "process_reaches Cs \<equiv> (process_step Cs)\<^sup>*\<^sup>*"

section \<open>Invariant\<close>

text \<open>
  Every server is well formed; nobody subscribes twice; the table holds positions of existing
  servers; and unless the network is dirty the table is that of some assignment of ids, the one at
  the time it was built.
\<close>

abbreviation table :: "'c process \<Rightarrow> ClusterID \<Rightarrow> nat list" where
  "table p \<equiv> at_default [] (subscribers p)"

definition table_invar :: "nat \<Rightarrow> network \<Rightarrow> (ClusterID \<Rightarrow> nat list) \<Rightarrow> bool" where
  "table_invar m n t \<longleftrightarrow> (\<forall>r. distinct (t r) \<and> set (t r) \<subseteq> {..<m}) \<and>
     (\<not> dirty n \<longrightarrow> (\<exists>ids. length ids = m \<and> (\<forall>r. set (t r) = {k. k < m \<and> r \<in> set (subs_of n (ids ! k))})))"

definition process_invar :: "'c process \<Rightarrow> bool" where
  "process_invar p \<longleftrightarrow> list_all server_wf (servers p) \<and> (\<forall>l. distinct (subs_of (pnet p) l)) \<and>
     table_invar (length (servers p)) (pnet p) (table p)"

subsection \<open>A turn of the dispatch loop\<close>

lemma deliver_wf: "list_all server_wf ss \<Longrightarrow> list_all server_wf (deliver tb js ss)"
proof (induction js arbitrary: ss)
  case Nil
  then show ?case by (simp add: deliver_def)
next
  case (Cons j js)
  have "list_all server_wf (ss[j := (ss ! j)\<lparr>inQ := inQ (ss ! j) @ [tb]\<rparr>])"
    using Cons.prems take_input_wf(2)
    by (cases "j < length ss") (auto simp: list_all_length nth_list_update list_update_beyond)
  from Cons.IH [OF this] show ?case by (simp add: deliver_Cons)
qed

lemma forward_keeps:
  "list_all server_wf (servers p) \<Longrightarrow> list_all server_wf (servers (forward tb p))"
  "table (forward tb p) = table p"
  by (simp_all add: forward_def deliver_wf fun_eq_iff)

lemma after_pop_wf: "server_wf s \<Longrightarrow> server_wf (after_pop s)"
  using after_pop_items [of s] by (simp add: server_wf_def) (simp add: after_pop_def)

lemma forward_local_keeps:
  assumes "list_all server_wf (servers p)" "j < length (servers p)"
  shows "list_all server_wf (servers (forward_local j p))" "table (forward_local j p) = table p"
proof -
  let ?p = "p\<lparr>servers := (servers p)[j := after_pop (servers p ! j)]\<rparr>"
  have "out_ok (servers p ! j)" using assms by (simp add: list_all_length server_wf_def)
  then have eq: "forward_local j p = fold forward (oldest (servers p ! j)) ?p"
    using assms(2) by (rule forward_local_eq)
  have wf: "list_all server_wf (servers ?p)"
    using assms by (auto simp: list_all_length nth_list_update after_pop_wf)
  have fold: "list_all server_wf (servers (fold forward tbs q)) \<and> table (fold forward tbs q) = table q"
    if "list_all server_wf (servers q)" for tbs and q :: "'a process"
    using that by (induction tbs arbitrary: q) (simp_all add: forward_keeps)
  show "list_all server_wf (servers (forward_local j p))" "table (forward_local j p) = table p"
    using fold [OF wf] by (simp_all add: eq)
qed

lemma locals_keep:
  assumes "list_all server_wf (servers p)" "m \<le> length (servers p)"
  shows "list_all server_wf (servers (fold forward_local [0..<m] p)) \<and>
    table (fold forward_local [0..<m] p) = table p \<and> pnet (fold forward_local [0..<m] p) = pnet p \<and>
    length (servers (fold forward_local [0..<m] p)) = length (servers p)"
  using assms(2)
proof (induction m)
  case 0
  then show ?case using assms(1) by simp
next
  case (Suc m)
  then show ?case by (simp add: forward_local_keeps)
qed

lemma receive_keeps:
  "list_all server_wf (servers p) \<Longrightarrow> list_all server_wf (servers (receive_packet pad ret bytes d now fresh p))"
  "table (receive_packet pad ret bytes d now fresh p) = table p"
  "length (servers (receive_packet pad ret bytes d now fresh p)) = length (servers p)"
  "subs_of (pnet (receive_packet pad ret bytes d now fresh p)) = subs_of (pnet p)"
  "dirty (pnet (receive_packet pad ret bytes d now fresh p)) = dirty (pnet p)"
proof -
  obtain k n tb where r: "readVerify pad ret bytes d now fresh (pnet p) = (k, n, tb)"
    by (cases "readVerify pad ret bytes d now fresh (pnet p)")
  note frame = readVerify_frame [OF r]
  show "list_all server_wf (servers p) \<Longrightarrow> list_all server_wf (servers (receive_packet pad ret bytes d now fresh p))"
    "table (receive_packet pad ret bytes d now fresh p) = table p"
    "length (servers (receive_packet pad ret bytes d now fresh p)) = length (servers p)"
    "subs_of (pnet (receive_packet pad ret bytes d now fresh p)) = subs_of (pnet p)"
    "dirty (pnet (receive_packet pad ret bytes d now fresh p)) = dirty (pnet p)"
    using frame by (simp_all add: receive_packet_def r forward_keeps)
qed

lemma refresh_invar:
  assumes "process_invar p" "iterates ks (subscriptions (pnet p))"
  shows "process_invar (refresh_subscribers i ks p)"
proof (cases "i mod 1000 = 0 \<and> dirty (pnet p)")
  case True
  let ?ids = "map cluster_id (servers p)"
  have p': "refresh_subscribers i ks p = p\<lparr>pnet := (pnet p)\<lparr>dirty := False\<rparr>, subscribers := rebuild_subscribers ks ?ids (pnet p)\<rparr>"
    using True by (simp add: refresh_subscribers_def getSubscriptions_def)
  have "routes_ok ?ids (pnet p) (rebuild_subscribers ks ?ids (pnet p))"
    using assms by (intro rebuild_routes_ok) (simp_all add: process_invar_def)
  then show ?thesis
    using assms(1) unfolding p' process_invar_def table_invar_def routes_ok_def
    by (auto intro!: exI [of _ ?ids])
next
  case False
  then have "refresh_subscribers i ks p = p" by (auto simp: refresh_subscribers_def getSubscriptions_def)
  then show ?thesis using assms(1) by simp
qed

text \<open>After the table was refreshed, a turn changes no more than the servers and the times of the
  packets accepted.\<close>

lemma dispatch_keeps:
  assumes "list_all server_wf (servers p)"
  shows "list_all server_wf (servers (dispatch_round i ks pad ret bytes d now fresh p)) \<and>
    table (dispatch_round i ks pad ret bytes d now fresh p) = table (refresh_subscribers i ks p) \<and>
    subs_of (pnet (dispatch_round i ks pad ret bytes d now fresh p)) = subs_of (pnet p) \<and>
    dirty (pnet (dispatch_round i ks pad ret bytes d now fresh p)) = dirty (pnet (refresh_subscribers i ks p)) \<and>
    length (servers (dispatch_round i ks pad ret bytes d now fresh p)) = length (servers p)"
proof -
  let ?p1 = "refresh_subscribers i ks p"
  have "list_all server_wf (servers ?p1)" using assms by (simp add: refresh_keeps)
  note wf = receive_keeps(1) [OF this]
  show ?thesis
    using locals_keep [OF wf order_refl] unfolding dispatch_round_def Let_def
    by (simp add: receive_keeps(2-5) refresh_keeps)
qed

lemma dispatch_invar:
  assumes "process_invar p" "iterates ks (subscriptions (pnet p))"
  shows "process_invar (dispatch_round i ks pad ret bytes d now fresh p)"
    "length (servers (dispatch_round i ks pad ret bytes d now fresh p)) = length (servers p)"
proof -
  have "process_invar (refresh_subscribers i ks p)" by (rule refresh_invar [OF assms])
  moreover have "list_all server_wf (servers p)" using assms(1) by (simp add: process_invar_def)
  note keep = dispatch_keeps [OF this]
  ultimately show "process_invar (dispatch_round i ks pad ret bytes d now fresh p)"
    unfolding process_invar_def table_invar_def by (simp add: keep refresh_keeps)
  show "length (servers (dispatch_round i ks pad ret bytes d now fresh p)) = length (servers p)"
    by (simp add: keep)
qed

subsection \<open>A command\<close>

lemma parse_cases:
  assumes "parseCommand C junk ks ids cmd s n = Inr (reply, s', n', reqs)"
  shows "n' = n \<or> (\<exists>r. n' = fst (subscribe ids (cluster_id s) r n)) \<or>
    (\<exists>r reqs'. unsubscribe ks ids (cluster_id s) r n = Inr (n', reqs'))"
  using assms unfolding parseCommand_def Let_def
  by (simp split: prod.split_asm sum.split_asm if_split_asm) (metis fst_conv)+

lemma parse_network:
  assumes "parseCommand C junk ks ids cmd s n = Inr (reply, s', n', reqs)" "\<forall>l. distinct (subs_of n l)"
  shows "(\<forall>l. distinct (subs_of n' l)) \<and> (n' = n \<or> dirty n')"
proof -
  consider "n' = n" | r where "n' = fst (subscribe ids (cluster_id s) r n)"
    | r reqs' where "unsubscribe ks ids (cluster_id s) r n = Inr (n', reqs')"
    using assms(1) parse_cases by blast
  then show ?thesis
  proof cases
    case 2
    then show ?thesis using assms(2) by (simp add: subscribe_dirty subscribe_subs)
  next
    case 3
    then show ?thesis using assms(2) by (simp add: unsubscribe_effect(2) [OF 3])
  qed (use assms(2) in simp)
qed

lemma command_network:
  assumes "processCommands C junk ks ids sel from0 s n = Inr (s', n', reqs, out)" "\<forall>l. distinct (subs_of n l)"
  shows "(\<forall>l. distinct (subs_of n' l)) \<and> (n' = n \<or> dirty n')"
  using assms parse_network [of C junk ks ids _ _ n]
  by (auto simp: processCommands_def Let_def split: prod.splits sum.splits if_splits)

subsection \<open>Every step\<close>

lemma table_invar_dirty: "table_invar m n t \<Longrightarrow> n' = n \<or> dirty n' \<Longrightarrow> table_invar m n' t"
  by (auto simp: table_invar_def)

lemma replace_server_wf:
  "list_all server_wf ss \<Longrightarrow> server_wf s \<Longrightarrow> list_all server_wf (ss[k := s])"
  unfolding list_all_iff using set_update_subset_insert by fastforce

lemma server_step_invar [inv_intros]:
  assumes "server_step Cs p q" "process_invar p"
  shows "process_invar q \<and> length (servers q) = length (servers p)"
  using assms(1)
proof (cases rule: server_stepE)
  case (commanded k ks junk sel from0 s n reqs out)
  have "server_wf (servers p ! k)" using assms(2) commanded(2) by (simp add: process_invar_def list_all_length)
  then have "server_wf s" by (rule processCommands_wf [OF _ commanded(4)])
  moreover have "(\<forall>l. distinct (subs_of n l)) \<and> (n = pnet p \<or> dirty n)"
    using command_network [OF commanded(4)] assms(2) by (simp add: process_invar_def)
  ultimately show ?thesis
    using assms(2) unfolding commanded(1) by (auto simp: process_invar_def replace_server_wf intro: table_invar_dirty)
next
  case (polling k envs s out)
  have "server_wf (servers p ! k)" using assms(2) polling(2) by (simp add: process_invar_def list_all_length)
  then have "server_wf s" using performIO_wf [OF _ polling(3,4)] by auto
  then show ?thesis using assms(2) unfolding polling(1) by (auto simp: process_invar_def replace_server_wf)
qed

lemma process_step_invar [inv_intros]:
  assumes "process_step Cs p q" "process_invar p"
  shows "process_invar q \<and> length (servers q) = length (servers p)"
  using assms(1)
  by (rule process_stepE) (use assms(2) in \<open>auto simp: dispatch_invar dest: server_step_invar\<close>)

lemma process_init_invar: "list_all server_wf ss \<Longrightarrow> process_invar (process_init ss)"
  by (auto simp: process_invar_def process_init_def Network_init_def table_invar_def intro!: exI [of _ "map cluster_id ss"])

lemma process_reaches_invar:
  assumes "process_reaches Cs (process_init ss) p" "list_all server_wf ss"
  shows "process_invar p \<and> length (servers p) = length ss"
  using assms(1)
proof (induction rule: rtranclp_induct)
  case base
  show ?case using process_init_invar [OF assms(2)] by (simp add: process_init_def)
next
  case (step p q)
  then show ?case using process_step_invar by metis
qed

section \<open>Properties\<close>

text \<open>C12. Whatever the servers of a process receive and do, and however their threads interleave with the
  dispatch loop: no server appears or disappears, every one stays well formed and sends to the
  group of its id, no cluster is subscribed twice to another, the routing table holds every server
  at most once per cluster and only servers that exist, and while nothing has been connected or
  dropped since it was built, it is that of the subscriptions and of some ids of the servers.
\<close>

theorem process_invariant:
  assumes "process_reaches Cs (process_init ss) p" and "list_all server_wf ss"
  shows "length (servers p) = length ss \<and> list_all server_wf (servers p) \<and>
    (\<forall>s \<in> set (servers p). mCastGrp s = group_of (cluster_id s)) \<and>
    (\<forall>l. distinct (subs_of (pnet p) l)) \<and>
    (\<forall>r. distinct (table p r) \<and> set (table p r) \<subseteq> {..<length ss}) \<and>
    (\<not> dirty (pnet p) \<longrightarrow> (\<exists>ids. length ids = length ss \<and>
       (\<forall>r. set (table p r) = {k. k < length ss \<and> r \<in> set (subs_of (pnet p) (ids ! k))})))"
proof -
  have "process_invar p" "length (servers p) = length ss"
    using process_reaches_invar [OF assms] by auto
  then show ?thesis by (auto simp: process_invar_def table_invar_def list_all_iff server_wf_def)
qed

text \<open>A server connects to cluster 9; the next turn of the loop that looks at the flag rebuilds the
  table.\<close>

lemma example_connect:
  assumes "server_wf s"
  obtains b where "processCommands C 0 ks ids (SelectReady (Received (''CONNECT 9'' @ [NUL]) example_peer))
      example_peer s n = Inr (s\<lparr>cmd_buff := b\<rparr>, fst (subscribe ids (cluster_id s) 9 n),
        snd (subscribe ids (cluster_id s) 9 n), [(example_peer, ''ACK'' @ [NUL])])"
proof -
  have show9: "show_word (9 :: ClusterID) = ''9''"
    by (simp add: show_word_def show_nat.simps char_of_def bit_0)
  have "length (cmd_buff s) = SERVER_BUFF" using assms by (simp add: server_wf_def)
  then obtain b where b: "processCommands C 0 ks ids (SelectReady (Received (''CONNECT 9'' @ [NUL]) example_peer))
      example_peer s n =
      (case parseCommand C 0 ks ids ''CONNECT 9'' (s\<lparr>cmd_buff := b\<rparr>) n of
         Inl e \<Rightarrow> Inl e
       | Inr (reply, s2, n', reqs) \<Rightarrow> Inr (s2, n', reqs, if reply \<noteq> [] then [(example_peer, reply @ [NUL])] else []))"
    using processCommands_message [of "''CONNECT 9''" s C 0 ks ids example_peer example_peer n]
    by (auto simp: SERVER_BUFF_def)
  show ?thesis
    using b parse_CONNECT [of C 0 ks ids 9 "s\<lparr>cmd_buff := b\<rparr>" n]
    by (intro that [of b]) (simp add: show9 split_def)
qed

abbreviation connected :: "'c server \<Rightarrow> string \<Rightarrow> 'c process" where
  "connected s b \<equiv> (process_init [s])\<lparr>servers := [s\<lparr>cmd_buff := b\<rparr>], pnet := fst (subscribe [cluster_id s] (cluster_id s) 9 Network_init)\<rparr>"

lemma connected_step:
  assumes "server_wf s"
  obtains b where "server_step Cs (process_init [s]) (connected s b)" "server_wf (s\<lparr>cmd_buff := b\<rparr>)"
proof -
  obtain b where b: "processCommands (Cs 0) 0 [cluster_id s] [cluster_id s]
      (SelectReady (Received (''CONNECT 9'' @ [NUL]) example_peer)) example_peer s Network_init =
        Inr (s\<lparr>cmd_buff := b\<rparr>, fst (subscribe [cluster_id s] (cluster_id s) 9 Network_init),
        snd (subscribe [cluster_id s] (cluster_id s) 9 Network_init), [(example_peer, ''ACK'' @ [NUL])])"
    using example_connect [OF assms] by blast
  have "server_step Cs (process_init [s]) (connected s b)"
    using server_step.commanded [of 0 "process_init [s]" "[cluster_id s]" Cs, where s = "s\<lparr>cmd_buff := b\<rparr>"] b
    by (simp add: process_init_def Network_init_def iterates_def touch_def)
  with processCommands_wf [OF assms b] that show ?thesis by blast
qed

lemma connected_refresh:
  "pnet (refresh_subscribers 0 [cluster_id s] (connected s b)) =
     \<lparr>dirty = False, subscriptions = [cluster_id s \<mapsto> [9]], sequences = Map.empty\<rparr>"
  "table (refresh_subscribers 0 [cluster_id s] (connected s b)) 9 = [0]"
  "iterates [cluster_id s] (subscriptions (pnet (connected s b)))"
  by (simp_all add: refresh_subscribers_def getSubscriptions_def rebuild_subscribers_def add_subscriber_def
      subscribe_def Let_def Network_init_def touch_def iterates_def)

theorem process_invariant_witness:
  "\<exists>p. process_reaches (\<lambda>_. test_cluster) (process_init [test_server]) p \<and> \<not> dirty (pnet p) \<and>
     table p 9 = [0] \<and> length (servers p) = 1"
proof -
  obtain b where b: "server_step (\<lambda>_. test_cluster) (process_init [test_server]) (connected test_server b)"
      "server_wf (test_server\<lparr>cmd_buff := b\<rparr>)"
    by (rule connected_step [OF test_server_wf])
  let ?q = "connected test_server b" and ?ks = "[cluster_id test_server]"
  let ?r = "dispatch_round 0 ?ks [] 0 [] 0 0 sample_buffer ?q"
  have "process_step (\<lambda>_. test_cluster) ?q ?r" by (rule process_step.dispatch [OF connected_refresh(3)])
  with process_step.serve [OF b(1)] have reach: "process_reaches (\<lambda>_. test_cluster) (process_init [test_server]) ?r"
    by (meson converse_rtranclp_into_rtranclp r_into_rtranclp)
  have "list_all server_wf (servers ?q)" using b(2) by simp
  note keep = dispatch_keeps [OF this, of 0 ?ks "[]" 0 "[]" 0 0 sample_buffer]
  have "\<not> dirty (pnet ?r)" "table ?r 9 = [0]" using keep connected_refresh [of test_server b] by simp_all
  moreover have "list_all server_wf [test_server]" using test_server_wf by simp
  note process_invariant [OF reach this]
  ultimately show ?thesis using reach by auto
qed

end
