(* ===== verification/Process_Input.thy ===== *)
theory Process_Input
  imports Process_Run
begin

text \<open>
  What the clusters of a process see: over any run of the process (\<open>main.cpp\<close>, \<open>server.cpp\<close>) each
  cluster is given the buffers the dispatch loop routes to its server, each of them once and in the
  order of their routing.  To state it, plug-ins are extended to remember what they were given.
\<close>

section \<open>A cluster that remembers\<close>

definition recording :: "'c icluster \<Rightarrow> ('c \<times> timebuffer list) icluster" where
  "recording C =
    \<lparr>command = (\<lambda>cmd (c, l). case command C cmd c of (reply, c') \<Rightarrow> (reply, (c', l))),
     input = (\<lambda>tb (c, l). (input C tb c, l @ [tb])),
     polled = (\<lambda>(c, l). case polled C c of (ws, c') \<Rightarrow> (ws, (c', l))),
     waits = (\<lambda>(c, l). waits C c)\<rparr>"

abbreviation taken :: "('c \<times> timebuffer list) server \<Rightarrow> timebuffer list" where
  "taken s \<equiv> snd (cluster s)"

lemma recording_simps [simp]:
  "snd (snd (command (recording C) cmd c)) = snd c"
  "snd (input (recording C) tb c) = snd c @ [tb]"
  "snd (snd (polled (recording C) c)) = snd c"
  by (simp_all add: recording_def split: prod.splits)

section \<open>Single operations\<close>

lemma parse_taken:
  assumes "parseCommand (recording C) junk ks ids cmd s n = Inr (reply, s', n', reqs)"
  shows "taken s' = taken s \<and> inQ s' = inQ s"
proof -
  have "taken s' = taken s" if "command (recording C) cmd (cluster s) = (r, c)" "s' = s\<lparr>cluster := c\<rparr>" for r c
    using that recording_simps(1) [of C cmd "cluster s"] by simp
  then show ?thesis
    using assms by (auto simp: parseCommand_def Let_def split: prod.splits sum.splits if_splits)
qed

lemma command_taken:
  assumes "processCommands (recording C) junk ks ids sel from0 s n = Inr (s', n', reqs, out)"
  shows "taken s' = taken s \<and> inQ s' = inQ s"
  using assms by (auto simp: processCommands_def Let_def dest: parse_taken split: prod.splits sum.splits if_splits)

text \<open>A poll moves at most one buffer from the queue to the cluster.\<close>

lemma input_taken:
  "performInput (recording C) s = Some s' \<Longrightarrow> taken s' @ inQ s' = taken s @ inQ s"
  by (auto simp: performInput_def split: if_splits)

lemma poll_taken:
  assumes "performIO (recording C) envs s = Some (Inr (s', out))" "server_wf s" "\<forall>j. fresh_ok (envs j)"
  shows "taken s' @ inQ s' = taken s @ inQ s"
proof -
  obtain s1 where s1: "performInput (recording C) s = Some s1"
    using assms(1) by (auto simp: performIO_eq split: option.splits)
  have wf: "server_wf s1" using performInput_wf [OF s1 assms(2)] by simp
  have "taken s' = taken s1 \<and> inQ s' = inQ s1"
  proof (cases "cluster_id s1 > 0")
    case True
    let ?ws = "map (\<lambda>(k, i, t). (envs k, i, t)) (enumerate 0 (fst (polled (recording C) (cluster s1))))"
    have "list_all (\<lambda>(env, i, t). fresh_ok env) ?ws" using assms(3) by (auto simp: list_all_iff)
    moreover have "cluster_id s > 0" using performInput_wf [OF s1 assms(2)] True by simp
    ultimately show ?thesis
      using Server_writes_wf [OF take_input_wf(3) [OF wf], of ?ws "snd (polled (recording C) (cluster s1))" "[]"]
        assms(1) by (auto simp: performIO_eq s1)
  next
    case False
    moreover have "cluster_id s1 = cluster_id s" using performInput_wf [OF s1 assms(2)] by simp
    ultimately show ?thesis using assms(1) by (auto simp: performIO_eq s1)
  qed
  then show ?thesis using input_taken [OF s1] by simp
qed

section \<open>Runs\<close>

text \<open>A run from \<open>p0\<close>, with what the dispatch loop has routed to each server so far.\<close>

inductive process_run :: "(nat \<Rightarrow> 'c icluster) \<Rightarrow> 'c process \<Rightarrow> (nat \<Rightarrow> timebuffer list) \<Rightarrow> 'c process \<Rightarrow> bool"
  for Cs p0 where
  start: "process_run Cs p0 (\<lambda>k. []) p0"
| turn: "process_run Cs p0 D p \<Longrightarrow> iterates ks (subscriptions (pnet p)) \<Longrightarrow>
     process_run Cs p0 (\<lambda>k. D k @ routed i ks pad ret bytes d now fresh p k)
       (dispatch_round i ks pad ret bytes d now fresh p)"
| served: "process_run Cs p0 D p \<Longrightarrow> server_step Cs p q \<Longrightarrow> process_run Cs p0 D q"

lemma process_run_reaches: "process_run Cs p0 D p \<Longrightarrow> process_reaches Cs p0 p"
  by (induction rule: process_run.induct)
    (auto intro: process_step.intros rtranclp.rtrancl_into_rtrancl)

lemma refresh_table_ok:
  assumes "process_invar p" "iterates ks (subscriptions (pnet p))"
  shows "table_ok (refresh_subscribers i ks p)" "list_all out_ok (servers p)"
  using refresh_invar [OF assms, of i] assms(1)
  by (auto simp: process_invar_def table_invar_def table_ok_def list_all_iff server_wf_def)

definition seen :: "('c \<times> timebuffer list) process \<Rightarrow> nat \<Rightarrow> timebuffer list" where
  "seen p k = taken (servers p ! k) @ inQ (servers p ! k)"

lemma turn_seen:
  assumes "process_invar p" "iterates ks (subscriptions (pnet p))" "k < length (servers p)"
  shows "seen (dispatch_round i ks pad ret bytes d now fresh p) k = seen p k @ routed i ks pad ret bytes d now fresh p k"
  using dispatch_round_routed [OF refresh_table_ok [OF assms(1,2)] assms(3)] by (simp add: seen_def after_pop_def)

lemma served_seen:
  assumes "server_step (\<lambda>k. recording (Cs k)) p q" "process_invar p"
  shows "seen q k = seen p k"
  using assms(1)
proof (cases rule: server_stepE)
  case (commanded j ks junk sel from0 s n reqs out)
  then show ?thesis using command_taken [OF commanded(4)] by (cases "k = j") (simp_all add: seen_def)
next
  case (polling j envs s out)
  have "server_wf (servers p ! j)" using assms(2) polling(2) by (simp add: process_invar_def list_all_length)
  then show ?thesis using polling poll_taken [OF polling(4)] by (cases "k = j") (simp_all add: seen_def)
qed

section \<open>Properties\<close>

text \<open>C13. Over any run of a process, what a cluster has been given, in that order, and what still waits in
  the queue of its server is what was there at the start and then everything the dispatch loop
  routed to it, in the order of routing: nothing is lost, doubled or reordered, whatever the
  commands and polls in between.
\<close>

theorem process_inputs_in_order:
  assumes "process_run (\<lambda>k. recording (Cs k)) (process_init ss) D p" and "list_all server_wf ss" and "k < length ss"
  shows "taken (servers p ! k) @ inQ (servers p ! k) = taken (ss ! k) @ inQ (ss ! k) @ D k"
proof -
  have "seen p k = seen (process_init ss) k @ D k"
    using assms(1)
  proof (induction rule: process_run.induct)
    case start
    then show ?case by simp
  next
    case (turn D p ks i pad ret bytes d now fresh)
    have inv: "process_invar p \<and> length (servers p) = length ss"
      by (rule process_reaches_invar [OF process_run_reaches [OF turn(1)] assms(2)])
    then show ?case using turn assms(3) by (simp add: turn_seen)
  next
    case (served D p q)
    have "process_invar p"
      using process_reaches_invar [OF process_run_reaches [OF served(1)] assms(2)] by simp
    then show ?case using served served_seen by metis
  qed
  then show ?thesis by (simp add: seen_def process_init_def)
qed

text \<open>A server with a buffer of cluster 9 in its own output queue subscribes to cluster 9.\<close>

definition buffer_of_9 :: timebuffer where
  "buffer_of_9 = sample_buffer\<lparr>srcId := 9\<rparr>"

definition recorder :: "(unit \<times> timebuffer list) server" where
  "recorder = \<lparr>cluster = ((), []), cluster_id = 7, inQ = [],
     outQ = snd (FreeQueue_push MAX_MSG_Q_SIZE buffer_of_9 (outQ test_server)), timeBuff = timeBuff test_server,
     tracker = tracker test_server, mCastGrp = mCastGrp test_server, cmd_buff = cmd_buff test_server\<rparr>"

lemma recorder_ok: "server_wf recorder" "oldest recorder = [buffer_of_9]"
proof -
  obtain q where q: "FreeQueue_push MAX_MSG_Q_SIZE buffer_of_9 (outQ test_server) = (True, q)"
      "fq_items MAX_MSG_Q_SIZE q = [buffer_of_9]" "fq_invar MAX_MSG_Q_SIZE q"
    by (rule push_empty [OF test_server_out])
  then show "oldest recorder = [buffer_of_9]" by (simp add: recorder_def oldest_def)
  show "server_wf recorder"
    using test_server_wf q test_server_time(3) by (simp add: server_wf_def recorder_def)
qed

theorem process_inputs_in_order_witness:
  "\<exists>D p. process_run (\<lambda>k. recording test_cluster) (process_init [recorder]) D p \<and>
     taken (servers p ! 0) @ inQ (servers p ! 0) = [buffer_of_9]"
proof -
  obtain b where b: "server_step (\<lambda>k. recording test_cluster) (process_init [recorder]) (connected recorder b)"
    by (rule connected_step [OF recorder_ok(1)])
  let ?q = "connected recorder b" and ?ks = "[cluster_id recorder]"
  let ?p = "dispatch_round 0 ?ks [] 0 [] 0 0 sample_buffer ?q"
  let ?D = "\<lambda>k. [] @ routed 0 ?ks [] 0 [] 0 0 sample_buffer ?q k"
  have run: "process_run (\<lambda>k. recording test_cluster) (process_init [recorder]) ?D ?p"
    by (rule process_run.turn [OF process_run.served [OF process_run.start b] connected_refresh(3)])
  have "oldest (recorder\<lparr>cmd_buff := b\<rparr>) = [buffer_of_9]" using recorder_ok(2) by (simp add: oldest_def)
  moreover have "receives (refresh_subscribers 0 ?ks ?q) 0 buffer_of_9"
    using connected_refresh(2) [of recorder b] by (simp add: receives_def buffer_of_9_def)
  ultimately have "?D 0 = [buffer_of_9]"
    by (simp add: routed_def accepted_packet_def readVerify_def)
  moreover have "list_all server_wf [recorder]" using recorder_ok(1) by simp
  note process_inputs_in_order [OF run this, of 0]
  ultimately show ?thesis using run by (auto simp: recorder_def)
qed

end
