(* ===== verification/World.thy ===== *)
theory World
  imports Delivery Process_Input
begin

text \<open>
  All server processes together.  Hosts exchange the packets \<open>Server::write\<close> multicasts; the air
  holds every packet ever sent, and a host that reads gets any of them, so packets may be lost,
  delayed, doubled and reordered.  Which groups a host has joined does not restrict what it hears
  here, so what is shown holds for any membership.  The packets come from servers only.
\<close>

section \<open>Steps\<close>

record 'c world =
  hosts :: "'c process list"
  air :: "packet set"

abbreviation with_host :: "nat \<Rightarrow> 'c process \<Rightarrow> 'c world \<Rightarrow> 'c world" where
  "with_host h p w \<equiv> w\<lparr>hosts := (hosts w)[h := p]\<rparr>"

text \<open>The object a turn of the dispatch loop creates has no impulses; its arrays hold anything.\<close>

definition fresh_buffer :: "timebuffer \<Rightarrow> bool" where
  "fresh_buffer tb \<longleftrightarrow> tb_wf tb \<and> tbcount tb = 0"

inductive world_step :: "(nat \<Rightarrow> nat \<Rightarrow> 'c icluster) \<Rightarrow> 'c world \<Rightarrow> 'c world \<Rightarrow> bool" for Cs where
  fire: "h < length (hosts w) \<Longrightarrow> p = hosts w ! h \<Longrightarrow> k < length (servers p) \<Longrightarrow> \<forall>j. fresh_ok (envs j) \<Longrightarrow>
     performIO (Cs h k) envs (servers p ! k) = Some (Inr (s, out)) \<Longrightarrow> \<forall>m \<in> set out. in_clock (tbtime (snd m)) \<Longrightarrow>
     world_step Cs w (with_host h (p\<lparr>servers := (servers p)[k := s]\<rparr>) (w\<lparr>air := air w \<union> set out\<rparr>))"
| obey: "h < length (hosts w) \<Longrightarrow> p = hosts w ! h \<Longrightarrow> k < length (servers p) \<Longrightarrow>
     iterates ks (touch [] (subscriptions (pnet p)) (cluster_id (servers p ! k))) \<Longrightarrow>
     processCommands (Cs h k) junk ks (map cluster_id (servers p)) sel from0 (servers p ! k) (pnet p) =
       Inr (s, n, reqs, out) \<Longrightarrow>
     world_step Cs w (with_host h (p\<lparr>servers := (servers p)[k := s], pnet := n\<rparr>) w)"
| hear: "h < length (hosts w) \<Longrightarrow> p = hosts w ! h \<Longrightarrow> iterates ks (subscriptions (pnet p)) \<Longrightarrow>
     fresh_buffer fresh \<Longrightarrow> (dst, tb) \<in> air w \<Longrightarrow> ret > 0 \<Longrightarrow>
     world_step Cs w (with_host h (dispatch_round i ks [] ret (tb_sent [] tb) d now fresh p) w)"
| idle: "h < length (hosts w) \<Longrightarrow> p = hosts w ! h \<Longrightarrow> iterates ks (subscriptions (pnet p)) \<Longrightarrow>
     fresh_buffer fresh \<Longrightarrow> ret \<le> 0 \<Longrightarrow>
     world_step Cs w (with_host h (dispatch_round i ks [] ret bytes d now fresh p) w)"

abbreviation world_reaches :: "(nat \<Rightarrow> nat \<Rightarrow> 'c icluster) \<Rightarrow> 'c world \<Rightarrow> 'c world \<Rightarrow> bool" where
  "world_reaches Cs \<equiv> (world_step Cs)\<^sup>*\<^sup>*"

definition world_init :: "'c server list list \<Rightarrow> 'c world" where
  "world_init sss = \<lparr>hosts = map process_init sss, air = {}\<rparr>"

section \<open>Authentic buffers\<close>

text \<open>A buffer with the sender and the nodes of a packet on the air; its impulses can be read.\<close>

definition authentic :: "packet set \<Rightarrow> timebuffer \<Rightarrow> bool" where
  "authentic ps b \<longleftrightarrow> tb_wf b \<and> (\<exists>tb. (group_of (srcId b), tb) \<in> ps \<and> srcId tb = srcId b \<and> nodes tb = nodes b)"

definition air_ok :: "packet set \<Rightarrow> bool" where
  "air_ok ps \<longleftrightarrow> (\<forall>(dst, tb) \<in> ps. dst = group_of (srcId tb) \<and> tb_wf tb \<and> in_clock (tbtime tb))"

text \<open>Everything a server holds.\<close>

definition held :: "('c \<times> timebuffer list) server \<Rightarrow> timebuffer set" where
  "held s = set (taken s @ inQ s) \<union> set (out_items s)"

definition host_ok :: "packet set \<Rightarrow> ('c \<times> timebuffer list) process \<Rightarrow> bool" where
  "host_ok ps p \<longleftrightarrow> process_invar p \<and> (\<forall>s \<in> set (servers p). \<forall>b \<in> held s. authentic ps b)"

definition world_invar :: "('c \<times> timebuffer list) world \<Rightarrow> bool" where
  "world_invar w \<longleftrightarrow> air_ok (air w) \<and> (\<forall>p \<in> set (hosts w). host_ok (air w) p)"

lemma authentic_mono: "authentic ps b \<Longrightarrow> ps \<subseteq> ps' \<Longrightarrow> authentic ps' b"
  by (auto simp: authentic_def)

lemma host_ok_mono: "host_ok ps p \<Longrightarrow> ps \<subseteq> ps' \<Longrightarrow> host_ok ps' p"
  using authentic_mono by (fastforce simp: host_ok_def)

lemma sent_authentic: "air_ok ps \<Longrightarrow> m \<in> ps \<Longrightarrow> authentic ps (snd m)"
  by (cases m) (auto simp: air_ok_def authentic_def)

lemma received_authentic:
  assumes "air_ok ps" "(dst, tb) \<in> ps" "tb_wf fresh"
  shows "authentic ps (prepareRead d (tb_received [] (tb_sent [] tb) fresh))"
proof -
  have tb: "tb_wf tb" "in_clock (tbtime tb)" "dst = group_of (srcId tb)" using assms(1,2) by (auto simp: air_ok_def)
  note same = nodes_of_datagram [OF tb(1) assms(3) tb(2)]
  have "tb_wf (tb_received [] (tb_sent [] tb) fresh)"
    using received_arrays [OF assms(3)] same(3) tb(1) by (simp add: tb_wf_def)
  then show ?thesis
    using assms(2) tb(3) same by (auto simp: authentic_def tb_wf_def prepareRead_def nodes_eq)
qed

section \<open>What a server holds after an operation\<close>

lemma push_items:
  "fq_invar MAX_MSG_Q_SIZE q \<Longrightarrow>
     set (fq_items MAX_MSG_Q_SIZE (snd (FreeQueue_push MAX_MSG_Q_SIZE x q))) \<subseteq> insert x (set (fq_items MAX_MSG_Q_SIZE q))"
  by (cases rule: fq.push_cases [of MAX_MSG_Q_SIZE q x]) auto

lemma write_held:
  assumes "out_ok s" "Server_write env i t k s sent = Some (Inr (s', sent'))"
  shows "set (out_items s') \<subseteq> set (out_items s) \<union> snd ` set sent' \<and> set sent \<subseteq> set sent' \<and> out_ok s'"
proof (cases rule: Server_write_cases [of t s env i k sent])
  case (flushed d i0 d0)
  let ?tb = "tb_flushed d (cluster_id s) t (timeBuff s)"
  have "outQ s' = snd (FreeQueue_push MAX_MSG_Q_SIZE ?tb (outQ s))" "sent' = sent @ [(mCastGrp s, ?tb)]"
    using flushed(4) assms(2) by auto
  moreover have "out_ok s'"
    using assms(1) calculation(1) by (cases rule: fq.push_cases [OF assms(1), of ?tb]) simp_all
  ultimately show ?thesis using push_items [OF assms(1), of ?tb] by auto
qed (use assms in auto)

lemma writes_held:
  "out_ok s \<Longrightarrow> Server_writes ws s sent = Some (Inr (s', sent')) \<Longrightarrow>
     set (out_items s') \<subseteq> set (out_items s) \<union> snd ` set sent' \<and> set sent \<subseteq> set sent'"
proof (induction ws s sent rule: Server_writes.induct)
  case (2 env i t ws s sent)
  obtain s1 sent1 where 1: "Server_write env i t 0 s sent = Some (Inr (s1, sent1))"
      "Server_writes ws s1 sent1 = Some (Inr (s', sent'))"
    using "2.prems"(2) by (auto split: option.splits sum.splits)
  note w = write_held [OF "2.prems"(1) 1(1)]
  then have "set (out_items s') \<subseteq> set (out_items s1) \<union> snd ` set sent' \<and> set sent1 \<subseteq> set sent'"
    using "2.IH" [OF 1(1) refl refl _ 1(2)] by blast
  with w show ?case by blast
qed simp

lemma poll_held:
  assumes "performIO (recording C) envs s = Some (Inr (s', out))" "server_wf s" "\<forall>j. fresh_ok (envs j)"
  shows "held s' \<subseteq> held s \<union> snd ` set out"
proof -
  obtain s1 where s1: "performInput (recording C) s = Some s1"
    using assms(1) by (auto simp: performIO_eq split: option.splits)
  then have q: "outQ s1 = outQ s" by (auto simp: performInput_def split: if_splits)
  then have "set (out_items s') \<subseteq> set (out_items s) \<union> snd ` set out"
  proof (cases "cluster_id s1 > 0")
    case True
    moreover have "out_ok s" using assms(2) by (simp add: server_wf_def)
    moreover have "cluster_id s1 = cluster_id s" using s1 by (auto simp: performInput_def split: if_splits)
    ultimately show ?thesis
      using assms(1) q writes_held [of "s1\<lparr>cluster := snd (polled (recording C) (cluster s1))\<rparr>"]
      by (auto simp: performIO_eq s1)
  next
    case False
    moreover have "cluster_id s1 = cluster_id s" using s1 by (auto simp: performInput_def split: if_splits)
    ultimately show ?thesis using assms(1) q by (auto simp: performIO_eq s1)
  qed
  then show ?thesis using poll_taken [OF assms] by (auto simp: held_def)
qed

lemma parse_outQ:
  "parseCommand C junk ks ids cmd s n = Inr (reply, s', n', reqs) \<Longrightarrow> outQ s' = outQ s"
  by (auto simp: parseCommand_def Let_def split: prod.splits sum.splits if_splits)

lemma command_held:
  assumes "processCommands (recording C) junk ks ids sel from0 s n = Inr (s', n', reqs, out)"
  shows "held s' = held s"
proof -
  have "outQ s' = outQ s"
    using assms by (auto simp: processCommands_def Let_def dest: parse_outQ split: prod.splits sum.splits if_splits)
  then show ?thesis using command_taken [OF assms] by (simp add: held_def)
qed

lemma turn_held:
  assumes "process_invar p" "iterates ks (subscriptions (pnet p))" "k < length (servers p)"
  shows "held (servers (dispatch_round i ks pad ret bytes d now fresh p) ! k) \<subseteq> held (servers p ! k) \<union>
    set (accepted_packet pad ret bytes d now fresh (pnet (refresh_subscribers i ks p))) \<union>
    (\<Union>s \<in> set (servers p). set (out_items s))"
proof -
  note ok = refresh_table_ok [OF assms(1,2)]
  let ?r = "routed i ks pad ret bytes d now fresh p k"
  have "out_ok (servers p ! k)" using ok(2) assms(3) by (simp add: list_all_length)
  then have "set (out_items (after_pop (servers p ! k))) \<subseteq> set (out_items (servers p ! k))"
    using after_pop_items list.set_sel(2) by (metis list.sel(2) list.set(1) subsetI)
  moreover have "set ?r \<subseteq> set (accepted_packet pad ret bytes d now fresh (pnet (refresh_subscribers i ks p))) \<union>
      (\<Union>s \<in> set (servers p). set (out_items s))"
    by (auto simp: routed_def oldest_def dest: in_set_takeD)
  ultimately show ?thesis
    unfolding dispatch_round_routed [OF ok assms(3)] by (auto simp: held_def after_pop_def)
qed

section \<open>Every step keeps the invariant\<close>

lemma host_server_ok:
  assumes "host_ok ps p" "process_invar (p\<lparr>servers := (servers p)[k := s], pnet := n\<rparr>)" "\<forall>b \<in> held s. authentic ps b"
  shows "host_ok ps (p\<lparr>servers := (servers p)[k := s], pnet := n\<rparr>)"
  using assms set_update_subset_insert [of "servers p" k s] by (auto simp: host_ok_def)

lemma host_turn_ok:
  assumes "host_ok ps p" "iterates ks (subscriptions (pnet p))"
    and "\<forall>b \<in> set (accepted_packet pad ret bytes d now fresh (pnet (refresh_subscribers i ks p))). authentic ps b"
  shows "host_ok ps (dispatch_round i ks pad ret bytes d now fresh p)"
proof -
  have inv: "process_invar p" using assms(1) by (simp add: host_ok_def)
  have old: "authentic ps b" if "s \<in> set (servers p)" "b \<in> held s" for s b
    using assms(1) that by (simp add: host_ok_def)
  have "\<forall>b \<in> held s. authentic ps b" if s: "s \<in> set (servers (dispatch_round i ks pad ret bytes d now fresh p))" for s
  proof -
    obtain k where k: "k < length (servers p)" "s = servers (dispatch_round i ks pad ret bytes d now fresh p) ! k"
      using s dispatch_invar(2) [OF inv assms(2)] by (metis in_set_conv_nth)
    have "out_items q = out_items q \<and> set (out_items q) \<subseteq> held q" for q by (simp add: held_def)
    then show ?thesis
      using turn_held [OF inv assms(2) k(1), of i pad ret bytes d now fresh] k old assms(3) nth_mem [OF k(1)] by blast
  qed
  then show ?thesis using dispatch_invar(1) [OF inv assms(2)] by (simp add: host_ok_def)
qed

lemma host_ok_nth: "host_ok ps p \<Longrightarrow> k < length (servers p) \<Longrightarrow>
    process_invar p \<and> (\<forall>b \<in> held (servers p ! k). authentic ps b)"
  using nth_mem by (auto simp: host_ok_def)

lemma host_fire_ok:
  assumes "host_ok ps p" "air_ok ps" "k < length (servers p)" "\<forall>j. fresh_ok (envs j)"
    and io: "performIO (recording C) envs (servers p ! k) = Some (Inr (s, out))"
    and clock: "\<forall>m \<in> set out. in_clock (tbtime (snd m))"
  shows "air_ok (ps \<union> set out) \<and> host_ok (ps \<union> set out) (p\<lparr>servers := (servers p)[k := s]\<rparr>)"
proof -
  let ?ps = "ps \<union> set out"
  have inv: "process_invar p" and old: "\<forall>b \<in> held (servers p ! k). authentic ps b"
    using host_ok_nth [OF assms(1,3)] by simp_all
  have wf: "server_wf (servers p ! k)" using inv assms(3) by (simp add: process_invar_def list_all_length)
  have "list_all (packet_ok (cluster_id (servers p ! k))) out" using performIO_wf [OF wf assms(4) io] by auto
  then have air: "air_ok ?ps" using assms(2) clock by (fastforce simp: air_ok_def list_all_iff packet_ok_def)
  have "process_invar (p\<lparr>servers := (servers p)[k := s]\<rparr>)"
    using server_step_invar [OF server_step.polling [OF assms(3,4), of "\<lambda>k. recording C"] inv] io by simp
  moreover have "\<forall>b \<in> held s. authentic ?ps b"
    using poll_held [OF io wf assms(4)] old sent_authentic [OF air] authentic_mono [of ps _ ?ps] by blast
  ultimately show ?thesis
    using host_server_ok [OF host_ok_mono [OF assms(1), of ?ps], of "pnet p" k s] air by simp
qed

lemma host_obey_ok:
  assumes "host_ok ps p" "k < length (servers p)"
    and "iterates ks (touch [] (subscriptions (pnet p)) (cluster_id (servers p ! k)))"
    and c: "processCommands (recording C) junk ks (map cluster_id (servers p)) sel from0 (servers p ! k) (pnet p) =
       Inr (s, n, reqs, out)"
  shows "host_ok ps (p\<lparr>servers := (servers p)[k := s], pnet := n\<rparr>)"
proof (rule host_server_ok [OF assms(1)])
  have "process_invar p" using assms(1) by (simp add: host_ok_def)
  then show "process_invar (p\<lparr>servers := (servers p)[k := s], pnet := n\<rparr>)"
    using server_step_invar [OF server_step.commanded [OF assms(2,3), of "\<lambda>k. recording C"]] c by simp
  show "\<forall>b \<in> held s. authentic ps b" using host_ok_nth [OF assms(1,2)] command_held [OF c] by simp
qed

lemma replace_host: "world_invar w \<Longrightarrow> host_ok (air w) p \<Longrightarrow> world_invar (with_host h p w)"
  using set_update_subset_insert [of "hosts w" h p] by (auto simp: world_invar_def)

lemma extend_air: "world_invar w \<Longrightarrow> air_ok (air w \<union> ps) \<Longrightarrow> world_invar (w\<lparr>air := air w \<union> ps\<rparr>)"
  using host_ok_mono by (fastforce simp: world_invar_def)

lemma world_step_invar [inv_intros]:
  assumes "world_step (\<lambda>h k. recording (Cs h k)) w v" "world_invar w"
  shows "world_invar v"
  using assms(1)
proof cases
  case (fire h p k envs s out)
  have "host_ok (air w) p" "air_ok (air w)" using assms(2) fire(2,3) by (auto simp: world_invar_def)
  note ok = host_fire_ok [OF this fire(4-7)]
  then show ?thesis
    using replace_host [OF extend_air [OF assms(2)], of "set out" "p\<lparr>servers := (servers p)[k := s]\<rparr>" h]
    unfolding fire(1) by simp
next
  case (obey h p k ks junk sel from0 s n reqs out)
  have "host_ok (air w) p" using assms(2) obey(2,3) by (auto simp: world_invar_def)
  then show ?thesis unfolding obey(1) by (intro replace_host assms(2) host_obey_ok [OF _ obey(4-6)])
next
  case (hear h p ks fresh dst tb ret i d now)
  have p: "host_ok (air w) p" using assms(2) hear(2,3) by (auto simp: world_invar_def)
  have "authentic (air w) (prepareRead d (tb_received [] (tb_sent [] tb) fresh))"
    using assms(2) hear(5,6) by (intro received_authentic) (simp_all add: world_invar_def fresh_buffer_def)
  then have "\<forall>b \<in> set (accepted_packet [] ret (tb_sent [] tb) d now fresh (pnet (refresh_subscribers i ks p))). authentic (air w) b"
    using hear(7) by (auto simp: accepted_packet_def readVerify_def Multicast_read_def verify_def Let_def split: if_splits)
  then show ?thesis unfolding hear(1) by (intro replace_host assms(2) host_turn_ok p hear(4))
next
  case (idle h p ks fresh ret i bytes d now)
  have p: "host_ok (air w) p" using assms(2) idle(2,3) by (auto simp: world_invar_def)
  have "accepted_packet [] ret bytes d now fresh (pnet (refresh_subscribers i ks p)) = []"
    using idle(5,6)
    by (simp add: accepted_packet_def readVerify_def Multicast_read_def verify_def Let_def fresh_buffer_def
        tb_sizeData_def prepareRead_def)
  then show ?thesis unfolding idle(1) by (intro replace_host assms(2) host_turn_ok p idle(4)) simp
qed

text \<open>A server as it starts, with nothing received and nothing to deliver.\<close>

definition new_server :: "('c \<times> timebuffer list) server \<Rightarrow> bool" where
  "new_server s \<longleftrightarrow> server_wf s \<and> held s = {}"

lemma world_init_invar: "\<forall>ss \<in> set sss. list_all new_server ss \<Longrightarrow> world_invar (world_init sss)"
  using process_init_invar
  by (fastforce simp: world_invar_def world_init_def air_ok_def host_ok_def new_server_def list_all_iff process_init_def)

lemma world_reaches_invar:
  assumes "world_reaches (\<lambda>h k. recording (Cs h k)) (world_init sss) w" "\<forall>ss \<in> set sss. list_all new_server ss"
  shows "world_invar w"
  using assms(1) by (induction rule: rtranclp_induct) (auto intro: world_step_invar world_init_invar [OF assms(2)])

section \<open>Properties\<close>


text \<open>Two hosts: server 7 on one subscribes to cluster 9, which fires on the other.\<close>

definition listener :: "(unit \<times> timebuffer list) server" where
  "listener = recorder\<lparr>outQ := outQ test_server\<rparr>"

definition firing :: "(unit \<times> timebuffer list) server" where
  "firing = listener\<lparr>cluster_id := 9, mCastGrp := group_of 9, timeBuff := sample_buffer\<rparr>"

abbreviation example_clusters :: "nat \<Rightarrow> nat \<Rightarrow> (unit \<times> timebuffer list) icluster" where
  "example_clusters \<equiv> \<lambda>h k. recording late_cluster"

lemma example_new: "new_server listener" "new_server firing"
proof -
  have "server_wf listener" using recorder_ok(1) test_server_out(1) by (simp add: listener_def server_wf_def)
  then show "new_server listener"
    using test_server_out by (simp add: new_server_def held_def listener_def recorder_def)
  have "server_wf firing"
    using \<open>server_wf listener\<close> by (simp add: firing_def server_wf_def filling_def) (simp add: sample_buffer_def)
  then show "new_server firing"
    using test_server_out by (simp add: new_server_def held_def firing_def listener_def recorder_def)
qed

lemma firing_poll:
  obtains s where "performIO (recording late_cluster) (\<lambda>j. test_env) firing =
     Some (Inr (s, [(group_of 9, tb_flushed 0 9 40005000 sample_buffer)]))"
proof -
  have "to_us (40005000 - 5000) = 40000" by (simp add: to_us_def)
  then have dl: "write_delta 40005000 sample_buffer = 40000"
    by (simp add: write_delta_def sample_buffer_def time_min_def as_int32_id)
  have "performIO (recording late_cluster) (\<lambda>j. test_env) firing = Server_writes [(test_env, 2, 40005000)] firing []"
    by (simp add: performIO_eq performInput_def late_cluster_def recording_def firing_def listener_def recorder_def test_cluster_def)
  then show ?thesis
    using Server_write_refused [of 40005000 firing test_env 0 0 zeros zeros 2 "[]"] dl that
    by (simp add: firing_def test_env_def Let_def)
qed

lemma listener_hears:
  fixes b and tb :: timebuffer
  defines "tb \<equiv> tb_flushed 0 9 40005000 sample_buffer" and "fresh \<equiv> TimeBuffer_init zeros zeros"
  defines "p \<equiv> connected listener b"
  assumes "process_invar p"
  shows "prepareRead 0 (tb_received [] (tb_sent [] tb) fresh) \<in>
    set (inQ (servers (dispatch_round 0 [7] [] 18 (tb_sent [] tb) 0 6000 fresh p) ! 0))"
    "nodes (prepareRead 0 (tb_received [] (tb_sent [] tb) fresh)) = [3]" "fresh_buffer fresh"
proof -
  let ?r = "prepareRead 0 (tb_received [] (tb_sent [] tb) fresh)"
  have id: "cluster_id listener = 7" by (simp add: listener_def recorder_def)
  have tb: "tb_wf tb" "tbtime tb = 5000" "srcId tb = 9" "nodes tb = [3]" "tb_sizeData tb = 1"
    by (simp_all add: tb_def tb_flushed_def write_base_def toNetwork_def sample_buffer_def time_min_def nodes_eq
        MAX_OUTPUT_NODES_def tb_wf_def tb_sizeData_def)
  show fr: "fresh_buffer fresh"
    by (simp add: fresh_def fresh_buffer_def TimeBuffer_init_def tb_wf_def zeros_def)
  then have wf: "tb_wf fresh" by (simp add: fresh_buffer_def)
  have cl: "in_clock (tbtime tb)" by (simp add: tb(2) in_clock_def time_min_def time_max_def)
  note same = nodes_of_datagram [OF tb(1) wf cl]
  have "nodes (prepareRead 0 x) = nodes x" for x by (simp add: prepareRead_def nodes_eq)
  then show "nodes ?r = [3]" using same(1) tb(4) by simp
  have ref: "pnet (refresh_subscribers 0 [7] p) = \<lparr>dirty = False, subscriptions = [7 \<mapsto> [9]], sequences = Map.empty\<rparr>"
      "table (refresh_subscribers 0 [7] p) 9 = [0]" "iterates [7] (subscriptions (pnet p))"
    using connected_refresh [of listener b] by (simp_all add: p_def id)
  have "accepted_packet [] 18 (tb_sent [] tb) 0 6000 fresh (pnet (refresh_subscribers 0 [7] p)) = [?r]"
    unfolding ref(1) by (rule datagram_accepted [OF tb(1) wf cl])
      (simp_all add: tb toLocal_def PACKET_LIFE_TIME_MS_def time_min_def)
  moreover have "receives (refresh_subscribers 0 [7] p) 0 ?r"
    unfolding receives_def using same(4) tb(3) ref(2) by (simp add: prepareRead_def)
  ultimately have "?r \<in> set (routed 0 [7] [] 18 (tb_sent [] tb) 0 6000 fresh p 0)" by (simp add: routed_def)
  then show "?r \<in> set (inQ (servers (dispatch_round 0 [7] [] 18 (tb_sent [] tb) 0 6000 fresh p) ! 0))"
    using dispatch_round_routed [OF refresh_table_ok [OF assms(4) ref(3)], of 0] by (simp add: p_def)
qed


end
