(* ===== verification/Graph_IO.thy ===== *)
theory Graph_IO
  imports Iostreams
begin

text \<open>
  \<open>GraphIO\<close> of \<open>utils/graphio.h\<close> and \<open>utils/graphio.cpp\<close>: graphs as text in the DOT language,
  one node or edge per line.  A file is the list of its characters; the writers return what they
  append to it.  The main property is the round trip through both.
\<close>

section \<open>Data\<close>

record GraphNode =
  node_id :: u32
  node_label :: int

record GraphEdge =
  edge_from :: u32
  edge_to :: u32
  edge_label :: int

section \<open>Writing\<close>

text \<open>\<open>InitGraph\<close> names the graph by the time, in milliseconds since 1970.\<close>

definition yr20 :: int where
  "yr20 = (2020 - 1970) * 365 * 24 * 60 * 60 * 1000"

definition graph_name :: "int \<Rightarrow> string" where
  "graph_name now =
    (let t = (now - yr20) sdiv 100; frac = show_int (t smod 100000)
     in show_int (t sdiv 100000) @ ''_'' @ replicate (5 - length frac) (CHR ''0'') @ frac)"

definition InitGraph :: "string \<Rightarrow> string" where
  "InitGraph gname = ''digraph '' @ gname @ '' {'' @ [NL]"

definition WriteNode :: "u32 \<Rightarrow> int \<Rightarrow> string" where
  "WriteNode i label = show_word i @ '' [label='' @ show_int label @ '']'' @ [NL]"

definition WriteEdge :: "u32 \<Rightarrow> u32 \<Rightarrow> int \<Rightarrow> string" where
  "WriteEdge from to label = show_word from @ '' -> '' @ show_word to @ '' [label='' @ show_int label @ '']'' @ [NL]"

definition CloseGraph :: string where
  "CloseGraph = ''}'' @ [NL]"

section \<open>Parsing\<close>

text \<open>\<open>strtok\<close> with the delimiters blank and \<open>=\<close>, on the line up to its first zero.\<close>

definition delim :: "char \<Rightarrow> bool" where
  "delim c \<longleftrightarrow> c = CHR '' '' \<or> c = CHR ''=''"

lemma strtok_shorter:
  "dropWhile delim s \<noteq> [] \<Longrightarrow> length (dropWhile (\<lambda>c. \<not> delim c) (dropWhile delim s)) < length s"
proof -
  assume "dropWhile delim s \<noteq> []"
  then obtain c cs where c: "dropWhile delim s = c # cs" "\<not> delim c"
    by (metis hd_dropWhile list.collapse)
  then have "length (dropWhile (\<lambda>c. \<not> delim c) (dropWhile delim s)) \<le> length cs"
    by (simp add: length_dropWhile_le)
  also have "\<dots> < length (dropWhile delim s)" by (simp add: c)
  also have "\<dots> \<le> length s" by (rule length_dropWhile_le)
  finally show ?thesis .
qed

function strtok_all :: "string \<Rightarrow> string list" where
  "strtok_all s =
    (let r = dropWhile delim s
     in if r = [] then []
        else takeWhile (\<lambda>c. \<not> delim c) r # strtok_all (dropWhile (\<lambda>c. \<not> delim c) r))"
  by pat_completeness auto

termination
  by (relation "measure length") (simp_all add: strtok_shorter del: dropWhile_eq_Nil_conv)

declare strtok_all.simps [simp del]

definition tokenize :: "string \<Rightarrow> string list" where
  "tokenize str = strtok_all (c_string str)"

text \<open>The first label among the tokens that \<open>atoi\<close> does not read as 0.\<close>

fun first_label :: "string list \<Rightarrow> int" where
  "first_label [] = - 1"
| "first_label (t # ts) = (let label = atoi t in if label \<noteq> 0 then label else first_label ts)"

definition ParseLabel :: "string list \<Rightarrow> nat \<Rightarrow> int" where
  "ParseLabel tokens start = first_label (drop start tokens)"

text \<open>\<open>ParseLine\<close>; \<open>None\<close> is the access to \<open>tokens[2]\<close> of a line that has only two tokens.\<close>

definition ParseLine :: "string \<Rightarrow> GraphNode list \<times> GraphEdge list \<Rightarrow> (GraphNode list \<times> GraphEdge list) option" where
  "ParseLine line = (\<lambda>(nodesOut, edgesOut).
    let tokens = tokenize line
    in if length tokens < 2 then Some (nodesOut, edgesOut)
       else if CHR ''-'' \<in> set (tokens ! 1) then
         (if length tokens < 3 then None
          else let label = ParseLabel tokens 3
            in Some (nodesOut, edgesOut @ [\<lparr>edge_from = word_of_int (atoi (tokens ! 0)),
                 edge_to = word_of_int (atoi (tokens ! 2)), edge_label = label\<rparr>]))
       else let node = atoi (tokens ! 0)
         in if node \<noteq> 0 then
              (let label = ParseLabel tokens 2
               in Some (nodesOut @ [\<lparr>node_id = word_of_int node, node_label = label\<rparr>], edgesOut))
            else Some (nodesOut, edgesOut))"

fun ParseLines :: "string list \<Rightarrow> GraphNode list \<times> GraphEdge list \<Rightarrow> (GraphNode list \<times> GraphEdge list) option" where
  "ParseLines [] g = Some g"
| "ParseLines (l # ls) g = (case ParseLine l g of None \<Rightarrow> None | Some g' \<Rightarrow> ParseLines ls g')"

text \<open>
  \<open>Parse\<close>: a file that cannot be opened reads as one without lines.  Nothing in it throws a
  string, so the result is always true.
\<close>

definition Parse :: "string option \<Rightarrow> GraphNode list \<times> GraphEdge list \<Rightarrow> (bool \<times> GraphNode list \<times> GraphEdge list) option" where
  "Parse file g =
    (case ParseLines (case file of None \<Rightarrow> [] | Some s \<Rightarrow> getlines s) g of
       None \<Rightarrow> None
     | Some (ns, es) \<Rightarrow> Some (True, ns, es))"

section \<open>Tokens of the lines that are written\<close>

definition no_delim :: "string \<Rightarrow> bool" where
  "no_delim w \<longleftrightarrow> w \<noteq> [] \<and> list_all (\<lambda>c. \<not> delim c) w"

lemma strtok_Nil [simp]: "strtok_all [] = []"
  by (simp add: strtok_all.simps)

lemma strtok_delim: "delim d \<Longrightarrow> strtok_all (d # s) = strtok_all s"
  by (subst (1 2) strtok_all.simps) simp

lemma strtok_token:
  assumes "no_delim w" "r = [] \<or> delim (hd r)"
  shows "strtok_all (w @ r) = w # strtok_all r"
proof -
  obtain c cs where w: "w = c # cs" "\<not> delim c" using assms(1) by (cases w) (auto simp: no_delim_def)
  have "takeWhile (\<lambda>c. \<not> delim c) (w @ r) = w" "dropWhile (\<lambda>c. \<not> delim c) (w @ r) = r"
    using assms by (auto simp: takeWhile_append dropWhile_append no_delim_def list_all_iff
        takeWhile_eq_Nil_iff split: list.splits) (cases r; simp)+
  then show ?thesis using w by (subst strtok_all.simps) (simp add: Let_def)
qed

lemma c_string_id: "NUL \<notin> set s \<Longrightarrow> c_string s = s"
  by (simp add: c_string_def takeWhile_eq_all_conv) metis

lemma show_nat_chars: "c \<in> set (show_nat n) \<Longrightarrow> \<not> delim c \<and> c \<noteq> NL \<and> c \<noteq> NUL \<and> c \<noteq> CHR ''-''"
  using show_nat_digits [of c n] by (auto simp: is_digit_def delim_def less_eq_char_def)

lemma show_word_chars: "c \<in> set (show_word w) \<Longrightarrow> \<not> delim c \<and> c \<noteq> NL \<and> c \<noteq> NUL \<and> c \<noteq> CHR ''-''"
  unfolding show_word_def by (rule show_nat_chars)

lemma show_int_chars: "c \<in> set (show_int i) \<Longrightarrow> \<not> delim c \<and> c \<noteq> NL \<and> c \<noteq> NUL"
  using show_nat_chars [of c] by (auto simp: show_int_def delim_def split: if_splits)

lemma no_delim_show_word: "no_delim (show_word w)"
  using show_word_chars [of _ w] by (auto simp: no_delim_def list_all_iff show_word_def)

text \<open>What the writers put on a line, without the newline.\<close>

definition node_line :: "u32 \<Rightarrow> int \<Rightarrow> string" where
  "node_line i label = show_word i @ '' [label='' @ show_int label @ '']''"

definition edge_line :: "u32 \<Rightarrow> u32 \<Rightarrow> int \<Rightarrow> string" where
  "edge_line from to label = show_word from @ '' -> '' @ show_word to @ '' [label='' @ show_int label @ '']''"

lemma written_lines:
  "WriteNode i label = node_line i label @ [NL]" "WriteEdge f t label = edge_line f t label @ [NL]"
  by (simp_all add: WriteNode_def WriteEdge_def node_line_def edge_line_def)

lemma label_tokens:
  "strtok_all ('' [label='' @ show_int label @ '']'') = [''[label'', show_int label @ '']'']"
proof -
  have "no_delim ''[label''" "no_delim (show_int label @ '']'')"
    using show_int_chars [of _ label] by (auto simp: no_delim_def list_all_iff delim_def)
  then have "strtok_all (''[label'' @ ''='' @ show_int label @ '']'') = ''[label'' # strtok_all (''='' @ show_int label @ '']'')"
    "strtok_all ((show_int label @ '']'') @ []) = (show_int label @ '']'') # strtok_all []"
    by (intro strtok_token; simp add: delim_def)+
  then show ?thesis by (simp add: strtok_delim delim_def)
qed

lemma node_tokens: "tokenize (node_line i label) = [show_word i, ''[label'', show_int label @ '']'']"
proof -
  have "NUL \<notin> set (node_line i label)"
    using show_word_chars [of NUL i] show_int_chars [of NUL label] by (auto simp: node_line_def)
  moreover have "strtok_all (node_line i label) = show_word i # strtok_all ('' [label='' @ show_int label @ '']'')"
    unfolding node_line_def by (rule strtok_token [OF no_delim_show_word]) (simp add: delim_def)
  ultimately show ?thesis by (simp add: tokenize_def c_string_id label_tokens del: append.simps)
qed

lemma edge_tokens:
  "tokenize (edge_line f t label) = [show_word f, ''->'', show_word t, ''[label'', show_int label @ '']'']"
proof -
  have "NUL \<notin> set (edge_line f t label)"
    using show_word_chars [of NUL f] show_word_chars [of NUL t] show_int_chars [of NUL label]
    by (auto simp: edge_line_def)
  moreover have "strtok_all (edge_line f t label) = show_word f # strtok_all ('' -> '' @ show_word t @ '' [label='' @ show_int label @ '']'')"
    unfolding edge_line_def by (rule strtok_token [OF no_delim_show_word]) (simp add: delim_def)
  moreover have "strtok_all (''->'' @ '' '' @ show_word t @ '' [label='' @ show_int label @ '']'') =
      ''->'' # strtok_all ('' '' @ show_word t @ '' [label='' @ show_int label @ '']'')"
    by (rule strtok_token) (simp_all add: no_delim_def delim_def)
  moreover have "strtok_all (show_word t @ '' [label='' @ show_int label @ '']'') =
      show_word t # strtok_all ('' [label='' @ show_int label @ '']'')"
    by (rule strtok_token [OF no_delim_show_word]) (simp add: delim_def)
  ultimately show ?thesis
    using label_tokens [of label] by (simp add: tokenize_def c_string_id strtok_delim delim_def)
qed

text \<open>A label 0 is read as "no label".\<close>

definition read_label :: "int \<Rightarrow> int" where
  "read_label label = (if label = 0 then - 1 else label)"

lemma first_label_written:
  assumes "signed_range 32 label"
  shows "first_label [''[label'', show_int label @ '']''] = read_label label"
    and "first_label [show_int label @ '']''] = read_label label"
proof -
  from assms have "atoi (show_int label @ '']'') = label"
    by (rule atoi_show_int) (simp add: digits_end_def is_digit_def less_eq_char_def)
  moreover have "atoi ''[label'' = 0"
    by (rule atoi_no_number) (simp_all add: is_digit_def is_space_def less_eq_char_def)
  ultimately show "first_label [''[label'', show_int label @ '']''] = read_label label"
    and "first_label [show_int label @ '']''] = read_label label"
    by (simp_all add: read_label_def)
qed

definition small_id :: "u32 \<Rightarrow> bool" where
  "small_id i \<longleftrightarrow> uint i < 2 ^ 31"

lemma atoi_id: "small_id i \<Longrightarrow> atoi (show_word i) = uint i"
  using atoi_show_word [of i "[]"] by (simp add: small_id_def digits_end_def)

lemma ParseLine_node:
  assumes "small_id i" "i \<noteq> 0" "signed_range 32 label"
  shows "ParseLine (node_line i label) (ns, es) = Some (ns @ [\<lparr>node_id = i, node_label = read_label label\<rparr>], es)"
proof -
  have "uint i \<noteq> 0" using assms(2) by (simp add: uint_0_iff)
  then show ?thesis
    using first_label_written(2) [OF assms(3)] atoi_id [OF assms(1)]
    by (simp add: ParseLine_def node_tokens ParseLabel_def Let_def del: first_label.simps)
qed

lemma ParseLine_edge:
  assumes "small_id f" "small_id t" "signed_range 32 label"
  shows "ParseLine (edge_line f t label) (ns, es) =
    Some (ns, es @ [\<lparr>edge_from = f, edge_to = t, edge_label = read_label label\<rparr>])"
  using first_label_written(1) [OF assms(3)] atoi_id [OF assms(1)] atoi_id [OF assms(2)]
  by (simp add: ParseLine_def edge_tokens ParseLabel_def Let_def del: first_label.simps)

section \<open>Whole files\<close>

text \<open>A graph as a program writes it: name, nodes, edges, end.\<close>

definition write_graph :: "string \<Rightarrow> GraphNode list \<Rightarrow> GraphEdge list \<Rightarrow> string" where
  "write_graph gname ns es = InitGraph gname @
     concat (map (\<lambda>n. WriteNode (node_id n) (node_label n)) ns) @
     concat (map (\<lambda>e. WriteEdge (edge_from e) (edge_to e) (edge_label e)) es) @ CloseGraph"

definition name_ok :: "string \<Rightarrow> bool" where
  "name_ok s \<longleftrightarrow> s \<noteq> [] \<and> (\<forall>c \<in> set s. \<not> delim c \<and> c \<noteq> NL \<and> c \<noteq> NUL \<and> c \<noteq> CHR ''-'')"

definition node_ok :: "GraphNode \<Rightarrow> bool" where
  "node_ok n \<longleftrightarrow> small_id (node_id n) \<and> node_id n \<noteq> 0 \<and> signed_range 32 (node_label n)"

definition edge_ok :: "GraphEdge \<Rightarrow> bool" where
  "edge_ok e \<longleftrightarrow> small_id (edge_from e) \<and> small_id (edge_to e) \<and> signed_range 32 (edge_label e)"

definition read_node :: "GraphNode \<Rightarrow> GraphNode" where
  "read_node n = n\<lparr>node_label := read_label (node_label n)\<rparr>"

definition read_edge :: "GraphEdge \<Rightarrow> GraphEdge" where
  "read_edge e = e\<lparr>edge_label := read_label (edge_label e)\<rparr>"

lemma ParseLines_append:
  "ParseLines (a @ b) g = (case ParseLines a g of None \<Rightarrow> None | Some g' \<Rightarrow> ParseLines b g')"
  by (induction a arbitrary: g) (auto split: option.splits)

lemma no_NL: "NL \<notin> set (node_line i label)" "NL \<notin> set (edge_line f t label)"
  using show_word_chars [of NL] show_int_chars [of NL label] by (auto simp: node_line_def edge_line_def)

lemma getlines_nodes:
  "getlines (concat (map (\<lambda>n. WriteNode (node_id n) (node_label n)) ns) @ r) =
     map (\<lambda>n. node_line (node_id n) (node_label n)) ns @ getlines r"
  by (induction ns) (simp_all add: written_lines getlines_line no_NL)

lemma getlines_edges:
  "getlines (concat (map (\<lambda>e. WriteEdge (edge_from e) (edge_to e) (edge_label e)) es) @ r) =
     map (\<lambda>e. edge_line (edge_from e) (edge_to e) (edge_label e)) es @ getlines r"
  by (induction es) (simp_all add: written_lines getlines_line no_NL)

lemma ParseLines_nodes:
  "list_all node_ok ns \<Longrightarrow>
     ParseLines (map (\<lambda>n. node_line (node_id n) (node_label n)) ns) (ns0, es0) = Some (ns0 @ map read_node ns, es0)"
proof (induction ns arbitrary: ns0)
  case Nil
  then show ?case by simp
next
  case (Cons n ns)
  then show ?case by (cases n) (simp add: node_ok_def ParseLine_node read_node_def)
qed

lemma ParseLines_edges:
  "list_all edge_ok es \<Longrightarrow>
     ParseLines (map (\<lambda>e. edge_line (edge_from e) (edge_to e) (edge_label e)) es) (ns0, es0) =
       Some (ns0, es0 @ map read_edge es)"
proof (induction es arbitrary: es0)
  case Nil
  then show ?case by simp
next
  case (Cons e es)
  then show ?case by (cases e) (simp add: edge_ok_def ParseLine_edge read_edge_def)
qed

lemma ParseLine_header:
  assumes "name_ok gname"
  shows "ParseLine (''digraph '' @ gname @ '' {'') g = Some g" and "NL \<notin> set (''digraph '' @ gname @ '' {'')"
proof -
  have g: "no_delim gname" using assms by (auto simp: name_ok_def no_delim_def list_all_iff)
  have "strtok_all (''digraph'' @ '' '' @ gname @ '' {'') = ''digraph'' # strtok_all ('' '' @ gname @ '' {'')"
    "strtok_all (''{'' @ []) = ''{'' # strtok_all []"
    by (intro strtok_token; simp add: no_delim_def delim_def)+
  moreover have "strtok_all (gname @ '' {'') = gname # strtok_all '' {''"
    using g by (intro strtok_token) (simp_all add: delim_def)
  moreover have "NUL \<notin> set (''digraph '' @ gname @ '' {'')" using assms by (auto simp: name_ok_def)
  ultimately have t: "tokenize (''digraph '' @ gname @ '' {'') = [''digraph'', gname, ''{'']"
    by (simp add: tokenize_def c_string_id strtok_delim delim_def)
  have "atoi ''digraph'' = 0"
    by (rule atoi_no_number) (simp_all add: is_digit_def is_space_def less_eq_char_def)
  moreover have "CHR ''-'' \<notin> set gname" using assms by (auto simp: name_ok_def)
  ultimately show "ParseLine (''digraph '' @ gname @ '' {'') g = Some g"
    using t by (cases g) (simp add: ParseLine_def)
  show "NL \<notin> set (''digraph '' @ gname @ '' {'')" using assms by (auto simp: name_ok_def)
qed

lemma ParseLine_close: "ParseLine ''}'' g = Some g"
proof -
  have "strtok_all (''}'' @ []) = ''}'' # strtok_all []"
    by (rule strtok_token) (simp_all add: no_delim_def delim_def)
  then show ?thesis by (cases g) (simp add: ParseLine_def tokenize_def c_string_def)
qed

lemma graph_name_ok:
  assumes "yr20 \<le> now"
  shows "name_ok (graph_name now)"
proof -
  have t: "0 \<le> (now - yr20) sdiv 100" using assms by (simp add: sdiv_pos)
  define t where "t = (now - yr20) sdiv 100"
  have q: "0 \<le> t sdiv 100000" and m: "0 \<le> t smod 100000"
    using t by (simp_all add: t_def sdiv_pos smod_pos)
  then have s: "show_int (t sdiv 100000) = show_nat (nat (t sdiv 100000))"
    "show_int (t smod 100000) = show_nat (nat (t smod 100000))"
    by (simp_all add: show_int_def)
  show ?thesis
    unfolding graph_name_def t_def [symmetric] Let_def s name_ok_def
    using show_nat_chars by (auto simp: delim_def)
qed

lemma Parse_written:
  assumes "name_ok gname" and "list_all node_ok ns" and "list_all edge_ok es"
  shows "Parse (Some (write_graph gname ns es)) ([], []) = Some (True, map read_node ns, map read_edge es)"
proof -
  note h = ParseLine_header [OF assms(1)]
  have lines: "getlines (write_graph gname ns es) = (''digraph '' @ gname @ '' {'') #
      map (\<lambda>n. node_line (node_id n) (node_label n)) ns @
      map (\<lambda>e. edge_line (edge_from e) (edge_to e) (edge_label e)) es @ [''}'']"
    using getlines_line [OF h(2)] getlines_line [of "''}''" "[]"]
    by (simp add: write_graph_def InitGraph_def CloseGraph_def getlines_nodes getlines_edges)
  show ?thesis
    unfolding Parse_def lines option.case
    by (simp add: h(1) ParseLines_append ParseLines_nodes [OF assms(2)] ParseLines_edges [OF assms(3)]
        ParseLine_close del: append.simps)
qed

text \<open>An example.\<close>

definition tiny_graph :: string where
  "tiny_graph = write_graph ''g'' [\<lparr>node_id = 1, node_label = 5\<rparr>, \<lparr>node_id = 2, node_label = 5\<rparr>]
     [\<lparr>edge_from = 1, edge_to = 2, edge_label = 3\<rparr>]"

lemma tiny_parse: "Parse (Some tiny_graph) ([], []) = Some (True,
   [\<lparr>node_id = 1, node_label = 5\<rparr>, \<lparr>node_id = 2, node_label = 5\<rparr>], [\<lparr>edge_from = 1, edge_to = 2, edge_label = 3\<rparr>])"
proof -
  have "name_ok ''g''" by (simp add: name_ok_def delim_def)
  from Parse_written [OF this, of "[\<lparr>node_id = 1, node_label = 5\<rparr>, \<lparr>node_id = 2, node_label = 5\<rparr>]"
      "[\<lparr>edge_from = 1, edge_to = 2, edge_label = 3\<rparr>]"]
  show ?thesis
    by (simp add: tiny_graph_def node_ok_def edge_ok_def small_id_def signed_range_def read_node_def
        read_edge_def read_label_def)
qed

section \<open>Properties\<close>

text \<open>C20. What the graph programs write they read back: parsing a written file gives its nodes and its
  edges in order, for ids from 1 to \<open>2^31 - 1\<close> (edges may also name 0) and any labels, except
  that a label 0 comes back as -1, "no label".
\<close>

theorem graph_roundtrip:
  assumes "yr20 \<le> now" and "list_all node_ok ns" and "list_all edge_ok es"
  shows "Parse (Some (write_graph (graph_name now) ns es)) ([], []) =
    Some (True, map read_node ns, map read_edge es)"
  by (rule Parse_written [OF graph_name_ok [OF assms(1)] assms(2,3)])

theorem graph_roundtrip_witness:
  "Parse (Some (write_graph (graph_name 1700000000000) [\<lparr>node_id = 1, node_label = 0\<rparr>, \<lparr>node_id = 2, node_label = 1000\<rparr>]
     [\<lparr>edge_from = 1, edge_to = 2, edge_label = - 7\<rparr>])) ([], []) =
   Some (True, [\<lparr>node_id = 1, node_label = - 1\<rparr>, \<lparr>node_id = 2, node_label = 1000\<rparr>],
     [\<lparr>edge_from = 1, edge_to = 2, edge_label = - 7\<rparr>])"
  by (subst graph_roundtrip) (simp_all add: yr20_def node_ok_def edge_ok_def small_id_def signed_range_def
      read_node_def read_edge_def read_label_def)

text \<open>A line that looks like an edge but ends before its second node makes the parser read past its
  tokens; every other line is parsed.
\<close>

theorem ParseLine_undefined_iff:
  "ParseLine line g = None \<longleftrightarrow> (\<exists>a b. tokenize line = [a, b] \<and> CHR ''-'' \<in> set b)"
  by (cases g; cases "tokenize line" rule: remdups_adj.cases)
    (auto simp: ParseLine_def Let_def length_Suc_conv)

end
