(* ===== verification/Client.thy ===== *)
theory Client
  imports Misc Udp Graph_IO "HOL-Library.Monad_Syntax"
begin

text \<open>
  The client of \<open>utils/client.cpp\<close>: it asks the tracker for addresses, sends commands to clusters,
  and builds a whole network from a graph file.

  The state holds the addresses it knows, the outcomes of the reads it will make (when there are
  no more, a read times out), and the datagrams it has sent.  Uninitialised variables are the
  fields of \<open>client_junk\<close>, and \<open>lip\<close> is the loopback address as \<open>localIP\<close> reads it.

  \<open>None\<close> is a call without a defined result: endless recursion, a loop that does not end, or an
  access outside a vector.
\<close>

section \<open>State\<close>

record commander =
  addrs :: "ClusterID \<rightharpoonup> sockaddr"
  reads :: "char select_call list"
  sent :: "(sockaddr \<times> string) list"

record client_junk =
  old_cid :: ClusterID
  old_ip :: IP
  old_port :: u16

definition COMMAND_RETRY_COUNT :: nat where
  "COMMAND_RETRY_COUNT = 3"

text \<open>\<open>clusters[id]\<close> enters a zero address for an unknown id.\<close>

definition no_addr :: sockaddr where
  "no_addr = \<lparr>s_addr = 0, sin_port = 0\<rparr>"

abbreviation addr_of :: "ClusterID \<Rightarrow> commander \<Rightarrow> sockaddr" where
  "addr_of i st \<equiv> at_default no_addr (addrs st) i"

definition touch_addr :: "ClusterID \<Rightarrow> commander \<Rightarrow> commander" where
  "touch_addr i st = st\<lparr>addrs := touch no_addr (addrs st) i\<rparr>"

definition Commander_init :: "sockaddr \<Rightarrow> char select_call list \<Rightarrow> commander" where
  "Commander_init trackerAddr rs = \<lparr>addrs = [TRACKER_CLUSTER_ID \<mapsto> trackerAddr], reads = rs, sent = []\<rparr>"

definition Write :: "string \<Rightarrow> sockaddr \<Rightarrow> commander \<Rightarrow> commander" where
  "Write cmd a st = st\<lparr>sent := sent st @ [(a, cmd @ [NUL])]\<rparr>"

section \<open>Talking to tracker and clusters\<close>

text \<open>
  \<open>waitReply\<close>: the text before the first zero character of the reply, empty after a failure.  The program
  puts a zero behind the bytes it read; with \<open>0xFFFF\<close> of them, more than a datagram of UDP can have, it would put it
  behind the end of the array, which is not modelled.
\<close>

definition waitReply :: "commander \<Rightarrow> string \<times> commander" where
  "waitReply st =
    (case reads st of
       [] \<Rightarrow> ([], st)
     | r # rs \<Rightarrow>
         (case r of
            SelectReady (Received data from) \<Rightarrow>
              if length (take 0xFFFF data) = 0 then [] else c_string (take 0xFFFF data)
          | _ \<Rightarrow> [], st\<lparr>reads := rs\<rparr>))"

text \<open>
  \<open>command\<close> to the tracker itself.  With port 0 it asks the tracker for the address of the
  tracker, by a command to the tracker: the recursion has no end.
\<close>

definition trackerCommand :: "string \<Rightarrow> commander \<Rightarrow> commander option" where
  "trackerCommand cmd st =
    (let st1 = touch_addr TRACKER_CLUSTER_ID st; a = addr_of TRACKER_CLUSTER_ID st1
     in if sin_port a = 0 then None else Some (Write cmd a st1))"

definition getCluster :: "IP \<Rightarrow> client_junk \<Rightarrow> ClusterID \<Rightarrow> commander \<Rightarrow> (ClusterID \<times> commander) option" where
  "getCluster lip junk i st =
    do {
      st1 \<leftarrow> trackerCommand (''GET '' @ show_word i) st;
      let (reply, st2) = waitReply st1;
      let (cmd, rs) = get_word [] (istringstream reply);
      let (retCid, rs) = get_unsigned (old_cid junk) rs;
      let (ip, rs) = get_unsigned (old_ip junk) rs;
      let (port, rs) = get_unsigned (old_port junk) rs;
      let st3 = touch_addr TRACKER_CLUSTER_ID st2;
      let ip = replaceLo lip ip (ucast (s_addr (addr_of TRACKER_CLUSTER_ID st3)));
      if cmd \<noteq> ''POINT'' \<or> retCid \<noteq> i then Some (0, st3)
      else Some (i, st3\<lparr>addrs := (addrs st3)(i \<mapsto> \<lparr>s_addr = ucast ip, sin_port = port\<rparr>)\<rparr>)
    }"

text \<open>At most \<open>n\<close> more requests for an address that is not known.\<close>

fun request_addr :: "IP \<Rightarrow> client_junk \<Rightarrow> ClusterID \<Rightarrow> nat \<Rightarrow> commander \<Rightarrow> commander option" where
  "request_addr lip junk i 0 st = Some st"
| "request_addr lip junk i (Suc n) st =
    (if sin_port (addr_of i st) = 0 then
       do { (_, st1) \<leftarrow> getCluster lip junk i st; request_addr lip junk i n (touch_addr i st1) }
     else Some st)"

definition command :: "IP \<Rightarrow> client_junk \<Rightarrow> ClusterID \<Rightarrow> string \<Rightarrow> commander \<Rightarrow> (int \<times> commander) option" where
  "command lip junk i cmd st =
    do {
      st1 \<leftarrow> request_addr lip junk i 3 (touch_addr i st);
      if sin_port (addr_of i st1) = 0 then Some (1, st1)
      else Some (0, Write cmd (addr_of i st1) st1)
    }"

fun retry_loop :: "IP \<Rightarrow> client_junk \<Rightarrow> nat \<Rightarrow> ClusterID \<Rightarrow> string \<Rightarrow> commander \<Rightarrow> (string \<times> commander) option" where
  "retry_loop lip junk retry i cmd st =
    do {
      (_, st1) \<leftarrow> command lip junk i cmd st;
      let (reply, st2) = waitReply st1;
      case retry of
        0 \<Rightarrow> Some (reply, st2)
      | Suc r \<Rightarrow> if reply \<noteq> ''ACK'' then retry_loop lip junk r i cmd st2 else Some (reply, st2)
    }"

declare retry_loop.simps [simp del]

definition commandWithRetry :: "IP \<Rightarrow> client_junk \<Rightarrow> ClusterID \<Rightarrow> string \<Rightarrow> commander \<Rightarrow> (bool \<times> commander) option" where
  "commandWithRetry lip junk i cmd st =
    do { (reply, st1) \<leftarrow> retry_loop lip junk COMMAND_RETRY_COUNT i cmd st; Some (reply = ''ACK'', st1) }"

definition showReply :: "commander \<Rightarrow> bool \<times> commander" where
  "showReply st = (case waitReply st of (rep, st1) \<Rightarrow> (rep = ''ACK'', st1))"

section \<open>Lists of clusters\<close>

lemma get_unsigned_consumes:
  assumes "get_unsigned old is = (v, is')" "good is'"
  shows "size is' < size is"
proof (cases "sentry is")
  case (Pair ok is1)
  show ?thesis
  proof (cases ok)
    case False
    then show ?thesis
      using assms Pair by (auto simp: get_unsigned_def sentry_def good_def Let_def split: if_splits)
  next
    case True
    obtain neg ds r where s: "split_number (inp is1) = (neg, ds, r)" by (cases "split_number (inp is1)")
    have i1: "inp is1 = dropWhile is_space (inp is)"
      using True Pair by (auto simp: sentry_def Let_def split: if_splits)
    have ne: "ds \<noteq> []" and r: "inp is' = r"
      using assms True Pair s by (auto simp: get_unsigned_def good_def Let_def split: if_splits)
    define q where "q = (if (case inp is1 of c # _ \<Rightarrow> c = CHR ''-'' \<or> c = CHR ''+'' | [] \<Rightarrow> False) then tl (inp is1) else inp is1)"
    have "ds = takeWhile is_digit q" "r = dropWhile is_digit q"
      using s by (simp_all add: split_number_def Let_def q_def)
    then have "length r < length q"
      using ne by (metis append_Nil2 length_append length_greater_0_conv less_add_same_cancel2 takeWhile_dropWhile_id)
    also have "length q \<le> length (inp is1)" by (simp add: q_def)
    also have "\<dots> \<le> length (inp is)" by (simp add: i1 length_dropWhile_le)
    finally show ?thesis by (simp add: r size_istream_ext_def)
  qed
qed

function read_ids :: "ClusterID \<Rightarrow> istream \<Rightarrow> ClusterID list" where
  "read_ids junk ss =
    (if good ss then
       (case get_unsigned junk ss of
          (i, ss') \<Rightarrow> (if i \<noteq> 0 \<and> \<not> failbit ss' then [i] else []) @ (if good ss' then read_ids junk ss' else []))
     else [])"
  by pat_completeness auto

termination
  by (relation "measure (size \<circ> snd)") (auto dest: get_unsigned_consumes [OF sym])

declare read_ids.simps [simp del]

definition listClusters :: "client_junk \<Rightarrow> commander \<Rightarrow> (ClusterID list \<times> commander) option" where
  "listClusters junk st =
    do {
      st1 \<leftarrow> trackerCommand ''LIST'' st;
      let (reply, st2) = waitReply st1;
      Some (read_ids (old_cid junk) (istringstream reply), st2)
    }"

fun getAll :: "IP \<Rightarrow> client_junk \<Rightarrow> ClusterID list \<Rightarrow> commander \<Rightarrow> commander option" where
  "getAll lip junk [] st = Some st"
| "getAll lip junk (i # is) st = do { (_, st1) \<leftarrow> getCluster lip junk i st; getAll lip junk is st1 }"

definition getClusters :: "IP \<Rightarrow> client_junk \<Rightarrow> commander \<Rightarrow> (nat \<times> commander) option" where
  "getClusters lip junk st =
    do {
      (ids, st1) \<leftarrow> listClusters junk st;
      st2 \<leftarrow> getAll lip junk ids st1;
      Some (length ids, st2)
    }"

section \<open>Building a network\<close>

text \<open>
  Waiting for enough clusters to join.  Erasing the time server from a list without it erases
  the end iterator.
\<close>

partial_function (option) waitClusters :: "client_junk \<Rightarrow> nat \<Rightarrow> commander \<Rightarrow> (ClusterID list \<times> commander) option" where
  "waitClusters junk n st =
    do {
      (ids, st1) \<leftarrow> listClusters junk st;
      if TIME_SERVER_ID \<notin> set ids then None
      else if length (remove1 TIME_SERVER_ID ids) < n then waitClusters junk n st1
      else Some (remove1 TIME_SERVER_ID ids, st1)
    }"

text \<open>The \<open>i\<close>th cluster gets the id of the \<open>i\<close>th node; false is the early return.\<close>

fun issueIds :: "IP \<Rightarrow> client_junk \<Rightarrow> ClusterID list \<Rightarrow> GraphNode list \<Rightarrow> commander \<Rightarrow> (bool \<times> commander) option" where
  "issueIds lip junk [] nodes st = Some (True, st)"
| "issueIds lip junk (i # is) [] st = None"
| "issueIds lip junk (i # is) (n # ns) st =
    do {
      (ok, st1) \<leftarrow> commandWithRetry lip junk i (''RUN '' @ show_word (node_id n)) st;
      if ok then issueIds lip junk is ns st1 else Some (False, st1)
    }"

definition forget_clusters :: "commander \<Rightarrow> commander" where
  "forget_clusters st =
    (let st1 = touch_addr TRACKER_CLUSTER_ID st
     in st1\<lparr>addrs := [TRACKER_CLUSTER_ID \<mapsto> addr_of TRACKER_CLUSTER_ID st1]\<rparr>)"

fun addNodes :: "IP \<Rightarrow> client_junk \<Rightarrow> GraphNode list \<Rightarrow> commander \<Rightarrow> commander option" where
  "addNodes lip junk [] st = Some st"
| "addNodes lip junk (n # ns) st =
    (if node_label n > 0 then
       do {
         (_, st1) \<leftarrow> commandWithRetry lip junk (node_id n) (''ADD '' @ show_int (node_label n)) st;
         addNodes lip junk ns st1
       }
     else addNodes lip junk ns st)"

definition edge_command :: "GraphEdge \<Rightarrow> string" where
  "edge_command e = ''CONNECT '' @ show_word (edge_to e) @ '' '' @ show_int (edge_label e)"

fun connectEdges :: "IP \<Rightarrow> client_junk \<Rightarrow> GraphEdge list \<Rightarrow> commander \<Rightarrow> (bool \<times> commander) option" where
  "connectEdges lip junk [] st = Some (True, st)"
| "connectEdges lip junk (e # es) st =
    (if edge_label e > 0 then
       do {
         (ok, st1) \<leftarrow> commandWithRetry lip junk (edge_from e) (edge_command e) st;
         if ok then connectEdges lip junk es st1 else Some (False, st1)
       }
     else connectEdges lip junk es st)"

definition createNetwork :: "IP \<Rightarrow> client_junk \<Rightarrow> string option \<Rightarrow> commander \<Rightarrow> (int \<times> commander) option" where
  "createNetwork lip junk file st =
    do {
      (ok, nodes, edges) \<leftarrow> Parse file ([], []);
      if \<not> ok then Some (- 1, st)
      else do {
        (ids, st1) \<leftarrow> waitClusters junk (length nodes) st;
        st2 \<leftarrow> getAll lip junk ids st1;
        (issued, st3) \<leftarrow> issueIds lip junk ids nodes st2;
        if \<not> issued then Some (0, st3)
        else do {
          st4 \<leftarrow> getAll lip junk ids (forget_clusters st3);
          st5 \<leftarrow> addNodes lip junk nodes st4;
          (_, st6) \<leftarrow> connectEdges lip junk edges st5;
          Some (0, st6)
        }
      }
    }"

section \<open>The command line\<close>

text \<open>\<open>cmd\<close> is \<open>argv[3]\<close> and \<open>args\<close> what follows it; \<open>files\<close> the contents of the files.\<close>

definition command_and_reply :: "IP \<Rightarrow> client_junk \<Rightarrow> ClusterID \<Rightarrow> string \<Rightarrow> commander \<Rightarrow> (int \<times> commander) option" where
  "command_and_reply lip junk i cmd st =
    do {
      (_, st1) \<leftarrow> command lip junk i cmd st;
      let (ok, st2) = showReply st1;
      Some (if ok then 1 else 0, st2)
    }"

definition id_arg :: "string \<Rightarrow> ClusterID" where
  "id_arg s = word_of_int (atoi s)"

definition client_main :: "IP \<Rightarrow> client_junk \<Rightarrow> (string \<Rightarrow> string option) \<Rightarrow> string \<Rightarrow> string list \<Rightarrow> commander \<Rightarrow>
    (int \<times> commander) option" where
  "client_main lip junk files cmd args st =
    (if cmd = ''list'' then do { (k, st1) \<leftarrow> getClusters lip junk st; Some (int k, st1) }
     else if cmd = ''get'' then
       (if length args < 1 then Some (1, st)
        else do { (_, st1) \<leftarrow> getCluster lip junk (id_arg (args ! 0)) st; Some (0, st1) })
     else if cmd = ''create'' then
       (if length args < 1 then Some (1, st)
        else do {
          (_, st1) \<leftarrow> createNetwork lip junk (files (args ! 0)) st;
          let (ok, st2) = showReply st1;
          Some (if ok then 1 else 0, st2)
        })
     else if cmd = ''info'' then
       (if length args < 1 then Some (1, st)
        else command_and_reply lip junk (id_arg (args ! 0)) ''INFO'' st)
     else if cmd = ''add'' then
       (if length args < 2 then Some (1, st)
        else command_and_reply lip junk (id_arg (args ! 0)) (''ADD '' @ args ! 1) st)
     else if cmd = ''run'' then
       (if length args < 2 then Some (1, st)
        else command_and_reply lip junk (id_arg (args ! 0)) (''RUN '' @ args ! 1) st)
     else if cmd = ''save'' then
       (if length args < 2 then Some (1, st)
        else command_and_reply lip junk (id_arg (args ! 0)) (''SAVE '' @ args ! 1) st)
     else if cmd = ''load'' then
       (if length args < 2 then Some (1, st)
        else command_and_reply lip junk (id_arg (args ! 0)) (''LOAD '' @ args ! 1) st)
     else if cmd = ''drop'' then
       (if length args < 2 then Some (1, st)
        else command_and_reply lip junk (id_arg (args ! 1)) (''DROP '' @ args ! 0) st)
     else if cmd = ''connect'' then
       (if length args < 2 then Some (1, st)
        else command_and_reply lip junk (id_arg (args ! 1)) (''CONNECT '' @ args ! 0) st)
     else if id_arg cmd \<noteq> 0 then
       (if length args < 1 then Some (1, st)
        else command_and_reply lip junk (id_arg cmd) (args ! 0) st)
     else Some (1, st))"

text \<open>
  \<open>main\<close> up to the commands: the exit code, or the state to run one in.  The resolver's answer is
  an argument, and so are the outcomes of the reads.
\<close>

definition client_start :: "(string \<Rightarrow> IP option) \<Rightarrow> string list \<Rightarrow> char select_call list \<Rightarrow> int + commander" where
  "client_start gethostbyname argv rs =
    (if length argv < 4 then Inl 0
     else case gethostbyname (argv ! 1) of
       None \<Rightarrow> Inl 1
     | Some ip \<Rightarrow>
         let port = word_of_int (atoi (argv ! 2)) :: u16
         in if port = 0 then Inl 1
            else Inr (Commander_init \<lparr>s_addr = ucast ip, sin_port = htons port\<rparr> rs))"

section \<open>Commands to a known cluster\<close>

definition reply_text :: "char select_call \<Rightarrow> string" where
  "reply_text r = (case r of SelectReady (Received data from) \<Rightarrow> c_string (take 0xFFFF data) | _ \<Rightarrow> [])"

text \<open>The text of the \<open>j\<close>th read from now on.\<close>

definition reply_at :: "commander \<Rightarrow> nat \<Rightarrow> string" where
  "reply_at st j = (if j < length (reads st) then reply_text (reads st ! j) else [])"

lemma waitReply_eq: "waitReply st = (reply_at st 0, st\<lparr>reads := drop 1 (reads st)\<rparr>)"
proof (cases "reads st")
  case Nil
  then show ?thesis by (simp add: waitReply_def reply_at_def)
next
  case (Cons r rs)
  then show ?thesis
    by (auto simp: waitReply_def reply_at_def reply_text_def c_string_def min_def
        split: select_call.splits recv_call.splits if_splits)
qed

abbreviation known :: "ClusterID \<Rightarrow> commander \<Rightarrow> bool" where
  "known i st \<equiv> sin_port (addr_of i st) \<noteq> 0"

lemma known_touch: "known i st \<Longrightarrow> touch_addr i st = st"
  by (cases "addrs st i") (simp_all add: touch_addr_def touch_same no_addr_def)

lemma command_known: "known i st \<Longrightarrow> command lip junk i cmd st = Some (0, Write cmd (addr_of i st) st)"
  by (simp add: command_def known_touch numeral_3_eq_3)

lemma trackerCommand_known:
  "known TRACKER_CLUSTER_ID st \<Longrightarrow>
     trackerCommand cmd st = Some (Write cmd (addr_of TRACKER_CLUSTER_ID st) st)"
  by (simp add: trackerCommand_def known_touch Let_def)

lemma reply_at_drop: "reply_at (st\<lparr>reads := drop k (reads st), sent := s\<rparr>) j = reply_at st (k + j)"
  by (simp add: reply_at_def less_diff_conv add.commute nth_drop)

definition after_attempts :: "nat \<Rightarrow> ClusterID \<Rightarrow> string \<Rightarrow> commander \<Rightarrow> commander" where
  "after_attempts k i cmd st =
    st\<lparr>reads := drop k (reads st), sent := sent st @ replicate k (addr_of i st, cmd @ [NUL])\<rparr>"

lemma wait_after_write:
  "waitReply (Write cmd (addr_of i st) st) = (reply_at st 0, after_attempts 1 i cmd st)"
  by (cases st) (simp add: waitReply_eq Write_def after_attempts_def reply_at_def)

lemma retry_once:
  "known i st \<Longrightarrow> retry_loop lip junk r i cmd st =
     (case r of
        0 \<Rightarrow> Some (reply_at st 0, after_attempts 1 i cmd st)
      | Suc r' \<Rightarrow> if reply_at st 0 \<noteq> ''ACK'' then retry_loop lip junk r' i cmd (after_attempts 1 i cmd st)
          else Some (reply_at st 0, after_attempts 1 i cmd st))"
  by (subst retry_loop.simps)
    (simp add: command_known wait_after_write split: nat.splits)

lemma after_attempts_simps [simp]:
  "addrs (after_attempts k i cmd st) = addrs st"
  "reply_at (after_attempts k i cmd st) j = reply_at st (k + j)"
  "after_attempts m i cmd (after_attempts k i cmd st) = after_attempts (k + m) i cmd st"
  by (simp_all add: after_attempts_def reply_at_drop replicate_add add.commute)

lemma retry_loop_known:
  "known i st \<Longrightarrow> \<exists>k. k \<le> r \<and>
     retry_loop lip junk r i cmd st = Some (reply_at st k, after_attempts (Suc k) i cmd st) \<and>
     (\<forall>j<k. reply_at st j \<noteq> ''ACK'') \<and> (reply_at st k \<noteq> ''ACK'' \<longrightarrow> k = r)"
proof (induction r arbitrary: st)
  case 0
  then show ?case by (auto simp: retry_once)
next
  case (Suc r)
  show ?case
  proof (cases "reply_at st 0 = ''ACK''")
    case True
    then show ?thesis using Suc.prems by (intro exI [of _ 0]) (simp add: retry_once)
  next
    case False
    let ?st = "after_attempts 1 i cmd st"
    obtain k where "k \<le> r" "retry_loop lip junk r i cmd ?st = Some (reply_at ?st k, after_attempts (Suc k) i cmd ?st)"
        "\<forall>j<k. reply_at ?st j \<noteq> ''ACK''" "reply_at ?st k \<noteq> ''ACK'' \<longrightarrow> k = r"
      using Suc.IH [of ?st] Suc.prems by auto
    then show ?thesis
      using Suc.prems False
      by (intro exI [of _ "Suc k"]) (auto simp: retry_once less_Suc_eq_0_disj)
  qed
qed

lemma commandWithRetry_ack:
  assumes "known i st" "reply_at st 0 = ''ACK''"
  shows "commandWithRetry lip junk i cmd st = Some (True, after_attempts 1 i cmd st)"
  using assms by (simp add: commandWithRetry_def retry_once COMMAND_RETRY_COUNT_def numeral_3_eq_3)

section \<open>What building a network asks for\<close>

lemma issueIds_enough: "issueIds lip junk is ns st = Some (True, st') \<Longrightarrow> length is \<le> length ns"
proof (induction lip junk "is" ns st rule: issueIds.induct)
  case (3 lip junk i "is" n ns st)
  then show ?case by (auto simp: bind_eq_Some_conv split: if_splits)
qed simp_all

lemma waitClusters_unfold:
  "known TRACKER_CLUSTER_ID st \<Longrightarrow> TIME_SERVER_ID \<notin> set (read_ids (old_cid junk) (istringstream (reply_at st 0))) \<Longrightarrow>
     waitClusters junk n st = None"
  by (subst waitClusters.simps)
    (simp add: listClusters_def trackerCommand_known wait_after_write)

text \<open>All replies are acknowledgements, and each address is known.\<close>

definition acknowledged :: "nat \<Rightarrow> commander \<Rightarrow> bool" where
  "acknowledged k st \<longleftrightarrow> (\<forall>j<k. reply_at st j = ''ACK'')"

lemma connectEdges_sent:
  assumes "list_all (\<lambda>e. known (edge_from e) st \<and> edge_label e > 0) es" "acknowledged (length es) st"
  shows "connectEdges lip junk es st = Some (True, st\<lparr>reads := drop (length es) (reads st),
    sent := sent st @ map (\<lambda>e. (addr_of (edge_from e) st, edge_command e @ [NUL])) es\<rparr>)"
  using assms
proof (induction es arbitrary: st)
  case Nil
  then show ?case by simp
next
  case (Cons e es)
  let ?st = "after_attempts 1 (edge_from e) (edge_command e) st"
  have "commandWithRetry lip junk (edge_from e) (edge_command e) st = Some (True, ?st)"
    using Cons.prems by (intro commandWithRetry_ack) (simp_all add: acknowledged_def)
  moreover have "connectEdges lip junk es ?st = Some (True, ?st\<lparr>reads := drop (length es) (reads ?st),
      sent := sent ?st @ map (\<lambda>e. (addr_of (edge_from e) ?st, edge_command e @ [NUL])) es\<rparr>)"
    using Cons.prems by (intro Cons.IH) (auto simp: acknowledged_def list_all_iff)
  ultimately show ?case
    using Cons.prems by (simp add: after_attempts_def)
qed

text \<open>The tracker's address is known from the start, so the endless recursion does not happen then.\<close>

lemma client_start_known: "client_start gethostbyname argv rs = Inr st \<Longrightarrow> known TRACKER_CLUSTER_ID st"
  by (auto simp: client_start_def Commander_init_def Let_def htons_nonzero split: if_splits option.splits)

section \<open>Properties\<close>

text \<open>C23. A command to a cluster whose address is known is sent until it is acknowledged, at most four
  times; it succeeds exactly when one of the replies to these attempts is \<open>ACK\<close>, and a timeout,
  an error or any other text counts as no acknowledgement.
\<close>

theorem commandWithRetry_spec:
  assumes "known i st"
  shows "\<exists>k \<le> 3. commandWithRetry lip junk i cmd st =
      Some (reply_at st k = ''ACK'', st\<lparr>reads := drop (Suc k) (reads st),
        sent := sent st @ replicate (Suc k) (addr_of i st, cmd @ [NUL])\<rparr>) \<and>
    (\<forall>j<k. reply_at st j \<noteq> ''ACK'') \<and> (reply_at st k \<noteq> ''ACK'' \<longrightarrow> k = 3)"
proof -
  obtain k where "k \<le> 3" "retry_loop lip junk 3 i cmd st = Some (reply_at st k, after_attempts (Suc k) i cmd st)"
      "\<forall>j<k. reply_at st j \<noteq> ''ACK''" "reply_at st k \<noteq> ''ACK'' \<longrightarrow> k = 3"
    using retry_loop_known [OF assms, of 3 lip junk cmd] by blast
  then show ?thesis
    by (intro exI [of _ k]) (simp add: commandWithRetry_def COMMAND_RETRY_COUNT_def after_attempts_def)
qed

definition example_commander :: commander where
  "example_commander = Commander_init \<lparr>s_addr = 1, sin_port = 2\<rparr>
     [SelectTimeout, SelectReady (Received (''ACK'' @ [NUL]) \<lparr>s_addr = 1, sin_port = 2\<rparr>)]"

theorem commandWithRetry_spec_witness:
  "\<exists>st'. commandWithRetry 0 \<lparr>old_cid = 0, old_ip = 0, old_port = 0\<rparr> 0 ''INFO'' example_commander = Some (True, st') \<and>
     length (sent st') = 2"
proof -
  have k: "known 0 example_commander"
    by (simp add: example_commander_def Commander_init_def TRACKER_CLUSTER_ID_def)
  have r: "reply_at example_commander 0 = []" "reply_at example_commander 1 = ''ACK''" "sent example_commander = []"
    by (simp_all add: example_commander_def Commander_init_def reply_at_def reply_text_def c_string_def)
  obtain n where n: "n \<le> 3" "commandWithRetry 0 \<lparr>old_cid = 0, old_ip = 0, old_port = 0\<rparr> 0 ''INFO'' example_commander =
      Some (reply_at example_commander n = ''ACK'', example_commander\<lparr>reads := drop (Suc n) (reads example_commander),
        sent := sent example_commander @ replicate (Suc n) (addr_of 0 example_commander, ''INFO'' @ [NUL])\<rparr>)"
      "\<forall>j<n. reply_at example_commander j \<noteq> ''ACK''" "reply_at example_commander n \<noteq> ''ACK'' \<longrightarrow> n = 3"
    using commandWithRetry_spec [OF k, of 0 "\<lparr>old_cid = 0, old_ip = 0, old_port = 0\<rparr>" "''INFO''"] by blast
  have "n \<noteq> 0" using n(4) r(1) by (cases n) simp_all
  moreover have "\<not> 1 < n" using n(3) r(2) by metis
  ultimately have "n = 1" by simp
  with n(2) r show ?thesis by simp
qed

text \<open>The network cannot be built without the time server: when the tracker's list lacks it, the end
  of the list is erased; the same call is well defined otherwise.
\<close>

theorem createNetwork_needs_time_server:
  assumes "known TRACKER_CLUSTER_ID st" and "Parse file ([], []) = Some (True, nodes, edges)"
    and "TIME_SERVER_ID \<notin> set (read_ids (old_cid junk) (istringstream (reply_at st 0)))"
  shows "createNetwork lip junk file st = None"
  using waitClusters_unfold [OF assms(1,3)] assms(2) by (simp add: createNetwork_def)

theorem createNetwork_needs_time_server_witness:
  "createNetwork 0 \<lparr>old_cid = 0, old_ip = 0, old_port = 0\<rparr> None example_commander = None"
proof (rule createNetwork_needs_time_server)
  show "known TRACKER_CLUSTER_ID example_commander"
    by (simp add: example_commander_def Commander_init_def TRACKER_CLUSTER_ID_def)
  show "Parse None ([], []) = Some (True, [], [])" by (simp add: Parse_def)
  have "reply_at example_commander 0 = []"
    by (simp add: example_commander_def Commander_init_def reply_at_def reply_text_def)
  then show "TIME_SERVER_ID \<notin> set (read_ids (old_cid \<lparr>old_cid = 0, old_ip = 0, old_port = 0\<rparr>)
      (istringstream (reply_at example_commander 0)))"
    by (simp add: istringstream_def read_ids.simps get_unsigned_def sentry_def good_def)
qed

end
