(* ===== verification/Client_Create.thy ===== *)
theory Client_Create
  imports Client
begin

text \<open>
  The conversation of the client with the tracker and the clusters while it builds a network from
  a graph file (\<open>Commander::createNetwork\<close> of \<open>utils/client.cpp\<close>).  The messages are those the tracker
  (\<open>utils/tracker.cpp\<close>) and the servers print.  Each lemma says, for one phase, what is sent
  when the next replies are the expected ones, and which replies are left.
\<close>

section \<open>Replies\<close>

abbreviation replies :: "commander \<Rightarrow> string list" where
  "replies st \<equiv> map reply_text (reads st)"

abbreviation tracker_addr_of :: "commander \<Rightarrow> sockaddr" where
  "tracker_addr_of \<equiv> addr_of TRACKER_CLUSTER_ID"

lemma reply_at_first: "replies st = t # ts \<Longrightarrow> reply_at st 0 = t"
  by (auto simp: reply_at_def)

lemma replies_attempt: "replies st = t # ts \<Longrightarrow> replies (after_attempts (Suc 0) i cmd st) = ts"
  by (auto simp: after_attempts_def)

lemma sent_attempt [simp]: "sent (after_attempts (Suc 0) i cmd st) = sent st @ [(addr_of i st, cmd @ [NUL])]"
  by (simp add: after_attempts_def)

definition POINT_reply :: "ClusterID \<Rightarrow> sockaddr \<Rightarrow> string" where
  "POINT_reply i a = ''POINT '' @ show_word i @ '' '' @ show_word (s_addr a) @ '' '' @ show_word (sin_port a)"

definition DROP_reply :: "ClusterID \<Rightarrow> string" where
  "DROP_reply i = ''DROP '' @ show_word i"

definition LIST_reply :: "ClusterID list \<Rightarrow> string" where
  "LIST_reply is = concat (map (\<lambda>i. show_word i @ '' '') is)"

definition GET_query :: "ClusterID \<Rightarrow> string" where
  "GET_query i = ''GET '' @ show_word i"

text \<open>An address that is usable and not the loopback, which the client would replace.\<close>

definition usable :: "IP \<Rightarrow> sockaddr \<Rightarrow> bool" where
  "usable lip a \<longleftrightarrow> sin_port a \<noteq> 0 \<and> ucast (s_addr a) \<noteq> lip"

lemma POINT_fields:
  fixes i :: ClusterID and a :: u32 and p :: u16
  obtains s1 s2 s3 s4 where
    "get_word [] (istringstream (''POINT '' @ show_word i @ '' '' @ show_word a @ '' '' @ show_word p)) = (''POINT'', s1)"
    "get_unsigned j1 s1 = (i, s2)" "get_unsigned j2 s2 = (ucast a :: IP, s3)" "get_unsigned j3 s3 = (p, s4)"
proof -
  let ?r3 = "'' '' @ show_word p"
  let ?r2 = "'' '' @ show_word a @ ?r3"
  let ?r1 = "'' '' @ show_word i @ ?r2"
  have 1: "get_word [] (istringstream (''POINT'' @ ?r1)) =
      (''POINT'', \<lparr>inp = ?r1, eofbit = False, failbit = False\<rparr>)"
    using word_field.get_put [of "''POINT''" ?r1]
    by (simp add: istringstream_def plain_word_def is_space_def less_eq_char_def)
  have 2: "get_unsigned j1 \<lparr>inp = ?r1, eofbit = False, failbit = False\<rparr> =
      (i, \<lparr>inp = ?r2, eofbit = False, failbit = False\<rparr>)"
    using unsigned_field.get_space1 [where v = i and r = ?r2 and old = j1] by simp
  have "unat a < 2 ^ 64" using unsigned_less [where w = a and ?'a = nat] by simp
  then have s: "show_word a = show_word (ucast a :: IP)"
    by (simp add: show_word_def unsigned_ucast_eq take_bit_nat_eq_self)
  have 3: "get_unsigned j2 \<lparr>inp = ?r2, eofbit = False, failbit = False\<rparr> =
      (ucast a :: IP, \<lparr>inp = ?r3, eofbit = False, failbit = False\<rparr>)"
    unfolding s using unsigned_field.get_space1 [where v = "ucast a :: IP" and r = ?r3 and old = j2] by simp
  have 4: "get_unsigned j3 \<lparr>inp = ?r3, eofbit = False, failbit = False\<rparr> =
      (p, \<lparr>inp = [], eofbit = True, failbit = False\<rparr>)"
    using unsigned_field.get_last [where v = p and old = j3] by simp
  show ?thesis using 1 by (intro that [OF _ 2 3 4]) simp
qed

lemma read_ids_printed:
  "list_all is_space w \<Longrightarrow>
     read_ids j \<lparr>inp = w @ LIST_reply is, eofbit = False, failbit = False\<rparr> = filter (\<lambda>i. i \<noteq> 0) is"
proof (induction "is" arbitrary: w)
  case Nil
  have "get_unsigned j \<lparr>inp = w, eofbit = False, failbit = False\<rparr> =
      (j, \<lparr>inp = [], eofbit = True, failbit = True\<rparr>)"
    using Nil by (rule unsigned_field.get_blank)
  then show ?case by (simp add: read_ids.simps good_def LIST_reply_def)
next
  case (Cons i "is")
  let ?r = "'' '' @ LIST_reply is"
  have "get_unsigned j \<lparr>inp = w @ show_word i @ ?r, eofbit = False, failbit = False\<rparr> =
      (i, \<lparr>inp = ?r, eofbit = (?r = []), failbit = False\<rparr>)"
    using Cons.prems by (intro unsigned_field.get_after_space) simp_all
  moreover have "read_ids j \<lparr>inp = ?r, eofbit = False, failbit = False\<rparr> = filter (\<lambda>i. i \<noteq> 0) is"
    by (rule Cons.IH) simp
  ultimately show ?case by (subst read_ids.simps) (simp add: good_def LIST_reply_def)
qed

lemma read_ids_LIST: "0 \<notin> set is \<Longrightarrow> read_ids j (istringstream (LIST_reply is)) = is"
  using read_ids_printed [of "[]" j "is"] by (simp add: istringstream_def filter_id_conv) (metis filter_True)

section \<open>Asking the tracker\<close>

text \<open>The state after a question for \<open>i\<close> that was answered by \<open>a\<close>.\<close>

definition asked :: "ClusterID \<Rightarrow> commander \<Rightarrow> commander" where
  "asked i st = after_attempts 1 TRACKER_CLUSTER_ID (GET_query i) st"

definition learned :: "ClusterID \<Rightarrow> sockaddr \<Rightarrow> commander \<Rightarrow> commander" where
  "learned i a st = (asked i st)\<lparr>addrs := (addrs st)(i \<mapsto> a)\<rparr>"

lemma asked_simps [simp]:
  "addrs (asked i st) = addrs st"
  "sent (asked i st) = sent st @ [(tracker_addr_of st, GET_query i @ [NUL])]"
  "reads (asked i st) = drop 1 (reads st)"
  by (simp_all add: asked_def after_attempts_def)

lemma learned_simps [simp]:
  "addrs (learned i a st) = (addrs st)(i \<mapsto> a)"
  "sent (learned i a st) = sent st @ [(tracker_addr_of st, GET_query i @ [NUL])]"
  "reads (learned i a st) = drop 1 (reads st)"
  by (simp_all add: learned_def)

lemma getCluster_asked:
  assumes "known TRACKER_CLUSTER_ID st"
  shows "getCluster lip j i st =
    (let (cmd, rs) = get_word [] (istringstream (reply_at st 0));
         (retCid, rs) = get_unsigned (old_cid j) rs;
         (ip, rs) = get_unsigned (old_ip j) rs;
         (port, rs) = get_unsigned (old_port j) rs;
         ip = replaceLo lip ip (ucast (s_addr (tracker_addr_of st)))
     in if cmd \<noteq> ''POINT'' \<or> retCid \<noteq> i then Some (0, asked i st)
        else Some (i, learned i \<lparr>s_addr = ucast ip, sin_port = port\<rparr> st))"
proof -
  have "touch_addr TRACKER_CLUSTER_ID (asked i st) = asked i st"
    using assms by (intro known_touch) simp
  moreover have "after_attempts 1 TRACKER_CLUSTER_ID (''GET '' @ show_word i) st = asked i st"
    by (simp add: asked_def GET_query_def)
  ultimately show ?thesis
    using assms
    by (simp add: getCluster_def trackerCommand_known wait_after_write Let_def learned_def split: prod.splits)
qed

text \<open>The address the client takes from an answer: the tracker's own in place of the loopback.\<close>

definition seen_addr :: "IP \<Rightarrow> sockaddr \<Rightarrow> sockaddr \<Rightarrow> sockaddr" where
  "seen_addr lip tr a = (if ucast (s_addr a) = lip then a\<lparr>s_addr := s_addr tr\<rparr> else a)"

lemma getCluster_POINT_any:
  assumes "known TRACKER_CLUSTER_ID st" "reply_at st 0 = POINT_reply i a"
  shows "getCluster lip j i st = Some (i, learned i (seen_addr lip (tracker_addr_of st) a) st)"
proof -
  obtain s1 s2 s3 s4 where "get_word [] (istringstream (reply_at st 0)) = (''POINT'', s1)"
      "get_unsigned (old_cid j) s1 = (i, s2)" "get_unsigned (old_ip j) s2 = (ucast (s_addr a) :: IP, s3)"
      "get_unsigned (old_port j) s3 = (sin_port a, s4)"
    unfolding assms(2) POINT_reply_def by (rule POINT_fields)
  moreover have "ucast (ucast w :: IP) = w" for w :: u32 by transfer simp
  ultimately show ?thesis
    using assms(1) by (cases a) (simp add: getCluster_asked replaceLo_def seen_addr_def)
qed

lemma getCluster_POINT:
  assumes "known TRACKER_CLUSTER_ID st" "reply_at st 0 = POINT_reply i a" "ucast (s_addr a) \<noteq> lip"
  shows "getCluster lip j i st = Some (i, learned i a st)"
  using getCluster_POINT_any [OF assms(1,2)] assms(3) by (simp add: seen_addr_def)

lemma getCluster_DROP:
  assumes "known TRACKER_CLUSTER_ID st" "reply_at st 0 = DROP_reply i"
  shows "getCluster lip j k st = Some (0, asked k st)"
proof -
  have "fst (get_word [] (istringstream (''DROP'' @ '' '' @ show_word i))) = ''DROP''"
    using word_field.get_put [of "''DROP''" "'' '' @ show_word i"]
    by (simp add: istringstream_def plain_word_def is_space_def less_eq_char_def)
  then have "fst (get_word [] (istringstream (reply_at st 0))) = ''DROP''"
    by (simp add: assms(2) DROP_reply_def)
  then show ?thesis
    using assms(1) by (cases "get_word [] (istringstream (reply_at st 0))") (simp add: getCluster_asked split: prod.splits)
qed

section \<open>The phases\<close>

subsection \<open>Waiting for the clusters\<close>

definition list_sent :: "commander \<Rightarrow> sockaddr \<times> string" where
  "list_sent st = (tracker_addr_of st, ''LIST'' @ [NUL])"

lemma listClusters_LIST:
  assumes "known TRACKER_CLUSTER_ID st" "replies st = LIST_reply is # ts" "0 \<notin> set is"
  shows "listClusters j st = Some (is, after_attempts 1 TRACKER_CLUSTER_ID ''LIST'' st)"
  using assms(1) reply_at_first [OF assms(2)] read_ids_LIST [OF assms(3)]
  by (simp add: listClusters_def trackerCommand_known wait_after_write)

text \<open>A list that is long enough after a number of lists that are too short.\<close>

lemma waitClusters_rounds:
  assumes "known TRACKER_CLUSTER_ID st" "replies st = map LIST_reply (early @ [is]) @ ts"
    and "list_all (\<lambda>r. TIME_SERVER_ID \<in> set r \<and> 0 \<notin> set r \<and> length r \<le> n) early"
    and "TIME_SERVER_ID \<in> set is" "0 \<notin> set is" "n < length is"
  shows "\<exists>st'. waitClusters j n st = Some (remove1 TIME_SERVER_ID is, st') \<and> replies st' = ts \<and>
    addrs st' = addrs st \<and> sent st' = sent st @ replicate (Suc (length early)) (list_sent st)"
  using assms(1-3)
proof (induction early arbitrary: st)
  case Nil
  let ?st = "after_attempts 1 TRACKER_CLUSTER_ID ''LIST'' st"
  have l: "listClusters j st = Some (is, ?st)"
    using Nil.prems assms(5) by (intro listClusters_LIST) simp_all
  have "\<not> length (remove1 TIME_SERVER_ID is) < n"
    using assms(4,6) by (simp add: length_remove1)
  then have "waitClusters j n st = Some (remove1 TIME_SERVER_ID is, ?st)"
    using l assms(4) by (subst waitClusters.simps) simp
  then show ?case using Nil.prems replies_attempt [of st _ ts] by (simp add: sent_attempt list_sent_def)
next
  case (Cons r early)
  let ?st = "after_attempts 1 TRACKER_CLUSTER_ID ''LIST'' st"
  have r: "TIME_SERVER_ID \<in> set r" "0 \<notin> set r" "length r \<le> n" using Cons.prems by simp_all
  have l: "listClusters j st = Some (r, ?st)"
    using Cons.prems r by (intro listClusters_LIST) simp_all
  have "length (remove1 TIME_SERVER_ID r) = length r - 1" using r(1) by (simp add: length_remove1)
  then have "length (remove1 TIME_SERVER_ID r) < n"
    using r(3) length_pos_if_in_set [OF r(1)] by arith
  then have "waitClusters j n st = waitClusters j n ?st"
    using l r(1) by (subst waitClusters.simps) simp
  moreover have "\<exists>st'. waitClusters j n ?st = Some (remove1 TIME_SERVER_ID is, st') \<and> replies st' = ts \<and>
      addrs st' = addrs ?st \<and> sent st' = sent ?st @ replicate (Suc (length early)) (list_sent ?st)"
    using Cons.prems replies_attempt by (intro Cons.IH) simp_all
  ultimately show ?case by (simp add: sent_attempt list_sent_def)
qed

subsection \<open>Addresses of all clusters\<close>

definition get_sent :: "commander \<Rightarrow> ClusterID \<Rightarrow> sockaddr \<times> string" where
  "get_sent st i = (tracker_addr_of st, GET_query i @ [NUL])"

lemma get_sent_cong: "addrs p = addrs q \<Longrightarrow> get_sent p = get_sent q"
  by (rule ext) (simp add: get_sent_def)

lemma getAll_POINT:
  assumes "known TRACKER_CLUSTER_ID st" "replies st = map (\<lambda>i. POINT_reply i (ad i)) is @ ts"
    and "TRACKER_CLUSTER_ID \<notin> set is" "\<forall>i \<in> set is. usable lip (ad i)"
  shows "\<exists>st'. getAll lip j is st = Some st' \<and> replies st' = ts \<and>
    addrs st' = (\<lambda>i. if i \<in> set is then Some (ad i) else addrs st i) \<and>
    sent st' = sent st @ map (get_sent st) is"
  using assms
proof (induction "is" arbitrary: st)
  case Nil
  then show ?case by simp
next
  case (Cons i "is")
  let ?st = "learned i (ad i) st"
  have "getCluster lip j i st = Some (i, ?st)"
    using Cons.prems by (intro getCluster_POINT reply_at_first) (simp_all add: usable_def)
  moreover have a: "tracker_addr_of ?st = tracker_addr_of st" using Cons.prems by (auto simp: at_default_def)
  then have kn: "known TRACKER_CLUSTER_ID ?st" using Cons.prems(1) by presburger
  have "\<exists>st'. getAll lip j is ?st = Some st' \<and> replies st' = ts \<and>
      addrs st' = (\<lambda>k. if k \<in> set is then Some (ad k) else addrs ?st k) \<and>
      sent st' = sent ?st @ map (get_sent ?st) is"
    using Cons.prems by (intro Cons.IH kn) (simp_all flip: drop_map)
  ultimately show ?case using a by (auto simp: get_sent_def fun_eq_iff)
qed

lemma getAll_DROP:
  assumes "known TRACKER_CLUSTER_ID st" "replies st = map DROP_reply is @ ts"
  shows "\<exists>st'. getAll lip j is st = Some st' \<and> replies st' = ts \<and> addrs st' = addrs st \<and>
    sent st' = sent st @ map (get_sent st) is"
  using assms
proof (induction "is" arbitrary: st)
  case Nil
  then show ?case by simp
next
  case (Cons i "is")
  let ?st = "asked i st"
  have "getCluster lip j i st = Some (0, ?st)"
    using Cons.prems by (intro getCluster_DROP reply_at_first) simp_all
  moreover have "\<exists>st'. getAll lip j is ?st = Some st' \<and> replies st' = ts \<and> addrs st' = addrs ?st \<and>
      sent st' = sent ?st @ map (get_sent ?st) is"
    using Cons.prems by (intro Cons.IH) (auto simp flip: drop_map)
  ultimately show ?case by (auto simp: get_sent_def)
qed

subsection \<open>New ids\<close>

definition run_sent :: "commander \<Rightarrow> ClusterID \<Rightarrow> GraphNode \<Rightarrow> sockaddr \<times> string" where
  "run_sent st i n = (addr_of i st, ''RUN '' @ show_word (node_id n) @ [NUL])"

lemma issueIds_ACK:
  assumes "length is = length ns" "\<forall>i \<in> set is. known i st" "replies st = replicate (length is) ''ACK'' @ ts"
  shows "\<exists>st'. issueIds lip j is ns st = Some (True, st') \<and> replies st' = ts \<and> addrs st' = addrs st \<and>
    sent st' = sent st @ map2 (run_sent st) is ns"
  using assms
proof (induction "is" ns arbitrary: st rule: list_induct2')
  case (4 i "is" n ns)
  let ?st = "after_attempts 1 i (''RUN '' @ show_word (node_id n)) st"
  have "commandWithRetry lip j i (''RUN '' @ show_word (node_id n)) st = Some (True, ?st)"
    using 4(2-4) by (intro commandWithRetry_ack reply_at_first) simp_all
  moreover have "\<exists>st'. issueIds lip j is ns ?st = Some (True, st') \<and> replies st' = ts \<and> addrs st' = addrs ?st \<and>
      sent st' = sent ?st @ map2 (run_sent ?st) is ns"
    using 4(2-4) replies_attempt by (intro 4(1)) simp_all
  ultimately show ?case by (auto simp: run_sent_def [abs_def] sent_attempt)
qed simp_all

subsection \<open>Nodes\<close>

lemma command_unknown:
  assumes "addrs st i = None" "i \<noteq> TRACKER_CLUSTER_ID" "known TRACKER_CLUSTER_ID st"
    and "reply_at st 0 = POINT_reply i a" "usable lip a"
  shows "command lip j i cmd st = Some (0, Write cmd a (learned i a st))"
proof -
  let ?st = "touch_addr i st"
  have t: "addr_of i ?st = no_addr" "tracker_addr_of ?st = tracker_addr_of st" "reply_at ?st 0 = reply_at st 0"
    using assms(1,2) by (simp_all add: touch_addr_def reply_at_def)
  have l: "learned i a ?st = learned i a st"
    by (simp add: learned_def asked_def after_attempts_def touch_addr_def touch_def)
  have "getCluster lip j i ?st = Some (i, learned i a st)"
    using assms t unfolding l [symmetric] by (intro getCluster_POINT) (simp_all add: usable_def)
  moreover have k: "known i (learned i a st)" using assms(5) by (simp add: usable_def)
  moreover note known_touch [OF k]
  ultimately have "request_addr lip j i 3 ?st = Some (learned i a st)"
    using t by (simp add: numeral_3_eq_3 no_addr_def)
  then show ?thesis using k by (simp add: command_def)
qed

lemma commandWithRetry_unknown:
  assumes "addrs st i = None" "i \<noteq> TRACKER_CLUSTER_ID" "known TRACKER_CLUSTER_ID st"
    and "replies st = POINT_reply i a # ''ACK'' # ts" "usable lip a"
  shows "commandWithRetry lip j i cmd st = Some (True, after_attempts 1 i cmd (learned i a st))"
proof -
  let ?st = "learned i a st"
  have "command lip j i cmd st = Some (0, Write cmd (addr_of i ?st) ?st)"
    using command_unknown [OF assms(1-3) reply_at_first [OF assms(4)] assms(5)] by simp
  moreover have "replies ?st = ''ACK'' # ts" using assms(4) by (simp flip: drop_map)
  then have "reply_at ?st 0 = ''ACK''" by (rule reply_at_first)
  then have "waitReply (Write cmd (addr_of i ?st) ?st) = (''ACK'', after_attempts 1 i cmd ?st)"
    by (simp only: wait_after_write)
  ultimately show ?thesis
    by (subst commandWithRetry_def, subst retry_loop.simps) (simp add: COMMAND_RETRY_COUNT_def)
qed

definition add_sent :: "commander \<Rightarrow> (ClusterID \<Rightarrow> sockaddr) \<Rightarrow> GraphNode \<Rightarrow> (sockaddr \<times> string) list" where
  "add_sent st ad n = [get_sent st (node_id n), (ad (node_id n), ''ADD '' @ show_int (node_label n) @ [NUL])]"

lemma addNodes_ACK:
  assumes "known TRACKER_CLUSTER_ID st" "TRACKER_CLUSTER_ID \<notin> node_id ` set ns"
    and "distinct (map node_id ns)" "\<forall>n \<in> set ns. addrs st (node_id n) = None \<and> node_label n > 0 \<and> usable lip (ad (node_id n))"
    and "replies st = concat (map (\<lambda>n. [POINT_reply (node_id n) (ad (node_id n)), ''ACK'']) ns) @ ts"
  shows "\<exists>st'. addNodes lip j ns st = Some st' \<and> replies st' = ts \<and>
    addrs st' = (\<lambda>i. if i \<in> node_id ` set ns then Some (ad i) else addrs st i) \<and>
    sent st' = sent st @ concat (map (add_sent st ad) ns)"
  using assms
proof (induction ns arbitrary: st)
  case Nil
  then show ?case by simp
next
  case (Cons n ns)
  let ?cmd = "''ADD '' @ show_int (node_label n)" and ?i = "node_id n"
  let ?l = "learned ?i (ad ?i) st"
  let ?st = "after_attempts 1 ?i ?cmd ?l"
  have i: "?i \<noteq> TRACKER_CLUSTER_ID" "addrs st ?i = None" "usable lip (ad ?i)" "node_label n > 0"
    using Cons.prems by auto
  have "commandWithRetry lip j ?i ?cmd st = Some (True, ?st)"
    using Cons.prems i by (intro commandWithRetry_unknown) simp_all
  moreover have a: "tracker_addr_of ?st = tracker_addr_of st" using i(1) by simp
  then have kn: "known TRACKER_CLUSTER_ID ?st" using Cons.prems(1) by presburger
  have ne: "\<forall>m \<in> set ns. node_id m \<noteq> ?i" using Cons.prems(3) by simp (metis imageI)
  have r: "replies ?st = concat (map (\<lambda>n. [POINT_reply (node_id n) (ad (node_id n)), ''ACK'']) ns) @ ts"
    using Cons.prems(5) by (auto simp: after_attempts_def)
  have "\<exists>st'. addNodes lip j ns ?st = Some st' \<and> replies st' = ts \<and>
      addrs st' = (\<lambda>i. if i \<in> node_id ` set ns then Some (ad i) else addrs ?st i) \<and>
      sent st' = sent ?st @ concat (map (add_sent ?st ad) ns)"
    using Cons.prems r ne by (intro Cons.IH kn) auto
  ultimately show ?case
    using a i(4) by (auto simp: add_sent_def [abs_def] get_sent_def fun_eq_iff)
qed

subsection \<open>Edges\<close>

definition connect_sent :: "(ClusterID \<Rightarrow> sockaddr) \<Rightarrow> GraphEdge \<Rightarrow> sockaddr \<times> string" where
  "connect_sent ad e = (ad (edge_from e), edge_command e @ [NUL])"

abbreviation weighted :: "GraphEdge list \<Rightarrow> GraphEdge list" where
  "weighted \<equiv> filter (\<lambda>e. edge_label e > 0)"

lemma connectEdges_ACK:
  assumes "\<forall>e \<in> set (weighted es). addrs st (edge_from e) = Some (ad (edge_from e)) \<and> sin_port (ad (edge_from e)) \<noteq> 0"
    and "replies st = replicate (length (weighted es)) ''ACK'' @ ts"
  shows "\<exists>st'. connectEdges lip j es st = Some (True, st') \<and> replies st' = ts \<and>
    sent st' = sent st @ map (connect_sent ad) (weighted es)"
  using assms
proof (induction es arbitrary: st)
  case Nil
  then show ?case by simp
next
  case (Cons e es)
  show ?case
  proof (cases "edge_label e > 0")
    case False
    then show ?thesis using Cons by simp
  next
    case True
    let ?st = "after_attempts 1 (edge_from e) (edge_command e) st"
    have "commandWithRetry lip j (edge_from e) (edge_command e) st = Some (True, ?st)"
      using Cons.prems True by (intro commandWithRetry_ack reply_at_first) simp_all
    moreover have "replies ?st = replicate (length (weighted es)) ''ACK'' @ ts"
      using Cons.prems(2) True replies_attempt by simp
    then have "\<exists>st'. connectEdges lip j es ?st = Some (True, st') \<and> replies st' = ts \<and>
        sent st' = sent ?st @ map (connect_sent ad) (weighted es)"
      using Cons.prems(1) True by (intro Cons.IH) simp_all
    ultimately show ?thesis using Cons.prems(1) True by (auto simp: connect_sent_def)
  qed
qed

section \<open>The whole conversation\<close>

text \<open>
  The replies of a cooperative system: \<open>early\<close> are lists that are too short, \<open>all\<close> is the list the
  client goes on with and \<open>ids\<close> what it takes from it; \<open>old\<close> are the addresses registered under
  these ids and \<open>new\<close> those under the ids of the nodes, as the tracker knows them afterwards.  The
  tracker no longer knows the old ids.
\<close>

definition create_replies :: "ClusterID list list \<Rightarrow> ClusterID list \<Rightarrow> (ClusterID \<Rightarrow> sockaddr) \<Rightarrow> (ClusterID \<Rightarrow> sockaddr) \<Rightarrow>
    GraphNode list \<Rightarrow> GraphEdge list \<Rightarrow> string list" where
  "create_replies early all old new nodes edges =
    (let ids = remove1 TIME_SERVER_ID all
     in map LIST_reply (early @ [all]) @ map (\<lambda>i. POINT_reply i (old i)) ids @
        replicate (length ids) ''ACK'' @ map DROP_reply ids @
        concat (map (\<lambda>n. [POINT_reply (node_id n) (new (node_id n)), ''ACK'']) nodes) @
        replicate (length (weighted edges)) ''ACK'')"

definition create_messages :: "commander \<Rightarrow> nat \<Rightarrow> ClusterID list \<Rightarrow> (ClusterID \<Rightarrow> sockaddr) \<Rightarrow> (ClusterID \<Rightarrow> sockaddr) \<Rightarrow>
    GraphNode list \<Rightarrow> GraphEdge list \<Rightarrow> (sockaddr \<times> string) list" where
  "create_messages st k ids old new nodes edges =
    replicate (Suc k) (list_sent st) @ map (get_sent st) ids @
    map2 (\<lambda>i n. (old i, ''RUN '' @ show_word (node_id n) @ [NUL])) ids nodes @ map (get_sent st) ids @
    concat (map (add_sent st new) nodes) @ map (connect_sent new) (weighted edges)"

definition list_ok :: "ClusterID list \<Rightarrow> bool" where
  "list_ok is \<longleftrightarrow> TIME_SERVER_ID \<in> set is \<and> 0 \<notin> set is"

definition graph_ok :: "GraphNode list \<Rightarrow> GraphEdge list \<Rightarrow> bool" where
  "graph_ok nodes edges \<longleftrightarrow> distinct (map node_id nodes) \<and> 0 \<notin> node_id ` set nodes \<and>
     (\<forall>n \<in> set nodes. node_label n > 0) \<and> (\<forall>e \<in> set (weighted edges). edge_from e \<in> node_id ` set nodes)"

lemma run_sent_at:
  assumes "\<forall>i \<in> set is. addrs st i = Some (old i)"
  shows "map2 (run_sent st) is ns = map2 (\<lambda>i n. (old i, ''RUN '' @ show_word (node_id n) @ [NUL])) is ns"
  using assms by (induction "is" ns rule: list_induct2') (simp_all add: run_sent_def)

text \<open>The clusters get their new ids.\<close>

lemma join_phase:
  assumes "addrs st = [TRACKER_CLUSTER_ID \<mapsto> t]" "sin_port t \<noteq> 0"
    and "\<forall>is \<in> set early. list_ok is \<and> length is \<le> length nodes" "list_ok all" "length all = Suc (length nodes)"
    and ids: "ids = remove1 TIME_SERVER_ID all" and old: "\<forall>i. usable lip (old i)"
    and r: "replies st = map LIST_reply (early @ [all]) @ map (\<lambda>i. POINT_reply i (old i)) ids @
      replicate (length ids) ''ACK'' @ ts"
  obtains st1 st2 st3 where "waitClusters j (length nodes) st = Some (ids, st1)" "getAll lip j ids st1 = Some st2"
    "issueIds lip j ids nodes st2 = Some (True, st3)" "addrs st3 TRACKER_CLUSTER_ID = Some t" "replies st3 = ts"
    "sent st3 = sent st @ replicate (Suc (length early)) (list_sent st) @ map (get_sent st) ids @
      map2 (\<lambda>i n. (old i, ''RUN '' @ show_word (node_id n) @ [NUL])) ids nodes"
proof -
  have kn: "known TRACKER_CLUSTER_ID st" using assms(1,2) by simp
  have T: "TRACKER_CLUSTER_ID \<notin> set ids" "length ids = length nodes"
    using assms(4,5) set_remove1_subset [of TIME_SERVER_ID all]
    by (auto simp: ids list_ok_def TRACKER_CLUSTER_ID_def length_remove1)
  obtain st1 where 1: "waitClusters j (length nodes) st = Some (ids, st1)" "addrs st1 = addrs st"
      "replies st1 = map (\<lambda>i. POINT_reply i (old i)) ids @ replicate (length ids) ''ACK'' @ ts"
      "sent st1 = sent st @ replicate (Suc (length early)) (list_sent st)"
    using waitClusters_rounds [OF kn r, of "length nodes" j] assms(3-5)
    by (auto simp: list_ok_def list_all_iff ids)
  have a1: "known TRACKER_CLUSTER_ID st1" "get_sent st1 = get_sent st"
    using kn get_sent_cong [OF 1(2)] by (simp_all add: 1(2))
  obtain st2 where 2: "getAll lip j ids st1 = Some st2"
      "addrs st2 = (\<lambda>i. if i \<in> set ids then Some (old i) else addrs st1 i)"
      "replies st2 = replicate (length ids) ''ACK'' @ ts" "sent st2 = sent st1 @ map (get_sent st) ids"
    using getAll_POINT [OF a1(1) 1(3) T(1), where lip = lip and j = j] old a1(2) by auto
  have k2: "\<forall>i \<in> set ids. addrs st2 i = Some (old i)" "addrs st2 TRACKER_CLUSTER_ID = Some t"
    using T(1) 1(2) assms(1) by (simp_all add: 2(2))
  then have "\<forall>i \<in> set ids. known i st2" using old by (simp add: usable_def)
  from issueIds_ACK [OF T(2) this 2(3), where lip = lip and j = j]
  obtain st3 where "issueIds lip j ids nodes st2 = Some (True, st3)" "addrs st3 = addrs st2" "replies st3 = ts"
      "sent st3 = sent st2 @ map2 (\<lambda>i n. (old i, ''RUN '' @ show_word (node_id n) @ [NUL])) ids nodes"
    using run_sent_at [OF k2(1)] by auto
  with 1(1,4) 2(1,4) k2(2) show ?thesis by (intro that) simp_all
qed

text \<open>The graph is built.\<close>

lemma build_phase:
  assumes "addrs st TRACKER_CLUSTER_ID = Some t" "sin_port t \<noteq> 0" "graph_ok nodes edges" "\<forall>i. usable lip (new i)"
    and r: "replies st = map DROP_reply ids @
      concat (map (\<lambda>n. [POINT_reply (node_id n) (new (node_id n)), ''ACK'']) nodes) @
      replicate (length (weighted edges)) ''ACK'' @ ts"
  obtains st1 st2 st3 where "getAll lip j ids (forget_clusters st) = Some st1" "addNodes lip j nodes st1 = Some st2"
    "connectEdges lip j edges st2 = Some (True, st3)" "replies st3 = ts"
    "sent st3 = sent st @ map (get_sent st) ids @ concat (map (add_sent st new) nodes) @
      map (connect_sent new) (weighted edges)"
proof -
  let ?f = "forget_clusters st"
  have f: "addrs ?f = [TRACKER_CLUSTER_ID \<mapsto> t]" "sent ?f = sent st" "reads ?f = reads st"
    using assms(1) by (simp_all add: forget_clusters_def touch_addr_def Let_def)
  have kn: "known TRACKER_CLUSTER_ID ?f" "get_sent ?f = get_sent st"
    using assms(1,2) f(1) by (simp_all add: get_sent_def fun_eq_iff)
  from getAll_DROP [OF kn(1) r [folded f(3)], where lip = lip and j = j]
  obtain st1 where 1: "getAll lip j ids ?f = Some st1" "addrs st1 = addrs ?f"
      "replies st1 = concat (map (\<lambda>n. [POINT_reply (node_id n) (new (node_id n)), ''ACK'']) nodes) @
        replicate (length (weighted edges)) ''ACK'' @ ts"
      "sent st1 = sent st @ map (get_sent st) ids"
    using f(2) kn(2) by auto
  have k1: "known TRACKER_CLUSTER_ID st1" "get_sent st1 = get_sent st"
    using kn get_sent_cong [OF 1(2)] by (simp_all add: 1(2))
  have n: "TRACKER_CLUSTER_ID \<notin> node_id ` set nodes" "distinct (map node_id nodes)"
      "\<forall>n \<in> set nodes. addrs st1 (node_id n) = None \<and> node_label n > 0 \<and> usable lip (new (node_id n))"
    using assms(3,4) by (auto simp: graph_ok_def TRACKER_CLUSTER_ID_def 1(2) f(1))
  from addNodes_ACK [OF k1(1) n 1(3), where j = j]
  obtain st2 where 2: "addNodes lip j nodes st1 = Some st2"
      "addrs st2 = (\<lambda>i. if i \<in> node_id ` set nodes then Some (new i) else addrs st1 i)"
      "replies st2 = replicate (length (weighted edges)) ''ACK'' @ ts"
      "sent st2 = sent st1 @ concat (map (add_sent st new) nodes)"
    using k1(2) by (auto simp: add_sent_def [abs_def])
  have "\<forall>e \<in> set (weighted edges). addrs st2 (edge_from e) = Some (new (edge_from e)) \<and> sin_port (new (edge_from e)) \<noteq> 0"
    using assms(3,4) by (auto simp: graph_ok_def 2(2) usable_def)
  from connectEdges_ACK [OF this 2(3), where lip = lip and j = j]
  obtain st3 where "connectEdges lip j edges st2 = Some (True, st3)" "replies st3 = ts"
      "sent st3 = sent st2 @ map (connect_sent new) (weighted edges)"
    by blast
  with 1(1,4) 2(1,4) show ?thesis by (intro that) simp_all
qed

lemma createNetwork_run:
  assumes "addrs st = [TRACKER_CLUSTER_ID \<mapsto> t]" and "sin_port t \<noteq> 0"
    and "Parse file ([], []) = Some (True, nodes, edges)" and "graph_ok nodes edges"
    and "\<forall>is \<in> set early. list_ok is \<and> length is \<le> length nodes"
    and "list_ok all" and "length all = Suc (length nodes)"
    and "\<forall>i. usable lip (old i) \<and> usable lip (new i)"
    and "replies st = create_replies early all old new nodes edges @ rest"
  shows "\<exists>st'. createNetwork lip j file st = Some (0, st') \<and> replies st' = rest \<and>
    sent st' = sent st @ create_messages st (length early) (remove1 TIME_SERVER_ID all) old new nodes edges"
proof -
  let ?ids = "remove1 TIME_SERVER_ID all"
  have old: "\<forall>i. usable lip (old i)" and new: "\<forall>i. usable lip (new i)" using assms(8) by simp_all
  note r = assms(9) [unfolded create_replies_def Let_def append_assoc]
  obtain st1 st2 st3 where 1: "waitClusters j (length nodes) st = Some (?ids, st1)" "getAll lip j ?ids st1 = Some st2"
      "issueIds lip j ?ids nodes st2 = Some (True, st3)" "addrs st3 TRACKER_CLUSTER_ID = Some t"
      "replies st3 = map DROP_reply ?ids @
        concat (map (\<lambda>n. [POINT_reply (node_id n) (new (node_id n)), ''ACK'']) nodes) @
        replicate (length (weighted edges)) ''ACK'' @ rest"
      "sent st3 = sent st @ replicate (Suc (length early)) (list_sent st) @ map (get_sent st) ?ids @
        map2 (\<lambda>i n. (old i, ''RUN '' @ show_word (node_id n) @ [NUL])) ?ids nodes"
    by (rule join_phase [OF assms(1,2,5-7) refl old r])
  obtain st4 st5 st6 where 2: "getAll lip j ?ids (forget_clusters st3) = Some st4" "addNodes lip j nodes st4 = Some st5"
      "connectEdges lip j edges st5 = Some (True, st6)" "replies st6 = rest"
      "sent st6 = sent st3 @ map (get_sent st3) ?ids @ concat (map (add_sent st3 new) nodes) @
        map (connect_sent new) (weighted edges)"
    by (rule build_phase [OF 1(4) assms(2,4) new 1(5)])
  have "tracker_addr_of st3 = tracker_addr_of st" using 1(4) assms(1) by simp
  then have "get_sent st3 = get_sent st" "add_sent st3 = add_sent st"
    by (simp_all add: get_sent_def add_sent_def fun_eq_iff)
  moreover have "createNetwork lip j file st = Some (0, st6)"
    using 1(1-3) 2(1-3) assms(3) by (simp add: createNetwork_def)
  ultimately show ?thesis using 2(4) by (simp add: 2(5) 1(6) create_messages_def)
qed

section \<open>Properties\<close>


text \<open>A graph of two nodes and an edge; at first one cluster is missing.\<close>

definition said :: "string \<Rightarrow> char select_call" where
  "said msg = SelectReady (Received (msg @ [NUL]) no_addr)"

lemma said_text: "NUL \<notin> set msg \<Longrightarrow> length msg < 0xFFFF \<Longrightarrow> reply_text (said msg) = msg"
  by (simp add: said_def reply_text_def c_string_message)

lemma length_show_u32: "length (show_word (w :: u32)) \<le> 10"
  using length_show_nat [of _ 9] unsigned_less [where w = w and ?'a = nat] by (simp add: show_word_def)

lemma length_show_u16: "length (show_word (w :: u16)) \<le> 10"
  using length_show_nat [of _ 9] unsigned_less [where w = w and ?'a = nat] by (simp add: show_word_def)

lemma said_replies: "\<forall>msg \<in> set ts. NUL \<notin> set msg \<and> length msg < 0xFFFF \<Longrightarrow> map reply_text (map said ts) = ts"
  by (induction ts) (simp_all add: said_text)

lemma reply_lengths:
  "length (POINT_reply i a) < 0xFFFF" "length (DROP_reply i) < 0xFFFF" "length is < 1000 \<Longrightarrow> length (LIST_reply is) < 0xFFFF"
proof -
  show "length (POINT_reply i a) < 0xFFFF" "length (DROP_reply i) < 0xFFFF"
    using length_show_u32 [of i] length_show_u32 [of "s_addr a"] length_show_u16 [of "sin_port a"]
    by (simp_all add: POINT_reply_def DROP_reply_def)
  have "length (LIST_reply is) \<le> 11 * length is" for "is"
  proof (induction "is")
    case Nil
    then show ?case by (simp add: LIST_reply_def)
  next
    case (Cons i "is")
    then show ?case using length_show_u32 [of i] by (simp add: LIST_reply_def)
  qed
  from this [of "is"] show "length is < 1000 \<Longrightarrow> length (LIST_reply is) < 0xFFFF" by simp
qed

lemma reply_chars: "NUL \<notin> set (POINT_reply i a)" "NUL \<notin> set (DROP_reply i)" "NUL \<notin> set (LIST_reply is)"
  by (auto simp: POINT_reply_def DROP_reply_def LIST_reply_def)

lemma create_replies_fine:
  assumes "\<forall>is \<in> set (all # early). length is < 1000"
  shows "map reply_text (map said (create_replies early all old new nodes edges)) = create_replies early all old new nodes edges"
  using assms by (intro said_replies) (auto simp: create_replies_def Let_def reply_lengths reply_chars)

definition host_0 :: sockaddr where
  "host_0 = \<lparr>s_addr = 1, sin_port = 5\<rparr>"

definition host_1 :: sockaddr where
  "host_1 = \<lparr>s_addr = 2, sin_port = 5\<rparr>"

definition host_2 :: sockaddr where
  "host_2 = \<lparr>s_addr = 3, sin_port = 5\<rparr>"

definition tiny_nodes :: "GraphNode list" where
  "tiny_nodes = [\<lparr>node_id = 1, node_label = 5\<rparr>, \<lparr>node_id = 2, node_label = 5\<rparr>]"

definition tiny_edges :: "GraphEdge list" where
  "tiny_edges = [\<lparr>edge_from = 1, edge_to = 2, edge_label = 3\<rparr>]"

definition tiny_old :: "ClusterID \<Rightarrow> sockaddr" where
  "tiny_old i = (if i = 7 then host_1 else host_2)"

definition tiny_new :: "ClusterID \<Rightarrow> sockaddr" where
  "tiny_new i = (if i = 1 then host_1 else host_2)"

definition tiny_client :: commander where
  "tiny_client = Commander_init host_0
     (map said (create_replies [[TIME_SERVER_ID, 7]] [7, TIME_SERVER_ID, 8] tiny_old tiny_new tiny_nodes tiny_edges))"

lemma tiny_client:
  "addrs tiny_client = [TRACKER_CLUSTER_ID \<mapsto> host_0]" "sin_port host_0 \<noteq> 0"
  "Parse (Some tiny_graph) ([], []) = Some (True, tiny_nodes, tiny_edges)" "graph_ok tiny_nodes tiny_edges"
  "\<forall>is \<in> set [[TIME_SERVER_ID, 7]]. list_ok is \<and> length is \<le> length tiny_nodes"
  "list_ok [7, TIME_SERVER_ID, 8]" "length [7, TIME_SERVER_ID, 8] = Suc (length tiny_nodes)"
  "\<forall>i. usable 0 (tiny_old i) \<and> usable 0 (tiny_new i)"
  "replies tiny_client = create_replies [[TIME_SERVER_ID, 7]] [7, TIME_SERVER_ID, 8] tiny_old tiny_new tiny_nodes tiny_edges"
  "sent tiny_client = []" "remove1 TIME_SERVER_ID [7, TIME_SERVER_ID, 8] = [7, 8]"
proof -
  show "Parse (Some tiny_graph) ([], []) = Some (True, tiny_nodes, tiny_edges)"
    by (simp add: tiny_parse tiny_nodes_def tiny_edges_def)
  show "replies tiny_client = create_replies [[TIME_SERVER_ID, 7]] [7, TIME_SERVER_ID, 8] tiny_old tiny_new tiny_nodes tiny_edges"
    using create_replies_fine [of "[7, TIME_SERVER_ID, 8]" "[[TIME_SERVER_ID, 7]]" tiny_old tiny_new tiny_nodes tiny_edges]
    by (simp add: tiny_client_def Commander_init_def)
qed (simp_all add: tiny_client_def Commander_init_def host_0_def host_1_def host_2_def graph_ok_def list_ok_def
    TIME_SERVER_ID_def usable_def tiny_old_def tiny_new_def tiny_nodes_def tiny_edges_def)


end
