(* ===== verification/Tracker.thy ===== *)
theory Tracker
  imports Udp
begin

text \<open>
  The tracker of \<open>utils/tracker.cpp\<close>: the registry of clusters and their addresses, and the
  loop that answers \<open>ID\<close>, \<open>GET\<close>, \<open>LIST\<close> and \<open>ACK\<close> messages.

  A handler takes the values the program reads from its surroundings: the iteration order of
  \<open>clusters\<close>, the readings of the clock it makes (\<open>clock k\<close> is the \<open>k\<close>th), and the contents
  \<open>junk\<close> of the variable it extracts an id into, which is not initialised.  It returns the
  new state and the datagrams sent.
\<close>

section \<open>State\<close>

definition ENV_UPDATE_TIME :: int where
  "ENV_UPDATE_TIME = seconds 600"

definition RESERVED_CLUSTER_ID :: ClusterID where
  "RESERVED_CLUSTER_ID = 1024"

record tracker =
  clusters :: "ClusterID \<rightharpoonup> sockaddr"
  updateTime :: "ClusterID \<rightharpoonup> Time"
  next_id :: ClusterID

definition Tracker_init :: tracker where
  "Tracker_init = \<lparr>clusters = Map.empty, updateTime = Map.empty, next_id = RESERVED_CLUSTER_ID + 1\<rparr>"

type_synonym datagram = "sockaddr \<times> string"

section \<open>Operations\<close>

definition getNextClusterId :: "tracker \<Rightarrow> ClusterID \<times> tracker" where
  "getNextClusterId t = (next_id t, t\<lparr>next_id := next_id t + 1\<rparr>)"

text \<open>Looking up \<open>updateTime\<close> inserts the epoch for an id that was never updated.\<close>

definition isOld :: "Time \<Rightarrow> ClusterID \<Rightarrow> tracker \<Rightarrow> bool \<times> tracker" where
  "isOld now c t =
    (at_default 0 (updateTime t) c < now - ENV_UPDATE_TIME,
     t\<lparr>updateTime := touch 0 (updateTime t) c\<rparr>)"

definition sockaddr_eq :: "sockaddr \<Rightarrow> sockaddr \<Rightarrow> bool" where
  "sockaddr_eq lhs rhs \<longleftrightarrow> s_addr lhs = s_addr rhs \<and> sin_port lhs = sin_port rhs"

definition findByValue :: "ClusterID list \<Rightarrow> sockaddr \<Rightarrow> tracker \<Rightarrow> ClusterID" where
  "findByValue ks v t =
    (case find (\<lambda>k. case clusters t k of Some a \<Rightarrow> sockaddr_eq a v | None \<Rightarrow> False) ks of
       Some k \<Rightarrow> k
     | None \<Rightarrow> 0)"

definition sendCommand :: "sockaddr \<Rightarrow> string \<Rightarrow> datagram list" where
  "sendCommand addr cmd = (if length cmd < 1 then [] else [(addr, cmd @ [NUL])])"

section \<open>Messages\<close>

definition tracker_ID :: "ClusterID \<Rightarrow> (nat \<Rightarrow> Time) \<Rightarrow> ClusterID \<Rightarrow> sockaddr \<Rightarrow> istream \<Rightarrow> tracker \<Rightarrow>
    tracker \<times> datagram list" where
  "tracker_ID junk clock cluster from is t =
    (let newId = fst (get_unsigned junk is)
     in if newId \<noteq> 0 then
          let t1 = (if newId \<noteq> cluster then t\<lparr>clusters := (clusters t)(cluster := None)\<rparr> else t)
          in (t1\<lparr>clusters := (clusters t1)(newId \<mapsto> from),
                updateTime := (updateTime t1)(newId \<mapsto> clock 0)\<rparr>, [])
        else
          let (newId, t1) =
                (if cluster = 0 then
                   let (i, t0) = getNextClusterId t
                   in (i, t0\<lparr>clusters := (clusters t0)(i \<mapsto> from)\<rparr>)
                 else (cluster, t))
          in (t1\<lparr>updateTime := (updateTime t1)(newId \<mapsto> clock 0)\<rparr>,
              sendCommand from (''RUN '' @ show_word newId)))"

definition tracker_GET :: "ClusterID \<Rightarrow> (nat \<Rightarrow> Time) \<Rightarrow> sockaddr \<Rightarrow> istream \<Rightarrow> tracker \<Rightarrow>
    tracker \<times> datagram list" where
  "tracker_GET junk clock from is t =
    (let what = fst (get_unsigned junk is)
     in case clusters t what of
          None \<Rightarrow> (t, sendCommand from (''DROP '' @ show_word what))
        | Some addr \<Rightarrow>
            (case isOld (clock 0) what t of
               (True, t1) \<Rightarrow>
                 if what > RESERVED_CLUSTER_ID then
                   (t1\<lparr>clusters := (clusters t1)(what := None)\<rparr>,
                    sendCommand from (''DROP '' @ show_word what))
                 else (t1, sendCommand from [])
             | (False, t1) \<Rightarrow>
                 (t1, sendCommand from (''POINT '' @ show_word what @ '' '' @ show_word (s_addr addr) @
                    '' '' @ show_word (sin_port addr)))))"

definition list_one :: "(nat \<Rightarrow> Time) \<Rightarrow> nat \<times> ClusterID \<Rightarrow> tracker \<times> string \<Rightarrow> tracker \<times> string" where
  "list_one clock = (\<lambda>(k, i) (t, reply).
    case isOld (clock k) i t of
      (old, t1) \<Rightarrow> (t1, if old then reply else reply @ show_word i @ '' ''))"

definition tracker_LIST :: "(nat \<Rightarrow> Time) \<Rightarrow> ClusterID list \<Rightarrow> sockaddr \<Rightarrow> tracker \<Rightarrow>
    tracker \<times> datagram list" where
  "tracker_LIST clock ks from t =
    (case fold (list_one clock) (enumerate 0 ks) (t, []) of
       (t1, reply) \<Rightarrow> (t1, sendCommand from reply))"

definition tracker_command :: "ClusterID \<Rightarrow> (nat \<Rightarrow> Time) \<Rightarrow> ClusterID list \<Rightarrow> sockaddr \<Rightarrow> string \<Rightarrow>
    tracker \<Rightarrow> tracker \<times> datagram list" where
  "tracker_command junk clock ks from buff t =
    (let (cmd, is) = get_word [] (istringstream buff);
         cluster = findByValue ks from t
     in if cmd = ''ID'' then tracker_ID junk clock cluster from is t
        else if cmd = ''GET'' then tracker_GET junk clock from is t
        else if cmd = ''LIST'' then tracker_LIST clock ks from t
        else (t, []))"

text \<open>
  One turn of the loop of \<open>run\<close>.  \<open>size\<close> stays 1023 whatever was received: the message ends
  at the first zero of the buffer, which still holds the end of an earlier message when a
  datagram is shorter and not terminated.  A negative result is not a timeout, so the buffer is
  handled again, with the uninitialised \<open>from0\<close> as its sender.
\<close>

definition TRACKER_BUFF :: nat where
  "TRACKER_BUFF = 1024"

definition tracker_round :: "ClusterID \<Rightarrow> (nat \<Rightarrow> Time) \<Rightarrow> ClusterID list \<Rightarrow> char select_call \<Rightarrow> sockaddr \<Rightarrow>
    tracker \<times> string \<Rightarrow> (tracker \<times> string) \<times> datagram list" where
  "tracker_round junk clock ks s from0 = (\<lambda>(t, buff).
    let size = TRACKER_BUFF - 1
    in case ReadSelect size s buff from0 of
         (ret, buff1, from) \<Rightarrow>
           if ret = 0 \<or> size = 0 then ((t, buff1), [])
           else let buff2 = buff1[size := NUL]
             in (case tracker_command junk clock ks from (c_string buff2) t of
                   (t1, out) \<Rightarrow> ((t1, buff2), out)))"

text \<open>
  \<open>main\<close>: the exit code when the arguments are wrong, or what the tracker starts with: its state and the
  results of \<open>socket\<close>, \<open>fcntl\<close>, \<open>setsockopt\<close> and \<open>bind\<close> for its port.  The constructor runs outside the
  \<open>try\<close> block: an exception in it ends the process uncaught (the left side of the pair).
\<close>

definition tracker_start :: "ctor_calls \<Rightarrow> string list \<Rightarrow> int + ((string + int) \<times> syscall list) \<times> tracker" where
  "tracker_start k argv =
    (if length argv \<noteq> 2 then Inl 0
     else let port = word_of_int (atoi (argv ! 1)) :: u16
       in Inr (Udp_init k port False, Tracker_init))"

section \<open>Runs\<close>

text \<open>\<open>tracker_reaches n s\<close>: the loop can be in state \<open>s\<close> after \<open>n\<close> turns.\<close>

inductive tracker_reaches :: "nat \<Rightarrow> tracker \<times> string \<Rightarrow> bool" where
  start: "length buff = TRACKER_BUFF \<Longrightarrow> tracker_reaches 0 (Tracker_init, buff)"
| turn: "tracker_reaches n (t, buff) \<Longrightarrow> iterates ks (clusters t) \<Longrightarrow>
     tracker_round junk clock ks s from0 (t, buff) = (st, out) \<Longrightarrow> tracker_reaches (Suc n) st"

definition tracker_wf :: "tracker \<Rightarrow> bool" where
  "tracker_wf t \<longleftrightarrow> finite (dom (clusters t)) \<and> inj_on (clusters t) (dom (clusters t)) \<and>
     clusters t 0 = None \<and> dom (clusters t) \<subseteq> dom (updateTime t)"

section \<open>Lemmas\<close>

lemma sockaddr_eq_iff [simp]: "sockaddr_eq a b \<longleftrightarrow> a = b"
  by (cases a; cases b) (simp add: sockaddr_eq_def)

lemma tracker_wf_inj: "tracker_wf t \<Longrightarrow> clusters t i = Some a \<Longrightarrow> clusters t j = Some a \<Longrightarrow> i = j"
  unfolding tracker_wf_def inj_on_def by (metis domI)

lemma tracker_wf_0: "tracker_wf t \<Longrightarrow> clusters t i = Some a \<Longrightarrow> i \<noteq> 0"
  by (auto simp: tracker_wf_def)

lemma findByValue_cases:
  assumes "iterates ks (clusters t)"
  obtains (found) i where "findByValue ks v t = i" "clusters t i = Some v"
  | (absent) "findByValue ks v t = 0" "v \<notin> ran (clusters t)"
proof (cases "find (\<lambda>k. case clusters t k of Some a \<Rightarrow> sockaddr_eq a v | None \<Rightarrow> False) ks")
  case None
  then have "v \<notin> ran (clusters t)"
    using assms by (auto simp: find_None_iff iterates_def ran_def domI split: option.splits)
  with None show ?thesis by (intro absent) (simp_all add: findByValue_def)
next
  case (Some i)
  then have "clusters t i = Some v"
    by (auto simp: find_Some_iff split: option.splits)
  with Some show ?thesis by (intro found [of i]) (simp_all add: findByValue_def)
qed

lemma findByValue_eq:
  assumes "tracker_wf t" "iterates ks (clusters t)"
  shows "clusters t i = Some v \<Longrightarrow> findByValue ks v t = i"
    and "findByValue ks v t = 0 \<longleftrightarrow> v \<notin> ran (clusters t)"
  using assms by (cases rule: findByValue_cases [OF assms(2), of v];
      auto simp: ran_def dest: tracker_wf_inj tracker_wf_0)+

text \<open>What each message does to the registry.\<close>

definition registered :: "ClusterID \<Rightarrow> sockaddr \<Rightarrow> Time \<Rightarrow> tracker \<Rightarrow> tracker" where
  "registered i a now t = t\<lparr>clusters := (clusters t)(i \<mapsto> a), updateTime := (updateTime t)(i \<mapsto> now)\<rparr>"

definition unregister :: "ClusterID \<Rightarrow> tracker \<Rightarrow> tracker" where
  "unregister i t = t\<lparr>clusters := (clusters t)(i := None)\<rparr>"

lemma registered_simps [simp]:
  "clusters (registered i a now t) = (clusters t)(i \<mapsto> a)"
  "updateTime (registered i a now t) = (updateTime t)(i \<mapsto> now)"
  "next_id (registered i a now t) = next_id t"
  by (simp_all add: registered_def)

lemma unregister_simps [simp]:
  "clusters (unregister i t) = (clusters t)(i := None)"
  "updateTime (unregister i t) = updateTime t"
  "next_id (unregister i t) = next_id t"
  by (simp_all add: unregister_def)

lemma tracker_ID_new:
  "fst (get_unsigned junk is) = 0 \<Longrightarrow>
     tracker_ID junk clock 0 from is t =
       (registered (next_id t) from (clock 0) (t\<lparr>next_id := next_id t + 1\<rparr>),
        [(from, ''RUN '' @ show_word (next_id t) @ [NUL])])"
  by (simp add: tracker_ID_def Let_def getNextClusterId_def registered_def sendCommand_def)

lemma tracker_ID_known:
  "fst (get_unsigned junk is) = 0 \<Longrightarrow> cluster \<noteq> 0 \<Longrightarrow>
     tracker_ID junk clock cluster from is t =
       (t\<lparr>updateTime := (updateTime t)(cluster \<mapsto> clock 0)\<rparr>,
        [(from, ''RUN '' @ show_word cluster @ [NUL])])"
  by (simp add: tracker_ID_def Let_def sendCommand_def)

lemma tracker_ID_own:
  "fst (get_unsigned junk is) = i \<Longrightarrow> i \<noteq> 0 \<Longrightarrow>
     tracker_ID junk clock cluster from is t =
       (registered i from (clock 0) (if i \<noteq> cluster then unregister cluster t else t), [])"
  by (simp add: tracker_ID_def Let_def registered_def unregister_def)

text \<open>A handler changes nothing but may remove a cluster, or update the time of one.\<close>

definition shrinks :: "tracker \<Rightarrow> tracker \<Rightarrow> bool" where
  "shrinks t t' \<longleftrightarrow> clusters t' \<subseteq>\<^sub>m clusters t \<and> dom (updateTime t) \<subseteq> dom (updateTime t') \<and>
     next_id t' = next_id t"

lemma shrinks_refl [simp]: "shrinks t t"
  by (simp add: shrinks_def)

lemma shrinks_trans: "shrinks t t' \<Longrightarrow> shrinks t' t'' \<Longrightarrow> shrinks t t''"
  unfolding shrinks_def by (metis map_le_trans subset_trans)

lemma shrinks_wf:
  assumes "shrinks t t'" "tracker_wf t"
  shows "tracker_wf t'"
proof -
  have le: "clusters t' \<subseteq>\<^sub>m clusters t" using assms(1) by (simp add: shrinks_def)
  then have d: "dom (clusters t') \<subseteq> dom (clusters t)" by (rule map_le_implies_dom_le)
  have "inj_on (clusters t') (dom (clusters t'))"
  proof (rule inj_onI)
    fix i j
    assume i: "i \<in> dom (clusters t')" and j: "j \<in> dom (clusters t')" and eq: "clusters t' i = clusters t' j"
    have "clusters t i = clusters t' i" "clusters t j = clusters t' j"
      using le i j by (simp_all add: map_le_def)
    moreover obtain a where "clusters t' i = Some a" using i by blast
    ultimately have "clusters t i = Some a" "clusters t j = Some a" using eq by simp_all
    then show "i = j" by (rule tracker_wf_inj [OF assms(2)])
  qed
  moreover have "finite (dom (clusters t'))"
    using d assms(2) finite_subset by (auto simp: tracker_wf_def)
  moreover have "clusters t' 0 = None" using d assms(2) unfolding tracker_wf_def by blast
  moreover have "dom (clusters t') \<subseteq> dom (updateTime t')"
    using assms d unfolding tracker_wf_def shrinks_def by blast
  ultimately show ?thesis unfolding tracker_wf_def by blast
qed

lemma isOld_shrinks: "isOld now c t = (b, t') \<Longrightarrow> shrinks t t' \<and> clusters t' = clusters t"
proof -
  assume "isOld now c t = (b, t')"
  then have "t' = t\<lparr>updateTime := touch 0 (updateTime t) c\<rparr>" by (simp add: isOld_def)
  then show ?thesis by (simp add: shrinks_def subset_insertI)
qed

lemma unregister_shrinks [simp]: "shrinks t (unregister i t)"
  by (auto simp: shrinks_def map_le_def)

lemma tracker_GET_shrinks: "shrinks t (fst (tracker_GET junk clock from is t))"
proof -
  obtain b t1 where o: "isOld (clock 0) (fst (get_unsigned junk is)) t = (b, t1)" by fastforce
  then have "shrinks t t1" using isOld_shrinks by blast
  then show ?thesis
    using unregister_shrinks [of t1] o
    by (auto simp: tracker_GET_def Let_def unregister_def intro: shrinks_trans
        split: option.splits bool.splits)
qed

lemma list_one_shrinks: "shrinks t (fst (list_one clock e (t, reply)))"
  using isOld_shrinks by (auto simp: list_one_def split: prod.splits)

lemma tracker_LIST_shrinks: "shrinks t (fst (tracker_LIST clock ks from t))"
proof -
  have "shrinks t (fst (fold (list_one clock) es (t, reply)))" for es reply
  proof (induction es arbitrary: t reply)
    case Nil
    show ?case by simp
  next
    case (Cons e es)
    obtain t1 r1 where "list_one clock e (t, reply) = (t1, r1)" by fastforce
    with Cons [of t1 r1] list_one_shrinks [of t clock e reply] show ?case
      by (auto intro: shrinks_trans)
  qed
  then show ?thesis by (auto simp: tracker_LIST_def split: prod.splits) (metis fst_conv)
qed

lemma registered_wf:
  assumes "tracker_wf t" "i \<noteq> 0" "\<And>j. clusters t j = Some a \<Longrightarrow> j = i"
  shows "tracker_wf (registered i a now t)"
  using assms by (auto simp: tracker_wf_def inj_on_def dom_def)

lemma tracker_ID_wf:
  fixes junk clock "from" "is" t'
  assumes wf: "tracker_wf t" and ks: "iterates ks (clusters t)" and nz: "next_id t \<noteq> 0"
    and t'_def: "t' = fst (tracker_ID junk clock (findByValue ks from t) from is t)"
  shows "tracker_wf t' \<and> (next_id t' = next_id t \<or> next_id t' = next_id t + 1)"
proof (cases "fst (get_unsigned junk is) = 0")
  case True
  show ?thesis
  proof (cases "findByValue ks from t = 0")
    case absent: True
    then have "clusters t j \<noteq> Some from" for j
      using findByValue_eq(2) [OF wf ks] by (auto simp: ran_def)
    moreover have "tracker_wf (t\<lparr>next_id := next_id t + 1\<rparr>)" using wf by (simp add: tracker_wf_def)
    ultimately have "tracker_wf (registered (next_id t) from (clock 0) (t\<lparr>next_id := next_id t + 1\<rparr>))"
      using nz by (intro registered_wf) simp_all
    then show ?thesis
      using True absent by (simp add: t'_def tracker_ID_new)
  next
    case False
    then show ?thesis
      using True wf by (auto simp: t'_def tracker_ID_known tracker_wf_def)
  qed
next
  case False
  let ?i = "fst (get_unsigned junk is)" and ?c = "findByValue ks from t"
  let ?t = "if ?i \<noteq> ?c then unregister ?c t else t"
  have "shrinks t ?t" by simp
  then have "tracker_wf ?t" using wf by (rule shrinks_wf)
  moreover have "j = ?i" if "clusters ?t j = Some from" for j
  proof -
    have "clusters t j = Some from" using that by (simp split: if_splits)
    then have "?c = j" by (rule findByValue_eq(1) [OF wf ks])
    with that show ?thesis by (simp split: if_splits)
  qed
  ultimately have "tracker_wf (registered ?i from (clock 0) ?t)"
    using False by (intro registered_wf)
  then show ?thesis using False by (simp add: t'_def tracker_ID_own)
qed

lemma tracker_command_wf:
  assumes "tracker_wf t" "iterates ks (clusters t)" "next_id t \<noteq> 0"
    and cmd: "tracker_command junk clock ks from msg t = (t', out)"
  shows "tracker_wf t' \<and> (next_id t' = next_id t \<or> next_id t' = next_id t + 1)"
proof -
  obtain w "is" where w: "get_word [] (istringstream msg) = (w, is)" by fastforce
  consider "w = ''ID''" | "shrinks t t'"
    using cmd w tracker_GET_shrinks [of t junk clock "from" "is"] tracker_LIST_shrinks [of t clock ks "from"]
    by (auto simp: tracker_command_def Let_def split: if_splits)
  then show ?thesis
  proof cases
    case 1
    with cmd w have "t' = fst (tracker_ID junk clock (findByValue ks from t) from is t)"
      by (simp add: tracker_command_def)
    then show ?thesis using tracker_ID_wf assms(1-3) by simp
  next
    case 2
    then show ?thesis using assms(1) by (auto intro: shrinks_wf simp: shrinks_def)
  qed
qed

definition ids_used :: "nat \<Rightarrow> tracker \<Rightarrow> bool" where
  "ids_used n t \<longleftrightarrow> 1024 < unat (next_id t) \<and> unat (next_id t) \<le> 1025 + n"

lemma ids_used_Suc:
  assumes "ids_used n t" "1026 + n < 2 ^ 32" "next_id t' = next_id t \<or> next_id t' = next_id t + 1"
  shows "ids_used (Suc n) t'"
proof -
  have "unat (next_id t + 1) = unat (next_id t) + 1"
    using assms(1,2) by (simp add: ids_used_def unat_word_ariths)
  with assms show ?thesis by (auto simp: ids_used_def)
qed

lemma tracker_round_cases:
  assumes "tracker_round junk clock ks s from0 (t, buff) = ((t', buff'), out)"
  obtains (idle) "t' = t" "out = []"
  | (message) msg "from" where "tracker_command junk clock ks from msg t = (t', out)"
  using assms by (auto simp: tracker_round_def Let_def split: prod.splits if_splits)

lemma tracker_reaches_wf:
  "tracker_reaches n st \<Longrightarrow> n + 1025 < 2 ^ 32 \<Longrightarrow> tracker_wf (fst st) \<and> ids_used n (fst st)"
proof (induction rule: tracker_reaches.induct)
  case (start buff)
  show ?case by (simp add: Tracker_init_def tracker_wf_def ids_used_def RESERVED_CLUSTER_ID_def)
next
  case (turn n t buff ks junk clock s from0 st out)
  then have wf: "tracker_wf t" and used: "ids_used n t" by simp_all
  then have nz: "next_id t \<noteq> 0" by (auto simp: ids_used_def)
  obtain t' buff' where st: "st = (t', buff')" by (cases st)
  with turn.hyps(3) have "tracker_round junk clock ks s from0 (t, buff) = ((t', buff'), out)" by simp
  then show ?case
  proof (cases rule: tracker_round_cases)
    case idle
    with wf used show ?thesis by (auto simp: st ids_used_def)
  next
    case (message msg "from")
    then have "tracker_wf t' \<and> (next_id t' = next_id t \<or> next_id t' = next_id t + 1)"
      by (rule tracker_command_wf [OF wf turn.hyps(2) nz])
    then show ?thesis
      using ids_used_Suc [OF used] turn.prems by (simp add: st)
  qed
qed

section \<open>Messages as they are written\<close>

lemma command_word:
  "plain_word w \<Longrightarrow> field_end r \<Longrightarrow>
     get_word [] (istringstream (w @ r)) = (w, \<lparr>inp = r, eofbit = (r = []), failbit = False\<rparr>)"
  by (simp add: istringstream_def word_field.get_put)

lemma tracker_command_ID:
  "tracker_command junk clock ks from (''ID '' @ show_word i) t =
     (if i \<noteq> 0 then
        (registered i from (clock 0)
          (if i \<noteq> findByValue ks from t then unregister (findByValue ks from t) t else t), [])
      else if findByValue ks from t = 0 then
        (registered (next_id t) from (clock 0) (t\<lparr>next_id := next_id t + 1\<rparr>),
         [(from, ''RUN '' @ show_word (next_id t) @ [NUL])])
      else
        (t\<lparr>updateTime := (updateTime t)(findByValue ks from t \<mapsto> clock 0)\<rparr>,
         [(from, ''RUN '' @ show_word (findByValue ks from t) @ [NUL])]))"
proof -
  have "get_word [] (istringstream (''ID'' @ '' '' @ show_word i)) =
      (''ID'', \<lparr>inp = '' '' @ show_word i, eofbit = False, failbit = False\<rparr>)"
    using command_word [of "''ID''" "'' '' @ show_word i"] by (simp add: plain_word_def is_space_def less_eq_char_def)
  moreover have "fst (get_unsigned junk \<lparr>inp = '' '' @ show_word i, eofbit = False, failbit = False\<rparr>) = i"
    by (simp add: unsigned_field.get_last)
  ultimately show ?thesis
    by (cases "i = 0") (simp_all add: tracker_command_def tracker_ID_own tracker_ID_new tracker_ID_known)
qed

lemma tracker_command_GET:
  "tracker_command junk clock ks from (''GET '' @ show_word i) t =
     (case clusters t i of
        None \<Rightarrow> (t, [(from, ''DROP '' @ show_word i @ [NUL])])
      | Some addr \<Rightarrow>
          if at_default 0 (updateTime t) i < clock 0 - ENV_UPDATE_TIME then
            (if i > RESERVED_CLUSTER_ID then
               (unregister i (t\<lparr>updateTime := touch 0 (updateTime t) i\<rparr>),
                [(from, ''DROP '' @ show_word i @ [NUL])])
             else (t\<lparr>updateTime := touch 0 (updateTime t) i\<rparr>, []))
          else (t\<lparr>updateTime := touch 0 (updateTime t) i\<rparr>,
            [(from, ''POINT '' @ show_word i @ '' '' @ show_word (s_addr addr) @ '' '' @
              show_word (sin_port addr) @ [NUL])]))"
proof -
  have "get_word [] (istringstream (''GET'' @ '' '' @ show_word i)) =
      (''GET'', \<lparr>inp = '' '' @ show_word i, eofbit = False, failbit = False\<rparr>)"
    using command_word [of "''GET''" "'' '' @ show_word i"] by (simp add: plain_word_def is_space_def less_eq_char_def)
  moreover have "fst (get_unsigned junk \<lparr>inp = '' '' @ show_word i, eofbit = False, failbit = False\<rparr>) = i"
    by (simp add: unsigned_field.get_last)
  ultimately show ?thesis
    by (simp add: tracker_command_def tracker_GET_def isOld_def sendCommand_def unregister_def
        split: option.splits)
qed

lemma find_single:
  assumes "iterates ks (clusters t)" "\<And>j. clusters t j = Some a \<longleftrightarrow> j = i"
  shows "findByValue ks a t = i"
  using assms by (cases rule: findByValue_cases [OF assms(1), of a]) (auto simp: ran_def)

text \<open>The reply to \<open>LIST\<close>.\<close>

definition list_reply :: "(nat \<Rightarrow> Time) \<Rightarrow> ClusterID list \<Rightarrow> tracker \<Rightarrow> string" where
  "list_reply clock ks t = concat (map (\<lambda>(k, i). show_word i @ '' '')
     (filter (\<lambda>(k, i). clock k - ENV_UPDATE_TIME \<le> at_default 0 (updateTime t) i) (enumerate 0 ks)))"

lemma fold_list_one:
  "\<exists>t1. fold (list_one clock) es (t, reply) = (t1, reply @ concat (map (\<lambda>(k, i). show_word i @ '' '')
     (filter (\<lambda>(k, i). clock k - ENV_UPDATE_TIME \<le> at_default 0 (updateTime t) i) es))) \<and>
     clusters t1 = clusters t \<and> at_default 0 (updateTime t1) = at_default 0 (updateTime t)"
proof (induction es arbitrary: t reply)
  case Nil
  show ?case by simp
next
  case (Cons e es)
  obtain k i where e: "e = (k, i)" by (cases e)
  let ?t = "t\<lparr>updateTime := touch 0 (updateTime t) i\<rparr>"
  have "list_one clock e (t, reply) = (?t,
      reply @ (if clock k - ENV_UPDATE_TIME \<le> at_default 0 (updateTime t) i then show_word i @ '' '' else []))"
    by (auto simp: list_one_def isOld_def e)
  then show ?case
    using Cons [of ?t "reply @ show_word i @ '' ''"] Cons [of ?t reply] by (auto simp: e)
qed

lemma tracker_LIST_reply:
  "snd (tracker_LIST clock ks from t) = sendCommand from (list_reply clock ks t)"
  "clusters (fst (tracker_LIST clock ks from t)) = clusters t"
  "at_default 0 (updateTime (fst (tracker_LIST clock ks from t))) = at_default 0 (updateTime t)"
  using fold_list_one [of clock "enumerate 0 ks" t "[]"]
  by (auto simp: tracker_LIST_def list_reply_def)

lemma tracker_command_LIST:
  "tracker_command junk clock ks from ''LIST'' t = tracker_LIST clock ks from t"
  using command_word [of "''LIST''" "[]"]
  by (simp add: tracker_command_def plain_word_def is_space_def less_eq_char_def)

text \<open>A terminated message is handled whatever the buffer held.\<close>

lemma tracker_round_message:
  assumes "NUL \<notin> set msg" "length msg < TRACKER_BUFF - 1" "length buff = TRACKER_BUFF"
  shows "tracker_round junk clock ks (SelectReady (Received (msg @ [NUL]) a)) from0 (t, buff) =
    (case tracker_command junk clock ks a msg t of
       (t', out) \<Rightarrow> ((t', (store 1023 (msg @ [NUL]) buff)[1023 := NUL]), out))"
proof -
  have "store 1023 (msg @ [NUL]) buff = msg @ NUL # drop (Suc (length msg)) buff"
    using assms by (simp add: store_def TRACKER_BUFF_def)
  moreover have "c_string ((msg @ NUL # drop (Suc (length msg)) buff)[1023 := NUL]) = msg"
    using assms by (simp add: TRACKER_BUFF_def list_update_append c_string_message
        split: nat.splits)
  ultimately show ?thesis
    using assms by (simp add: tracker_round_def ReadSelect_def TRACKER_BUFF_def Let_def)
qed

section \<open>Properties\<close>

definition example_addr :: sockaddr where
  "example_addr = \<lparr>s_addr = 0x0100007F, sin_port = 9000\<rparr>"

lemma init_tracker_wf: "tracker_wf Tracker_init" "iterates [] (clusters Tracker_init)"
  "next_id Tracker_init = 1025" "clusters Tracker_init = Map.empty"
  by (simp_all add: tracker_wf_def Tracker_init_def iterates_def RESERVED_CLUSTER_ID_def)

lemma tracker_init_ID_0:
  "tracker_command junk clock [] a ''ID 0'' Tracker_init =
     (registered 1025 a (clock 0) (Tracker_init\<lparr>next_id := 1026\<rparr>), [(a, ''RUN 1025'' @ [NUL])])"
proof -
  have 0: "show_word (0 :: ClusterID) = ''0''" and r: "show_word (1025 :: ClusterID) = ''1025''"
    by (simp_all add: show_word_def show_nat.simps char_of_def bit_0)
  have "findByValue [] a Tracker_init = 0" by (simp add: findByValue_def)
  then show ?thesis
    using tracker_command_ID [of junk clock "[]" a 0 Tracker_init]
    by (simp add: Tracker_init_def RESERVED_CLUSTER_ID_def 0 r)
qed

text \<open>C16. However long the tracker has run and whatever it received, errors of the socket included,
  until the counter wraps: no two ids are registered for one address, no cluster has the id 0,
  every registered id has an update time, and the ids given out are above the reserved ones.
\<close>

theorem tracker_registry_invariant:
  assumes "tracker_reaches n (t, buff)" and "n + 1025 < 2 ^ 32"
  shows "finite (dom (clusters t)) \<and> inj_on (clusters t) (dom (clusters t)) \<and> clusters t 0 = None \<and>
    dom (clusters t) \<subseteq> dom (updateTime t) \<and> RESERVED_CLUSTER_ID < next_id t"
  using tracker_reaches_wf [OF assms(1,2)]
  by (simp add: tracker_wf_def ids_used_def RESERVED_CLUSTER_ID_def word_less_nat_alt)

text \<open>A server without an id asks for one, then another one.\<close>

lemma reaches_ID_0:
  assumes "tracker_reaches n (t, buff)" "length buff = TRACKER_BUFF" "iterates ks (clusters t)" "findByValue ks a t = 0"
  shows "\<exists>b. length b = TRACKER_BUFF \<and>
    tracker_reaches (Suc n) (registered (next_id t) a 5 (t\<lparr>next_id := next_id t + 1\<rparr>), b)"
proof -
  have 0: "''ID 0'' = ''ID '' @ show_word (0 :: ClusterID)"
    by (simp add: show_word_def show_nat.simps char_of_def bit_0)
  let ?b = "(store 1023 (''ID 0'' @ [NUL]) buff)[1023 := NUL]"
  have "tracker_round 0 (\<lambda>k. 5) ks (SelectReady (Received (''ID 0'' @ [NUL]) a)) a (t, buff) =
      (case tracker_command 0 (\<lambda>k. 5) ks a ''ID 0'' t of (t', out) \<Rightarrow> ((t', ?b), out))"
    by (rule tracker_round_message) (use assms(2) in \<open>simp_all add: TRACKER_BUFF_def\<close>)
  also have "tracker_command 0 (\<lambda>k. 5) ks a ''ID 0'' t =
      (registered (next_id t) a 5 (t\<lparr>next_id := next_id t + 1\<rparr>), [(a, ''RUN '' @ show_word (next_id t) @ [NUL])])"
    unfolding 0 tracker_command_ID using assms(4) by simp
  finally have "tracker_reaches (Suc n) (registered (next_id t) a 5 (t\<lparr>next_id := next_id t + 1\<rparr>), ?b)"
    using tracker_reaches.turn [OF assms(1,3)] by simp
  moreover have "length ?b = TRACKER_BUFF" using assms(2) by (simp add: store_def TRACKER_BUFF_def)
  ultimately show ?thesis by blast
qed

lemma example_tracker_reaches:
  "\<exists>t buff. tracker_reaches 2 (t, buff) \<and> clusters t = [1025 \<mapsto> example_addr, 1026 \<mapsto> example_addr\<lparr>sin_port := 9001\<rparr>]"
proof -
  let ?t = "registered 1025 example_addr 5 (Tracker_init\<lparr>next_id := 1026\<rparr>)"
  have id: "next_id Tracker_init = 1025" by (simp add: Tracker_init_def RESERVED_CLUSTER_ID_def)
  have "tracker_reaches 0 (Tracker_init, replicate 1024 NUL)" by (rule tracker_reaches.start) (simp add: TRACKER_BUFF_def)
  then obtain b where b: "length b = TRACKER_BUFF" "tracker_reaches 1 (?t, b)"
    using reaches_ID_0 [of 0 Tracker_init "replicate 1024 NUL" "[]" example_addr] id
    by (auto simp: TRACKER_BUFF_def findByValue_def iterates_def id) (auto simp: Tracker_init_def)
  have "iterates [1025] (clusters ?t)" "findByValue [1025] (example_addr\<lparr>sin_port := 9001\<rparr>) ?t = 0"
    by (simp_all add: iterates_def Tracker_init_def findByValue_def example_addr_def)
  then obtain c where "tracker_reaches (Suc 1) (registered (next_id ?t) (example_addr\<lparr>sin_port := 9001\<rparr>) 5 (?t\<lparr>next_id := next_id ?t + 1\<rparr>), c)"
    using reaches_ID_0 [OF b(2,1)] by blast
  then show ?thesis
    by (intro exI [of _ "registered (next_id ?t) (example_addr\<lparr>sin_port := 9001\<rparr>) 5 (?t\<lparr>next_id := next_id ?t + 1\<rparr>)"] exI [of _ c])
      (simp add: numeral_2_eq_2 Tracker_init_def)
qed

theorem tracker_registry_invariant_witness:
  "\<exists>t buff. tracker_reaches 2 (t, buff) \<and> dom (clusters t) = {1025, 1026} \<and> clusters t 1025 \<noteq> clusters t 1026 \<and>
     {1025, 1026} \<subseteq> dom (updateTime t) \<and> RESERVED_CLUSTER_ID < next_id t"
proof -
  obtain t buff where t: "tracker_reaches 2 (t, buff)" "clusters t = [1025 \<mapsto> example_addr, 1026 \<mapsto> example_addr\<lparr>sin_port := 9001\<rparr>]"
    using example_tracker_reaches by blast
  have d: "dom (clusters t) = {1025, 1026}" by (auto simp: t(2))
  have "inj_on (clusters t) {1025, 1026} \<and> {1025, 1026} \<subseteq> dom (updateTime t) \<and> RESERVED_CLUSTER_ID < next_id t"
    using tracker_registry_invariant [OF t(1)] unfolding d by simp
  with t(1) d show ?thesis by (intro exI [of _ t] exI [of _ buff]) (auto simp: inj_on_def)
qed

text \<open>A server without an id that asks twice gets the next free id both times: the first request
  registers its address under that id, the second finds it, in whatever order the map is
  searched, and changes only the update time.
\<close>

theorem tracker_ID_request:
  assumes "tracker_wf t" "iterates ks (clusters t)" and "a \<notin> ran (clusters t)" "next_id t \<noteq> 0"
    and "tracker_command junk clock ks a (''ID '' @ show_word (0 :: ClusterID)) t = (t1, out1)"
    and "iterates ks1 (clusters t1)"
    and "tracker_command junk' clock' ks1 a (''ID '' @ show_word (0 :: ClusterID)) t1 = (t2, out2)"
  shows "out1 = [(a, ''RUN '' @ show_word (next_id t) @ [NUL])] \<and> out2 = out1 \<and>
    clusters t1 = (clusters t)(next_id t \<mapsto> a) \<and> next_id t1 = next_id t + 1 \<and>
    t2 = t1\<lparr>updateTime := (updateTime t1)(next_id t \<mapsto> clock' 0)\<rparr>"
proof -
  have f0: "findByValue ks a t = 0" using findByValue_eq(2) [OF assms(1,2)] assms(3) by blast
  then have t1: "t1 = registered (next_id t) a (clock 0) (t\<lparr>next_id := next_id t + 1\<rparr>)"
    and out1: "out1 = [(a, ''RUN '' @ show_word (next_id t) @ [NUL])]"
    using assms(5) unfolding tracker_command_ID by simp_all
  have "clusters t1 j = Some a \<longleftrightarrow> j = next_id t" for j
    using assms(3) by (auto simp: t1 ran_def)
  then have "findByValue ks1 a t1 = next_id t" by (rule find_single [OF assms(6)])
  then show ?thesis
    using assms(4,7) unfolding tracker_command_ID by (simp add: t1 out1)
qed

theorem tracker_ID_request_witness:
  "\<exists>t1 t2. clusters t1 = [1025 \<mapsto> example_addr] \<and>
     tracker_command 0 (\<lambda>k. 6) [1025] example_addr (''ID '' @ show_word (0 :: ClusterID)) t1 =
       (t2, [(example_addr, ''RUN '' @ show_word (1025 :: ClusterID) @ [NUL])])"
proof -
  obtain t1 out1 where c1: "tracker_command 0 (\<lambda>k. 5) [] example_addr (''ID '' @ show_word (0 :: ClusterID)) Tracker_init = (t1, out1)"
    by fastforce
  obtain t2 out2 where c2: "tracker_command 0 (\<lambda>k. 6) [1025] example_addr (''ID '' @ show_word (0 :: ClusterID)) t1 = (t2, out2)"
    by fastforce
  have n: "next_id Tracker_init = 1025" by (simp add: Tracker_init_def RESERVED_CLUSTER_ID_def)
  have "findByValue [] example_addr Tracker_init = 0" by (simp add: findByValue_def)
  then have cl: "clusters t1 = [1025 \<mapsto> example_addr]"
    using c1 unfolding tracker_command_ID by (auto simp: Tracker_init_def RESERVED_CLUSTER_ID_def)
  have "out2 = [(example_addr, ''RUN '' @ show_word (1025 :: ClusterID) @ [NUL])]"
    using tracker_ID_request [OF _ _ _ _ c1 _ c2] cl
    by (simp add: tracker_wf_def Tracker_init_def iterates_def RESERVED_CLUSTER_ID_def)
  with c2 cl show ?thesis by blast
qed

lemma own_id_registered:
  assumes "tracker_wf t" "iterates ks (clusters t)" "i \<noteq> 0"
  shows "tracker_command junk clock ks a (''ID '' @ show_word i) t = (t', out) \<Longrightarrow>
    out = [] \<and> updateTime t' = (updateTime t)(i \<mapsto> clock 0) \<and> next_id t' = next_id t \<and>
    clusters t' = (\<lambda>j. if j = i then Some a else if clusters t j = Some a then None else clusters t j)"
proof -
  assume "tracker_command junk clock ks a (''ID '' @ show_word i) t = (t', out)"
  then have t': "t' = registered i a (clock 0) (if i \<noteq> findByValue ks a t then unregister (findByValue ks a t) t else t)"
    and "out = []"
    using assms(3) unfolding tracker_command_ID by auto
  moreover have "clusters t j = Some a \<longleftrightarrow> j = findByValue ks a t \<and> a \<in> ran (clusters t)" for j
    using findByValue_eq [OF assms(1,2)] by (auto simp: ran_def)
  moreover have "clusters t (findByValue ks a t) = None" if "a \<notin> ran (clusters t)"
  proof -
    have "findByValue ks a t = 0" using findByValue_eq(2) [OF assms(1,2)] that by blast
    then show ?thesis using assms(1) by (simp add: tracker_wf_def)
  qed
  ultimately show ?thesis by (auto simp: fun_eq_iff)
qed

text \<open>A server that announces its id \<open>i\<close> owns that id and no other afterwards, gets no reply, and
  a \<open>GET i\<close> from anyone then answers with its address for as long as the announcement is no
  older than \<open>ENV_UPDATE_TIME\<close>.  After that the answer is \<open>DROP\<close> and the id is forgotten,
  except that a reserved id is kept and its \<open>GET\<close> is not answered at all.
\<close>

theorem tracker_announce_then_GET:
  assumes "tracker_wf t" "iterates ks (clusters t)" "i \<noteq> 0"
    and announce: "tracker_command junk clock ks a (''ID '' @ show_word i) t = (t1, out1)"
    and lookup: "tracker_command junk' clock' ks1 b (''GET '' @ show_word i) t1 = (t2, out2)"
  shows "out1 = [] \<and> (\<forall>j. clusters t1 j = Some a \<longleftrightarrow> j = i) \<and>
    (clock' 0 \<le> clock 0 + ENV_UPDATE_TIME \<longrightarrow>
       t2 = t1 \<and> out2 = [(b, ''POINT '' @ show_word i @ '' '' @ show_word (s_addr a) @ '' '' @
         show_word (sin_port a) @ [NUL])]) \<and>
    (clock 0 + ENV_UPDATE_TIME < clock' 0 \<longrightarrow> RESERVED_CLUSTER_ID < i \<longrightarrow>
       clusters t2 = (clusters t1)(i := None) \<and> out2 = [(b, ''DROP '' @ show_word i @ [NUL])]) \<and>
    (clock 0 + ENV_UPDATE_TIME < clock' 0 \<longrightarrow> i \<le> RESERVED_CLUSTER_ID \<longrightarrow> t2 = t1 \<and> out2 = [])"
proof -
  note own = own_id_registered [OF assms(1-3) announce]
  have c: "clusters t1 i = Some a" and u: "updateTime t1 i = Some (clock 0)" using own by simp_all
  have "updateTime t1 i \<noteq> None" using u by simp
  then have "t1\<lparr>updateTime := touch 0 (updateTime t1) i\<rparr> = t1"
    by (simp add: touch_same)
  then show ?thesis
    using lookup own c u unfolding tracker_command_GET
    by (auto simp: not_less split: if_splits)
qed

theorem tracker_announce_then_GET_witness:
  "\<exists>t1. clusters t1 7 = Some example_addr \<and>
     tracker_command 0 (\<lambda>k. seconds 601) [7] example_addr (''GET '' @ show_word (7 :: ClusterID)) t1 = (t1, [])"
proof -
  obtain t1 out1 where c1: "tracker_command 0 (\<lambda>k. 0) [] example_addr (''ID '' @ show_word (7 :: ClusterID)) Tracker_init = (t1, out1)"
    by fastforce
  obtain t2 out2 where c2: "tracker_command 0 (\<lambda>k. seconds 601) [7] example_addr (''GET '' @ show_word (7 :: ClusterID)) t1 = (t2, out2)"
    by fastforce
  have "tracker_wf Tracker_init" "iterates [] (clusters Tracker_init)"
    by (simp_all add: tracker_wf_def Tracker_init_def iterates_def)
  from tracker_announce_then_GET [OF this _ c1 c2] c2 show ?thesis
    by (auto simp: ENV_UPDATE_TIME_def RESERVED_CLUSTER_ID_def word_less_nat_alt word_le_nat_alt)
qed

text \<open>The counter does not know the ids servers announce themselves.  When a server has announced
  the id the counter has reached, the next server that asks for an id is given the same one, and
  the first server is no longer registered at all.
\<close>

theorem tracker_gives_away_announced_id:
  assumes "tracker_wf t" "iterates ks (clusters t)" "next_id t \<noteq> 0"
    and announce: "tracker_command junk clock ks a (''ID '' @ show_word (next_id t)) t = (t1, out1)"
    and "iterates ks1 (clusters t1)" "b \<noteq> a" "b \<notin> ran (clusters t)"
    and request: "tracker_command junk' clock' ks1 b (''ID '' @ show_word (0 :: ClusterID)) t1 = (t2, out2)"
  shows "clusters t1 (next_id t) = Some a \<and> out2 = [(b, ''RUN '' @ show_word (next_id t) @ [NUL])] \<and>
    clusters t2 (next_id t) = Some b \<and> a \<notin> ran (clusters t2)"
proof -
  note own = own_id_registered [OF assms(1-3) announce]
  have "b \<notin> ran (clusters t1)"
    using own assms(6,7) by (auto simp: ran_def split: if_splits)
  then have "findByValue ks1 b t1 = 0"
    using findByValue_cases [OF assms(5), of b] by (metis ranI)
  then have "t2 = registered (next_id t1) b (clock' 0) (t1\<lparr>next_id := next_id t1 + 1\<rparr>) \<and>
      out2 = [(b, ''RUN '' @ show_word (next_id t1) @ [NUL])]"
    using request unfolding tracker_command_ID by auto
  then show ?thesis using own assms(6) by (auto simp: ran_def split: if_splits)
qed

theorem tracker_gives_away_announced_id_witness:
  "\<exists>(t1 :: tracker) (t2 :: tracker). clusters t1 1025 = Some example_addr \<and>
     clusters t2 1025 = Some (example_addr\<lparr>sin_port := 9001\<rparr>) \<and> example_addr \<notin> ran (clusters t2)"
proof -
  let ?b = "example_addr\<lparr>sin_port := 9001\<rparr>"
  have n: "next_id Tracker_init = 1025" by (simp add: Tracker_init_def RESERVED_CLUSTER_ID_def)
  obtain t1 out1 where c1: "tracker_command 0 (\<lambda>k. 0) [] example_addr (''ID '' @ show_word (next_id Tracker_init)) Tracker_init = (t1, out1)"
    by fastforce
  obtain t2 out2 where c2: "tracker_command 0 (\<lambda>k. 1) [1025] ?b (''ID '' @ show_word (0 :: ClusterID)) t1 = (t2, out2)"
    by fastforce
  have wf: "tracker_wf Tracker_init" "iterates [] (clusters Tracker_init)"
    by (simp_all add: tracker_wf_def Tracker_init_def iterates_def)
  have cl: "clusters t1 = [1025 \<mapsto> example_addr]"
    using own_id_registered [OF wf _ c1] by (auto simp: Tracker_init_def RESERVED_CLUSTER_ID_def)
  have "?b \<noteq> example_addr" by (simp add: example_addr_def)
  moreover have "iterates [1025] (clusters t1)" by (simp add: cl iterates_def)
  moreover have "?b \<notin> ran (clusters Tracker_init)" by (simp add: Tracker_init_def)
  ultimately have "clusters t2 1025 = Some ?b \<and> example_addr \<notin> ran (clusters t2)"
    using tracker_gives_away_announced_id [OF wf _ c1 _ _ _ c2, unfolded n] by simp
  moreover have "clusters t1 1025 = Some example_addr" by (simp add: cl)
  ultimately show ?thesis by blast
qed

text \<open>\<open>LIST\<close> forgets no cluster and answers with the ids that were updated within
  \<open>ENV_UPDATE_TIME\<close> of the clock reading made for them, each followed by a blank, and with no
  datagram when there is none.
\<close>

theorem tracker_LIST_spec:
  "\<exists>t'. tracker_command junk clock ks a ''LIST'' t = (t', if list_reply clock ks t = [] then []
       else [(a, list_reply clock ks t @ [NUL])]) \<and> clusters t' = clusters t"
  using tracker_LIST_reply [of clock ks a t]
  by (cases "tracker_LIST clock ks a t") (simp add: tracker_command_LIST sendCommand_def not_less)

text \<open>Only a result of 0 is taken for a failed read.  After a message any error of the socket makes
  the loop handle that message again, as if whatever address the uninitialised \<open>from\<close> holds had
  sent it.
\<close>

theorem tracker_error_replays_message:
  assumes "NUL \<notin> set msg" and "length msg < TRACKER_BUFF - 1" and "length buff = TRACKER_BUFF"
    and "tracker_round junk clock ks (SelectReady (Received (msg @ [NUL]) a)) from0 (t, buff) = ((t1, buff1), out)"
  shows "tracker_round junk' clock' ks' (SelectFails e) garbage (t1, buff1) =
    tracker_round junk' clock' ks' (SelectReady (Received (msg @ [NUL]) garbage)) from1 (t1, buff1)"
proof -
  have b: "buff1 = (store 1023 (msg @ [NUL]) buff)[1023 := NUL]"
    using assms(4) unfolding tracker_round_message [OF assms(1-3)] by (auto split: prod.splits)
  then have len: "length buff1 = TRACKER_BUFF" using assms(3) by (simp add: TRACKER_BUFF_def)
  have st: "store 1023 (msg @ [NUL]) buff = msg @ NUL # drop (Suc (length msg)) buff"
    using assms by (simp add: store_def TRACKER_BUFF_def)
  have upd: "buff1 = msg @ NUL # (drop (Suc (length msg)) buff)[1022 - length msg := NUL]"
  proof -
    have "1023 - length msg = Suc (1022 - length msg)" "\<not> 1023 < length msg"
      using assms(2) by (simp_all add: TRACKER_BUFF_def)
    then show ?thesis by (simp add: b st list_update_append)
  qed
  have "store 1023 (msg @ [NUL]) buff1 = buff1"
    using assms(2) by (simp add: store_def upd TRACKER_BUFF_def)
  moreover have "buff1[1023 := NUL] = buff1" by (simp add: b)
  moreover have "c_string buff1 = msg" using assms(1) by (simp add: upd c_string_message)
  ultimately show ?thesis
    unfolding tracker_round_message [OF assms(1,2) len]
    by (simp add: tracker_round_def ReadSelect_def TRACKER_BUFF_def Let_def)
qed

theorem tracker_error_replays_message_witness:
  "\<exists>buff1. tracker_round 0 (\<lambda>k. 6) [1025] (SelectFails 9) (example_addr\<lparr>sin_port := 1\<rparr>)
      (registered 1025 example_addr 5 (Tracker_init\<lparr>next_id := 1026\<rparr>), buff1) =
    tracker_round 0 (\<lambda>k. 6) [1025] (SelectReady (Received (''ID 0'' @ [NUL]) (example_addr\<lparr>sin_port := 1\<rparr>))) example_addr
      (registered 1025 example_addr 5 (Tracker_init\<lparr>next_id := 1026\<rparr>), buff1)"
proof -
  let ?b = "replicate 1024 NUL"
  obtain t1 buff1 out where r: "tracker_round 0 (\<lambda>k. 5) [] (SelectReady (Received (''ID 0'' @ [NUL]) example_addr)) example_addr
      (Tracker_init, ?b) = ((t1, buff1), out)"
    by (cases "tracker_round 0 (\<lambda>k. 5) [] (SelectReady (Received (''ID 0'' @ [NUL]) example_addr)) example_addr (Tracker_init, ?b)")
      auto
  have "t1 = registered 1025 example_addr 5 (Tracker_init\<lparr>next_id := 1026\<rparr>)"
    using r tracker_round_message [of "''ID 0''" ?b 0 "\<lambda>k. 5" "[]" example_addr example_addr Tracker_init]
    unfolding tracker_init_ID_0 by (simp add: TRACKER_BUFF_def)
  moreover have "tracker_round 0 (\<lambda>k. 6) [1025] (SelectFails 9) (example_addr\<lparr>sin_port := 1\<rparr>) (t1, buff1) =
      tracker_round 0 (\<lambda>k. 6) [1025] (SelectReady (Received (''ID 0'' @ [NUL]) (example_addr\<lparr>sin_port := 1\<rparr>))) example_addr
        (t1, buff1)"
    by (rule tracker_error_replays_message [OF _ _ _ r]) (simp_all add: TRACKER_BUFF_def)
  ultimately show ?thesis by blast
qed

end
