(* ===== verification/Client_Tracker.thy ===== *)
theory Client_Tracker
  imports Client_Create Tracker
begin

text \<open>
  The client and the tracker: what \<open>list\<close> and \<open>get\<close> of \<open>utils/client.cpp\<close> print, and the conversation in
  which the tracker of \<open>utils/tracker.cpp\<close> answers each of the client's questions in turn.
\<close>

section \<open>The client and the tracker\<close>

definition fresh_ids :: "(nat \<Rightarrow> Time) \<Rightarrow> ClusterID list \<Rightarrow> tracker \<Rightarrow> ClusterID list" where
  "fresh_ids clock ks t = map snd (filter (\<lambda>(k, i). clock k - ENV_UPDATE_TIME \<le> at_default 0 (updateTime t) i) (enumerate 0 ks))"

lemma list_reply_ids: "list_reply clock ks t = LIST_reply (fresh_ids clock ks t)"
  by (simp add: list_reply_def LIST_reply_def fresh_ids_def comp_def case_prod_unfold)

lemma fresh_ids_subset: "set (fresh_ids clock ks t) \<subseteq> set ks"
  by (auto simp: fresh_ids_def in_set_enumerate_eq)

lemma fresh_ids_distinct: "distinct ks \<Longrightarrow> distinct (fresh_ids clock ks t)"
  using distinct_map_filter [of snd "enumerate 0 ks"] by (simp add: fresh_ids_def)

lemma list_reply_no_NUL: "NUL \<notin> set (list_reply clock ks t)"
  by (simp add: list_reply_ids reply_chars)

text \<open>An address to ask from.\<close>

definition client_addr :: sockaddr where
  "client_addr = \<lparr>s_addr = 0x0200A8C0, sin_port = 5000\<rparr>"

lemma listClusters_tracker:
  assumes "tracker_wf t" and "iterates ks (clusters t)" and "length (list_reply clock ks t) < 0xFFFF"
    and "tracker_command junk clock ks a ''LIST'' t = (t', out)"
    and "known TRACKER_CLUSTER_ID st"
    and "reads st = (case out of [] \<Rightarrow> SelectTimeout | (b, msg) # _ \<Rightarrow> SelectReady (Received msg c)) # rs"
  shows "listClusters j st = Some (fresh_ids clock ks t, after_attempts 1 TRACKER_CLUSTER_ID ''LIST'' st)"
proof -
  have out: "out = (if list_reply clock ks t = [] then [] else [(a, list_reply clock ks t @ [NUL])])"
    using assms(4) tracker_LIST_reply(1) [of clock ks a t]
    by (cases "tracker_LIST clock ks a t") (auto simp: tracker_command_LIST sendCommand_def not_less)
  have "reply_at st 0 = list_reply clock ks t"
    using assms(3) list_reply_no_NUL [of clock ks t]
    by (auto simp: reply_at_def assms(6) out reply_text_def c_string_message)
  moreover have "set (fresh_ids clock ks t) \<subseteq> dom (clusters t)"
    using assms(2) fresh_ids_subset [of clock ks t] by (simp add: iterates_def)
  then have "0 \<notin> set (fresh_ids clock ks t)" using assms(1) by (auto simp: tracker_wf_def)
  then have "read_ids (old_cid j) (istringstream (list_reply clock ks t)) = fresh_ids clock ks t"
    unfolding list_reply_ids by (rule read_ids_LIST)
  ultimately show ?thesis
    using assms(5) by (simp add: listClusters_def trackerCommand_known wait_after_write)
qed

text \<open>When the tracker's answer to \<open>LIST\<close> reaches the client, the client gets exactly the registered
  ids that were updated lately, in the tracker's order; with none the tracker does not answer
  and the client, after its timeout, gets none.
\<close>

theorem client_lists_clusters:
  assumes "tracker_wf t" and "iterates ks (clusters t)" and "length (list_reply clock ks t) < 0xFFFF"
    and "tracker_command junk clock ks a ''LIST'' t = (t', out)"
    and "known TRACKER_CLUSTER_ID st"
    and "reads st = (case out of [] \<Rightarrow> SelectTimeout | (b, msg) # _ \<Rightarrow> SelectReady (Received msg c)) # rs"
  shows "\<exists>st'. listClusters j st = Some (fresh_ids clock ks t, st') \<and> reads st' = rs \<and> addrs st' = addrs st"
  using listClusters_tracker [OF assms] by (simp add: after_attempts_def assms(6))

theorem client_lists_clusters_witness:
  "\<exists>st st'. listClusters \<lparr>old_cid = 0, old_ip = 0, old_port = 0\<rparr> st = Some ([7], st')"
proof -
  obtain t1 out1 where c1: "tracker_command 0 (\<lambda>k. 0) [] example_addr (''ID '' @ show_word (7 :: ClusterID)) Tracker_init = (t1, out1)"
    by fastforce
  have cl: "clusters t1 = [7 \<mapsto> example_addr]" "updateTime t1 = [7 \<mapsto> 0]"
    using own_id_registered [OF init_tracker_wf(1,2) _ c1] by (auto simp: Tracker_init_def)
  then have wf: "tracker_wf t1" "iterates [7] (clusters t1)" by (simp_all add: tracker_wf_def iterates_def)
  have f: "fresh_ids (\<lambda>k. 5) [7] t1 = [7]" by (simp add: fresh_ids_def cl ENV_UPDATE_TIME_def)
  have len: "length (list_reply (\<lambda>k. 5) [7] t1) < 0xFFFF"
    by (simp add: list_reply_ids f reply_lengths)
  obtain t2 out2 where l: "tracker_command 0 (\<lambda>k. 5) [7] client_addr ''LIST'' t1 = (t2, out2)"
    by fastforce
  define st where "st = Commander_init example_addr
    [case out2 of [] \<Rightarrow> SelectTimeout | (b, msg) # _ \<Rightarrow> SelectReady (Received msg example_addr)]"
  have "known TRACKER_CLUSTER_ID st"
    and "reads st = (case out2 of [] \<Rightarrow> SelectTimeout | (b, msg) # _ \<Rightarrow> SelectReady (Received msg example_addr)) # []"
    by (simp_all add: st_def Commander_init_def example_addr_def)
  then obtain st' where "listClusters \<lparr>old_cid = 0, old_ip = 0, old_port = 0\<rparr> st = Some ([7], st')"
    using client_lists_clusters [OF wf len l, of st example_addr "[]" "\<lparr>old_cid = 0, old_ip = 0, old_port = 0\<rparr>"] f
    by auto
  then show ?thesis by blast
qed

text \<open>The client's lookup of a cluster: its question is the tracker's \<open>GET\<close> message, and the
  tracker's answer about a registered id that was updated lately makes the client know exactly
  the registered address (unless that is the loopback, which it replaces).
\<close>

theorem client_looks_up_cluster:
  assumes "clusters t i = Some a" and "clock 0 \<le> at_default 0 (updateTime t) i + ENV_UPDATE_TIME"
    and "tracker_command junk clock ks b (''GET '' @ show_word i) t = (t', [(b, msg)])"
    and "known TRACKER_CLUSTER_ID st" and "reads st = SelectReady (Received msg c) # rs"
    and "ucast (s_addr a) \<noteq> lip"
  shows "\<exists>st'. getCluster lip j i st = Some (i, st') \<and> addr_of i st' = a \<and> reads st' = rs \<and>
    sent st' = sent st @ [(addr_of TRACKER_CLUSTER_ID st, ''GET '' @ show_word i @ [NUL])]"
proof -
  have "\<not> at_default 0 (updateTime t) i < clock 0 - ENV_UPDATE_TIME" using assms(2) by simp
  then have msg: "msg = POINT_reply i a @ [NUL]"
    using assms(3) assms(1) unfolding tracker_command_GET by (simp add: POINT_reply_def)
  have "reply_text (said (POINT_reply i a)) = POINT_reply i a" by (rule said_text [OF reply_chars(1) reply_lengths(1)])
  then have "reply_at st 0 = POINT_reply i a"
    by (simp add: reply_at_def assms(5) reply_text_def msg said_def)
  then have "getCluster lip j i st = Some (i, learned i a st)"
    by (rule getCluster_POINT [OF assms(4) _ assms(6)])
  then show ?thesis by (simp add: assms(5) GET_query_def)
qed

theorem client_looks_up_cluster_witness:
  "\<exists>st st'. getCluster 0 \<lparr>old_cid = 0, old_ip = 0, old_port = 0\<rparr> 7 st = Some (7, st') \<and> addr_of 7 st' = example_addr"
proof -
  let ?t = "registered 7 example_addr 0 Tracker_init"
  have out: "tracker_command 0 (\<lambda>k. 5) [] client_addr (''GET '' @ show_word (7 :: ClusterID)) ?t =
      (?t\<lparr>updateTime := touch 0 (updateTime ?t) 7\<rparr>, [(client_addr, ''POINT '' @ show_word (7 :: ClusterID) @ '' '' @
        show_word (s_addr example_addr) @ '' '' @ show_word (sin_port example_addr) @ [NUL])])" (is "_ = (_, [(_, ?m)])")
    unfolding tracker_command_GET by (simp add: ENV_UPDATE_TIME_def)
  define st where "st = Commander_init example_addr [SelectReady (Received ?m example_addr)]"
  have "known TRACKER_CLUSTER_ID st" "reads st = SelectReady (Received ?m example_addr) # []"
    by (simp_all add: st_def Commander_init_def example_addr_def)
  then obtain st' where "getCluster 0 \<lparr>old_cid = 0, old_ip = 0, old_port = 0\<rparr> 7 st = Some (7, st')"
      "addr_of 7 st' = example_addr"
    using client_looks_up_cluster [OF _ _ out, of example_addr st example_addr "[]" 0
        "\<lparr>old_cid = 0, old_ip = 0, old_port = 0\<rparr>"]
    by (auto simp: ENV_UPDATE_TIME_def example_addr_def)
  then show ?thesis by blast
qed

section \<open>What the client prints\<close>

text \<open>The line \<open>command\<close> prints; the address and the port are printed as they are stored, in network order.\<close>

definition command_text :: "ClusterID \<Rightarrow> string \<Rightarrow> string" where
  "command_text i cmd = ''Command to cluster '' @ show_word i @ '': '' @ cmd @ [NL]"

definition printCluster :: "ClusterID \<Rightarrow> commander \<Rightarrow> string" where
  "printCluster i st =
    (let a = addr_of i st; ip = ucast (s_addr a) :: IP
     in [CHR 0x09] @ show_word i @ '' -> '' @ ipStr ip @ '' ('' @ show_word ip @ ''):'' @ show_word (sin_port a) @ [NL])"

text \<open>\<open>getClusters\<close> with its output, when the address of the tracker is known.\<close>

fun print_each :: "IP \<Rightarrow> client_junk \<Rightarrow> ClusterID list \<Rightarrow> commander \<Rightarrow> (string \<times> commander) option" where
  "print_each lip junk [] st = Some ([], st)"
| "print_each lip junk (i # is) st =
    do {
      (found, st1) \<leftarrow> getCluster lip junk i st;
      (out, st2) \<leftarrow> print_each lip junk is st1;
      Some (command_text TRACKER_CLUSTER_ID (''GET '' @ show_word i) @
        (if found \<noteq> 0 then printCluster i st1 else []) @ out, st2)
    }"

definition print_clusters :: "IP \<Rightarrow> client_junk \<Rightarrow> commander \<Rightarrow> (string \<times> nat \<times> commander) option" where
  "print_clusters lip junk st =
    do {
      (ids, st1) \<leftarrow> listClusters junk st;
      (out, st2) \<leftarrow> print_each lip junk ids st1;
      Some (command_text TRACKER_CLUSTER_ID ''LIST'' @ show_nat (length ids) @ '' clusters found'' @ [NL] @ out,
        length ids, st2)
    }"

text \<open>The output aside it is \<open>getClusters\<close>.\<close>

lemma print_each_getAll: "map_option snd (print_each lip j is st) = getAll lip j is st"
proof (induction "is" arbitrary: st)
  case (Cons i "is")
  show ?case
    unfolding getAll.simps print_each.simps Cons.IH [symmetric]
    by (auto simp: map_option_case split: option.splits Option.bind_splits prod.splits)
qed simp

lemma print_clusters_getClusters: "map_option snd (print_clusters lip j st) = getClusters lip j st"
  unfolding print_clusters_def getClusters_def print_each_getAll [symmetric]
  by (auto simp: map_option_case split: option.splits Option.bind_splits prod.splits)

section \<open>The conversation\<close>

text \<open>
  What the client reads when the tracker gets its messages in order, and no answer is lost; the
  clock, the order of the keys and the uninitialised variable are given for each message.
\<close>

fun tracker_answers :: "(nat \<Rightarrow> ClusterID) \<Rightarrow> (nat \<Rightarrow> nat \<Rightarrow> Time) \<Rightarrow> (nat \<Rightarrow> ClusterID list) \<Rightarrow> sockaddr \<Rightarrow>
    nat \<Rightarrow> string list \<Rightarrow> tracker \<Rightarrow> char select_call list" where
  "tracker_answers junk clk kss a n [] t = []"
| "tracker_answers junk clk kss a n (m # ms) t =
    (case tracker_command (junk n) (clk n) (kss n) a m t of
       (t', out) \<Rightarrow>
         (case out of [] \<Rightarrow> SelectTimeout | (b, msg) # _ \<Rightarrow> SelectReady (Received msg no_addr)) #
           tracker_answers junk clk kss a (Suc n) ms t')"

text \<open>A cluster was updated lately when its question is answered.\<close>

definition lately :: "(nat \<Rightarrow> nat \<Rightarrow> Time) \<Rightarrow> tracker \<Rightarrow> nat \<Rightarrow> ClusterID \<Rightarrow> bool" where
  "lately clk t n i \<longleftrightarrow> clk n 0 \<le> at_default 0 (updateTime t) i + ENV_UPDATE_TIME"

definition cluster_line :: "ClusterID \<Rightarrow> sockaddr \<Rightarrow> string" where
  "cluster_line i a =
    [CHR 0x09] @ show_word i @ '' -> '' @ ipStr (ucast (s_addr a)) @ '' ('' @ show_word (s_addr a) @ ''):'' @
      show_word (sin_port a) @ [NL]"

definition listing :: "(sockaddr \<Rightarrow> sockaddr) \<Rightarrow> (nat \<Rightarrow> nat \<Rightarrow> Time) \<Rightarrow> tracker \<Rightarrow> nat \<Rightarrow> ClusterID list \<Rightarrow> string" where
  "listing seen clk t n ids = concat (map (\<lambda>(k, i). command_text TRACKER_CLUSTER_ID (GET_query i) @
     (if lately clk t k i then cluster_line i (seen (the (clusters t i))) else [])) (enumerate n ids))"

lemma printCluster_line: "addr_of i st = a \<Longrightarrow> printCluster i st = cluster_line i a"
proof -
  assume a: "addr_of i st = a"
  have "unat (s_addr a) < 2 ^ 64" using unsigned_less [where w = "s_addr a" and ?'a = nat] by simp
  then have "show_word (ucast (s_addr a) :: IP) = show_word (s_addr a)"
    by (simp add: show_word_def unsigned_ucast_eq take_bit_nat_eq_self)
  then show ?thesis by (simp add: printCluster_def cluster_line_def a Let_def)
qed

abbreviation same_entry :: "tracker \<Rightarrow> tracker \<Rightarrow> ClusterID \<Rightarrow> bool" where
  "same_entry t t' i \<equiv> clusters t' i = clusters t i \<and> at_default 0 (updateTime t') i = at_default 0 (updateTime t) i"

lemma reply_said: "NUL \<notin> set msg \<Longrightarrow> length msg < 0xFFFF \<Longrightarrow> reply_text (SelectReady (Received (msg @ [NUL]) no_addr)) = msg"
  using said_text by (simp add: said_def)

lemma getCluster_silent:
  assumes "known TRACKER_CLUSTER_ID st" "reply_at st 0 = []"
  shows "getCluster lip j i st = Some (0, asked i st)"
proof -
  have "fst (get_word [] (istringstream [])) = []"
    by (simp add: get_word_def istringstream_def sentry_def good_def)
  then show ?thesis
    using assms by (cases "get_word [] (istringstream [])") (simp add: getCluster_asked split: prod.splits)
qed

lemma get_step:
  assumes "known TRACKER_CLUSTER_ID st" and "clusters t i = Some a"
    and "reads st = tracker_answers junk clk kss b n (GET_query i # ms) t @ rs"
  obtains t' where "getCluster lip j i st =
      Some (if lately clk t n i then (i, learned i (seen_addr lip (tracker_addr_of st) a) st) else (0, asked i st))"
    "drop 1 (reads st) = tracker_answers junk clk kss b (Suc n) ms t' @ rs"
    "\<And>k. k \<noteq> i \<Longrightarrow> same_entry t t' k"
proof -
  obtain t' out where c: "tracker_command (junk n) (clk n) (kss n) b (GET_query i) t = (t', out)" by fastforce
  note g = c [unfolded GET_query_def tracker_command_GET, simplified assms(2)]
  have rest: "drop 1 (reads st) = tracker_answers junk clk kss b (Suc n) ms t' @ rs"
    using assms(3) c by simp
  have same: "same_entry t t' k" if "k \<noteq> i" for k
    using g that by (auto simp: unregister_def touch_def split: if_splits)
  show ?thesis
  proof (cases "lately clk t n i")
    case True
    then have "out = [(b, POINT_reply i a @ [NUL])]" using g by (auto simp: lately_def POINT_reply_def)
    then have "reply_at st 0 = POINT_reply i a"
      using assms(3) c by (simp add: reply_at_def reply_said reply_chars reply_lengths)
    then show ?thesis
      using that [OF _ rest same] getCluster_POINT_any [OF assms(1)] True by simp
  next
    case False
    then consider "out = [(b, DROP_reply i @ [NUL])]" | "out = []"
      using g by (auto simp: lately_def DROP_reply_def split: if_splits)
    then have "getCluster lip j i st = Some (0, asked i st)"
    proof cases
      case 1
      then have "reply_at st 0 = DROP_reply i"
        using assms(3) c by (simp add: reply_at_def reply_said reply_chars reply_lengths)
      then show ?thesis by (rule getCluster_DROP [OF assms(1)])
    next
      case 2
      then have "reply_at st 0 = []"
        using assms(3) c by (simp add: reply_at_def reply_text_def)
      then show ?thesis by (rule getCluster_silent [OF assms(1)])
    qed
    then show ?thesis using that [OF _ rest same] False by simp
  qed
qed

lemma listing_cong: "\<forall>i \<in> set ids. same_entry t t' i \<Longrightarrow> listing f clk t' n ids = listing f clk t n ids"
  unfolding listing_def lately_def
  by (intro arg_cong [where f = concat] map_cong refl) (auto simp: in_set_enumerate_eq)

lemma print_each_session:
  assumes "known TRACKER_CLUSTER_ID st" and "distinct ids" and "TRACKER_CLUSTER_ID \<notin> set ids"
    and "set ids \<subseteq> dom (clusters t)"
    and "reads st = tracker_answers junk clk kss b n (map GET_query ids) t @ rs"
  shows "\<exists>st'. print_each lip j ids st = Some (listing (seen_addr lip (tracker_addr_of st)) clk t n ids, st') \<and> reads st' = rs \<and>
    sent st' = sent st @ map (get_sent st) ids"
  using assms
proof (induction ids arbitrary: st t n)
  case Nil
  then show ?case by (simp add: listing_def)
next
  case (Cons i ids)
  obtain a where a: "clusters t i = Some a" using Cons.prems(4) by auto
  let ?f = "seen_addr lip (tracker_addr_of st)"
  have r: "reads st = tracker_answers junk clk kss b n (GET_query i # map GET_query ids) t @ rs"
    using Cons.prems(5) by simp
  obtain t' where t': "getCluster lip j i st = Some (if lately clk t n i then (i, learned i (?f a) st) else (0, asked i st))"
      "drop 1 (reads st) = tracker_answers junk clk kss b (Suc n) (map GET_query ids) t' @ rs"
      "\<And>k. k \<noteq> i \<Longrightarrow> same_entry t t' k"
    using get_step [OF Cons.prems(1) a r] by blast
  have ids: "i \<notin> set ids" "i \<noteq> TRACKER_CLUSTER_ID" using Cons.prems(2,3) by auto
  let ?st = "if lately clk t n i then learned i (?f a) st else asked i st"
  have same: "\<forall>k \<in> set ids. same_entry t t' k" using t'(3) ids by metis
  have tr: "tracker_addr_of ?st = tracker_addr_of st" using ids by simp
  then have gs: "get_sent ?st = get_sent st" by (simp add: get_sent_def fun_eq_iff)
  have "\<exists>st'. print_each lip j ids ?st = Some (listing (seen_addr lip (tracker_addr_of ?st)) clk t' (Suc n) ids, st') \<and> reads st' = rs \<and>
      sent st' = sent ?st @ map (get_sent ?st) ids"
  proof (rule Cons.IH)
    show "known TRACKER_CLUSTER_ID ?st" using Cons.prems(1) ids by simp
    show "set ids \<subseteq> dom (clusters t')" using Cons.prems(4) same by auto
  qed (use Cons.prems t'(2) in auto)
  then obtain st' where "print_each lip j ids ?st = Some (listing ?f clk t (Suc n) ids, st')" "reads st' = rs"
      "sent st' = sent st @ map (get_sent st) (i # ids)"
    unfolding listing_cong [OF same] gs tr by (auto simp: get_sent_def)
  then show ?case
    using t'(1) ids printCluster_line [where i = i and st = "learned i (?f a) st" and a = "?f a"]
    by (auto simp: listing_def a GET_query_def TRACKER_CLUSTER_ID_def)
qed

section \<open>Properties\<close>

text \<open>C29. The whole of \<open>list\<close>: the client prints the number of clusters that were updated lately, in the
  tracker's order, and then for each of them, if it still was when its own question was
  answered, the address it registered with -- but for a cluster that registered with the loopback
  address the address of the tracker, which is where such a cluster runs -- and the port.  A cluster that
  has become old in between is left out.  It asks one question for the list and one for each cluster on
  it.  The tracker's answer to \<open>LIST\<close> must be shorter than the client's buffer of \<open>0xFFFF\<close> bytes.
\<close>

theorem client_list_shows_registry:
  assumes "tracker_wf t" and "iterates (kss 0) (clusters t)" and "length (list_reply (clk 0) (kss 0) t) < 0xFFFF"
    and "ids = fresh_ids (clk 0) (kss 0) t"
    and "known TRACKER_CLUSTER_ID st"
    and "reads st = tracker_answers junk clk kss b 0 (''LIST'' # map GET_query ids) t @ rs"
  shows "\<exists>st'. print_clusters lip j st = Some (command_text TRACKER_CLUSTER_ID ''LIST'' @
      show_nat (length ids) @ '' clusters found'' @ [NL] @
      listing (seen_addr lip (tracker_addr_of st)) clk t 1 ids, length ids, st') \<and>
    reads st' = rs \<and> sent st' = sent st @ list_sent st # map (get_sent st) ids"
proof -
  obtain t1 out where c: "tracker_command (junk 0) (clk 0) (kss 0) b ''LIST'' t = (t1, out)" by fastforce
  have t1: "clusters t1 = clusters t" "at_default 0 (updateTime t1) = at_default 0 (updateTime t)"
    using c tracker_LIST_reply(2,3) [of "clk 0" "kss 0" b t] by (auto simp: tracker_command_LIST)
  have r: "reads st = (case out of [] \<Rightarrow> SelectTimeout | (b, msg) # _ \<Rightarrow> SelectReady (Received msg no_addr)) #
      (tracker_answers junk clk kss b 1 (map GET_query ids) t1 @ rs)"
    using assms(6) c by simp
  let ?st = "after_attempts 1 TRACKER_CLUSTER_ID ''LIST'' st"
  have l: "listClusters j st = Some (ids, ?st)"
    using listClusters_tracker [OF assms(1-3) c assms(5) r] assms(4) by simp
  have sub: "set ids \<subseteq> dom (clusters t)" "distinct ids"
    using assms(2,4) fresh_ids_subset [of "clk 0" "kss 0" t] fresh_ids_distinct by (auto simp: iterates_def)
  have "\<exists>st'. print_each lip j ids ?st = Some (listing (seen_addr lip (tracker_addr_of ?st)) clk t1 1 ids, st') \<and> reads st' = rs \<and>
      sent st' = sent ?st @ map (get_sent ?st) ids"
  proof (rule print_each_session)
    show "known TRACKER_CLUSTER_ID ?st" using assms(5) by simp
    show "TRACKER_CLUSTER_ID \<notin> set ids" using sub assms(1) by (auto simp: tracker_wf_def TRACKER_CLUSTER_ID_def)
    show "set ids \<subseteq> dom (clusters t1)" using sub t1(1) by simp
    show "reads ?st = tracker_answers junk clk kss b 1 (map GET_query ids) t1 @ rs" by (simp add: after_attempts_def r)
  qed (rule sub(2))
  moreover have "listing f clk t1 1 ids = listing f clk t 1 ids" for f using t1 by (intro listing_cong) simp
  moreover have "get_sent ?st = get_sent st" by (simp add: get_sent_def fun_eq_iff)
  ultimately show ?thesis using l by (auto simp: print_clusters_def list_sent_def)
qed

text \<open>Cluster 7 registered with 127.0.0.1, port 9000, cluster 8 with another address; the client, whose loopback
  is 127.0.0.1, shows the tracker's address for the first.
\<close>

theorem client_list_shows_registry_witness:
  "\<exists>st st'. print_clusters 0x0100007F \<lparr>old_cid = 0, old_ip = 0, old_port = 0\<rparr> st =
     Some (command_text 0 ''LIST'' @ show_nat 2 @ '' clusters found'' @ [NL] @
       command_text 0 (GET_query 7) @ cluster_line 7 (client_addr\<lparr>sin_port := 9000\<rparr>) @
       command_text 0 (GET_query 8) @ cluster_line 8 client_addr, 2, st')"
proof -
  let ?t = "registered 8 client_addr 0 (registered 7 example_addr 0 Tracker_init)"
  have cl: "clusters ?t = [7 \<mapsto> example_addr, 8 \<mapsto> client_addr]" "updateTime ?t = [7 \<mapsto> 0, 8 \<mapsto> 0]"
    by (simp_all add: registered_def Tracker_init_def)
  have wf: "tracker_wf ?t" "iterates [7, 8] (clusters ?t)"
    by (auto simp: tracker_wf_def iterates_def registered_def Tracker_init_def example_addr_def client_addr_def)
  have f: "fresh_ids (\<lambda>k. 5) [7, 8] ?t = [7, 8]" by (simp add: fresh_ids_def cl ENV_UPDATE_TIME_def)
  have len: "length (list_reply (\<lambda>k. 5) [7, 8] ?t) < 0xFFFF" by (simp add: list_reply_ids f reply_lengths)
  define st where "st = Commander_init client_addr
    (tracker_answers (\<lambda>k. 0) (\<lambda>n k. 5) (\<lambda>n. [7, 8]) client_addr 0 (''LIST'' # map GET_query [7, 8]) ?t)"
  have st: "known TRACKER_CLUSTER_ID st"
    "reads st = tracker_answers (\<lambda>k. 0) (\<lambda>n k. 5) (\<lambda>n. [7, 8]) client_addr 0 (''LIST'' # map GET_query [7, 8]) ?t @ []"
    "tracker_addr_of st = client_addr"
    by (simp_all add: st_def Commander_init_def client_addr_def)
  have seen: "seen_addr 0x0100007F client_addr example_addr = client_addr\<lparr>sin_port := 9000\<rparr>"
      "seen_addr 0x0100007F client_addr client_addr = client_addr"
    by (simp_all add: seen_addr_def example_addr_def client_addr_def)
  have "lately (\<lambda>n k. 5) ?t n i" if "i = 7 \<or> i = 8" for n i using that by (auto simp: lately_def cl ENV_UPDATE_TIME_def)
  then have "listing (seen_addr 0x0100007F (tracker_addr_of st)) (\<lambda>n k. 5) ?t 1 [7, 8] =
      command_text 0 (GET_query 7) @ cluster_line 7 (client_addr\<lparr>sin_port := 9000\<rparr>) @
      command_text 0 (GET_query 8) @ cluster_line 8 client_addr"
    unfolding st(3) by (simp add: listing_def cl seen TRACKER_CLUSTER_ID_def)
  then show ?thesis
    using client_list_shows_registry [where t = ?t and kss = "\<lambda>n. [7, 8]" and clk = "\<lambda>n k. 5" and ids = "[7, 8]" and lip = "0x0100007F"
        and rs = "[]" and j = "\<lparr>old_cid = 0, old_ip = 0, old_port = 0\<rparr>", OF wf len _ st(1,2)] f
    by (auto simp: TRACKER_CLUSTER_ID_def numeral_2_eq_2)
qed

end
