(* ===== verification/Deploy.thy ===== *)
theory Deploy
  imports Client_Create Server
begin

text \<open>
  The client and the servers together: what becomes of the clusters when the commands the client
  sends while it builds a network (\<open>Commander::createNetwork\<close>) reach the servers they are sent
  to, each in a process of its own (\<open>Server::parseCommand\<close>).
\<close>

section \<open>A server that gets a sequence of commands\<close>

fun host_run :: "'c icluster \<Rightarrow> ClusterID \<Rightarrow> ClusterID list \<Rightarrow> string list \<Rightarrow> 'c server \<Rightarrow> network \<Rightarrow>
    (string list \<times> 'c server \<times> network) option" where
  "host_run C junk ks [] s n = Some ([], s, n)"
| "host_run C junk ks (m # ms) s n =
    (case parseCommand C junk ks [cluster_id s] m s n of
       Inl e \<Rightarrow> None
     | Inr (reply, s1, n1, reqs) \<Rightarrow>
         (case host_run C junk ks ms s1 n1 of
            None \<Rightarrow> None
          | Some (rs, s2, n2) \<Rightarrow> Some (reply # rs, s2, n2)))"

text \<open>The commands among the datagrams that go to an address.\<close>

definition messages_to :: "sockaddr \<Rightarrow> (sockaddr \<times> string) list \<Rightarrow> string list" where
  "messages_to a ms = map (c_string \<circ> snd) (filter (\<lambda>m. fst m = a) ms)"

lemma parse_CONNECT_label:
  "parseCommand C junk ks ids (''CONNECT '' @ show_word i @ '' '' @ rest) s n =
     (case subscribe ids (cluster_id s) i n of (n', reqs) \<Rightarrow> Inr (''ACK'', s, n', reqs))"
proof -
  let ?r = "'' '' @ rest"
  have "get_word [] (istringstream (''CONNECT'' @ '' '' @ show_word i @ ?r)) =
      (''CONNECT'', \<lparr>inp = '' '' @ show_word i @ ?r, eofbit = False, failbit = False\<rparr>)"
    using word_field.get_put [of "''CONNECT''" "'' '' @ show_word i @ ?r"]
    by (simp add: istringstream_def plain_word_def is_space_def less_eq_char_def)
  moreover have "fst (get_unsigned junk \<lparr>inp = '' '' @ show_word i @ ?r, eofbit = False, failbit = False\<rparr>) = i"
    using unsigned_field.get_space1 [where v = i and r = ?r and old = junk] by simp
  ultimately show ?thesis by (simp add: parseCommand_def Let_def)
qed

text \<open>\<open>ADD\<close> is a command for the cluster.\<close>

lemma parse_ADD:
  "parseCommand C junk ks ids (''ADD '' @ rest) s n =
     (case Server.command C (''ADD '' @ rest) (cluster s) of (reply, c) \<Rightarrow> Inr (reply, s\<lparr>cluster := c\<rparr>, n, []))"
proof -
  have "fst (get_word [] (istringstream (''ADD'' @ '' '' @ rest))) = ''ADD''"
    using word_field.get_put [of "''ADD''" "'' '' @ rest"]
    by (simp add: istringstream_def plain_word_def is_space_def less_eq_char_def)
  then show ?thesis
    by (cases "get_word [] (istringstream (''ADD'' @ '' '' @ rest))") (simp add: parseCommand_def Let_def)
qed

lemma host_run_connects:
  "\<exists>n'. host_run C junk ks (map edge_command es) s n = Some (replicate (length es) ''ACK'', s, n') \<and>
     set (subs_of n' (cluster_id s)) = set (subs_of n (cluster_id s)) \<union> edge_to ` set es"
proof (induction es arbitrary: n)
  case Nil
  then show ?case by simp
next
  case (Cons e es)
  obtain n1 reqs where s: "subscribe [cluster_id s] (cluster_id s) (edge_to e) n = (n1, reqs)" by fastforce
  then have p: "parseCommand C junk ks [cluster_id s] (edge_command e) s n = Inr (''ACK'', s, n1, reqs)"
    unfolding edge_command_def parse_CONNECT_label by simp
  have "set (subs_of n1 (cluster_id s)) = insert (edge_to e) (set (subs_of n (cluster_id s)))"
    using subscribe_subs [of "[cluster_id s]" "cluster_id s" "edge_to e" n] by (auto simp: s)
  with Cons.IH [of n1] show ?case by (auto simp: p)
qed

lemma host_run_new_id:
  assumes "s1 = (if cluster_id s \<noteq> i then
      s\<lparr>cluster_id := i, mCastGrp := (mCastGrp s)\<lparr>s_addr := ucast (idToMulticast i)\<rparr>\<rparr> else s)"
    and "Server.command C (''ADD '' @ arg) (cluster s1) = (''ACK'', c)"
    and "host_run C junk ks ms (s1\<lparr>cluster := c\<rparr>) n = Some (rs, s2, n2)"
  shows "host_run C junk ks ([''RUN '' @ show_word i, ''ADD '' @ arg] @ ms) s n = Some (''ACK'' # ''ACK'' # rs, s2, n2)"
proof -
  have "parseCommand C junk ks [cluster_id s] (''RUN '' @ show_word i) s n = Inr (''ACK'', s1, n, [])"
    by (simp only: parse_RUN assms(1))
  moreover have "parseCommand C junk ks [cluster_id s1] (''ADD '' @ arg) s1 n = Inr (''ACK'', s1\<lparr>cluster := c\<rparr>, n, [])"
    by (simp only: parse_ADD assms(2) prod.case)
  ultimately show ?thesis using assms(3) by simp
qed

section \<open>Who gets what\<close>

lemma messages_to_simps [simp]:
  "messages_to a [] = []"
  "messages_to a (m # ms) = (if fst m = a then c_string (snd m) # messages_to a ms else messages_to a ms)"
  "messages_to a (ms @ ms') = messages_to a ms @ messages_to a ms'"
  by (simp_all add: messages_to_def)

lemma messages_to_map:
  "\<forall>x \<in> set xs. NUL \<notin> set (msg x) \<Longrightarrow>
     messages_to a (map (\<lambda>x. (dst x, msg x @ [NUL])) xs) = map msg (filter (\<lambda>x. dst x = a) xs)"
  by (induction xs) (simp_all add: c_string_message)

lemma messages_to_other: "\<forall>m \<in> set ms. fst m \<noteq> a \<Longrightarrow> messages_to a ms = []"
  by (induction ms) simp_all

lemma messages_to_pairs:
  "\<forall>x \<in> set xs. NUL \<notin> set (msg x) \<and> fst (other x) \<noteq> a \<Longrightarrow>
     messages_to a (concat (map (\<lambda>x. [other x, (dst x, msg x @ [NUL])]) xs)) = map msg (filter (\<lambda>x. dst x = a) xs)"
  by (induction xs) (simp_all add: c_string_message)

lemma filter_unique: "distinct (map f xs) \<Longrightarrow> k < length xs \<Longrightarrow> filter (\<lambda>x. f x = f (xs ! k)) xs = [xs ! k]"
proof (induction xs arbitrary: k)
  case (Cons x xs)
  show ?case
  proof (cases k)
    case 0
    then show ?thesis using Cons.prems by (auto simp: filter_empty_conv image_iff)
  next
    case (Suc l)
    then have "f x \<noteq> f (xs ! l)" using Cons.prems by auto
    then show ?thesis using Cons Suc by simp
  qed
qed simp

section \<open>The commands of one host\<close>

lemma show_int_no_NUL: "NUL \<notin> set (show_int i)"
  using show_int_chars by blast

text \<open>
  The \<open>k\<close>th cluster the client found runs at address \<open>a\<close>; no other one does, nor does the tracker,
  and the tracker's answers agree with this.
\<close>

lemma messages_of_host:
  assumes k: "k < length ns" "length ids = length ns" and a: "a = old (ids ! k)" "tracker_addr_of st \<noteq> a"
    and old: "distinct (map old ids)" and new: "\<forall>j < length ns. new (node_id (ns ! j)) = old (ids ! j)"
    and g: "graph_ok ns edges"
  shows "messages_to a (create_messages st r ids old new ns edges) =
    [''RUN '' @ show_word (node_id (ns ! k)), ''ADD '' @ show_int (node_label (ns ! k))] @
    map edge_command (filter (\<lambda>e. edge_from e = node_id (ns ! k)) (weighted edges))"
proof -
  let ?n = "ns ! k"
  have nm: "map (new \<circ> node_id) ns = map old ids" using k(2) new by (intro nth_equalityI) simp_all
  have 1: "messages_to a (replicate (Suc r) (list_sent st)) = []" "messages_to a (map (get_sent st) ids) = []"
    using a(2) by (auto intro!: messages_to_other simp: list_sent_def get_sent_def)
  have "distinct (map (old \<circ> fst) (zip ids ns))" using old k(2) by (simp add: map_map [symmetric])
  from filter_unique [OF this, of k]
  have "messages_to a (map (\<lambda>x. (old (fst x), (''RUN '' @ show_word (node_id (snd x))) @ [NUL])) (zip ids ns)) =
      [''RUN '' @ show_word (node_id ?n)]"
    using k a(1) by (subst messages_to_map) simp_all
  then have 2: "messages_to a (map2 (\<lambda>i n. (old i, ''RUN '' @ show_word (node_id n) @ [NUL])) ids ns) =
      [''RUN '' @ show_word (node_id ?n)]"
    by (simp add: case_prod_unfold)
  have "distinct (map (new \<circ> node_id) ns)" using old nm by simp
  from filter_unique [OF this k(1)]
  have f: "filter (\<lambda>n. new (node_id n) = a) ns = [?n]" using new k(1) a(1) by simp
  have "messages_to a (concat (map (\<lambda>n. [get_sent st (node_id n),
      (new (node_id n), (''ADD '' @ show_int (node_label n)) @ [NUL])]) ns)) =
    map (\<lambda>n. ''ADD '' @ show_int (node_label n)) (filter (\<lambda>n. new (node_id n) = a) ns)"
    using a(2) by (intro messages_to_pairs) (simp add: get_sent_def show_int_no_NUL)
  then have 3: "messages_to a (concat (map (add_sent st new) ns)) = [''ADD '' @ show_int (node_label ?n)]"
    by (simp add: add_sent_def [abs_def] f)
  have "edge_from e = node_id ?n \<longleftrightarrow> new (edge_from e) = a" if "e \<in> set (weighted edges)" for e
  proof -
    have "edge_from e \<in> node_id ` set ns" using g that unfolding graph_ok_def by blast
    then obtain m where "m \<in> set ns" "edge_from e = node_id m" by auto
    moreover have "inj_on (new \<circ> node_id) (set ns)" using old nm by (metis distinct_map)
    ultimately have "new (edge_from e) = new (node_id ?n) \<Longrightarrow> m = ?n"
      using nth_mem [OF k(1)] by (metis comp_apply inj_onD)
    then show ?thesis using k(1) new a(1) \<open>edge_from e = node_id m\<close> by auto
  qed
  then have "filter (\<lambda>e. new (edge_from e) = a) (weighted edges) = filter (\<lambda>e. edge_from e = node_id ?n) (weighted edges)"
    by (intro filter_cong) auto
  moreover have "messages_to a (map (\<lambda>e. (new (edge_from e), edge_command e @ [NUL])) (weighted edges)) =
      map edge_command (filter (\<lambda>e. new (edge_from e) = a) (weighted edges))"
    by (intro messages_to_map) (simp add: edge_command_def show_int_no_NUL)
  ultimately have 4: "messages_to a (map (connect_sent new) (weighted edges)) =
      map edge_command (filter (\<lambda>e. edge_from e = node_id ?n) (weighted edges))"
    by (simp add: connect_sent_def [abs_def])
  show ?thesis unfolding create_messages_def messages_to_simps 1 2 3 4 by simp
qed

section \<open>Properties\<close>

text \<open>C4. From a graph file to subscriptions.  The client builds the network, the clusters acknowledge
  and the tracker answers; then the cluster that was found \<open>k\<close>th, wherever it runs, carries out the
  commands it was sent, answers each with \<open>ACK\<close>, ends up with the id of the \<open>k\<close>th node of the file
  and the multicast group of that id, and is subscribed to exactly the second nodes of the edges
  of positive weight whose first node it is.
\<close>

theorem graph_becomes_subscriptions:
  assumes "addrs st = [TRACKER_CLUSTER_ID \<mapsto> t]" and "sin_port t \<noteq> 0"
    and "Parse file ([], []) = Some (True, ns, edges)" and "graph_ok ns edges"
    and "\<forall>is \<in> set early. list_ok is \<and> length is \<le> length ns"
    and "list_ok all" and "length all = Suc (length ns)" and "ids = remove1 TIME_SERVER_ID all"
    and "\<forall>i. usable lip (old i) \<and> usable lip (new i)"
    and "replies st = create_replies early all old new ns edges"
    and "distinct (map old ids)" and "t \<notin> old ` set ids"
    and "\<forall>j < length ns. new (node_id (ns ! j)) = old (ids ! j)"
    and "k < length ns" and "server_wf s" and "\<forall>arg c. fst (Server.command C (''ADD '' @ arg) c) = ''ACK''"
  shows "\<exists>st' msgs rs s' n'. createNetwork lip j file st = Some (0, st') \<and> sent st' = sent st @ msgs \<and>
    host_run C junk ks (messages_to (old (ids ! k)) msgs) s Network_init = Some (rs, s', n') \<and>
    set rs = {''ACK''} \<and> cluster_id s' = node_id (ns ! k) \<and> mCastGrp s' = group_of (node_id (ns ! k)) \<and>
    set (subs_of n' (cluster_id s')) = {edge_to e |e. e \<in> set edges \<and> edge_label e > 0 \<and> edge_from e = node_id (ns ! k)}"
proof -
  let ?i = "node_id (ns ! k)" and ?es = "filter (\<lambda>e. edge_from e = node_id (ns ! k)) (weighted edges)"
  obtain st' where c: "createNetwork lip j file st = Some (0, st')"
      "sent st' = sent st @ create_messages st (length early) ids old new ns edges"
    using createNetwork_run [OF assms(1-7,9), of "[]" j] assms(8,10) by auto
  have ids: "length ids = length ns" using assms(6-8) by (simp add: list_ok_def length_remove1)
  then have "tracker_addr_of st \<noteq> old (ids ! k)" using assms(1,12,14) by (auto simp: image_iff)
  then have m: "messages_to (old (ids ! k)) (create_messages st (length early) ids old new ns edges) =
      [''RUN '' @ show_word ?i, ''ADD '' @ show_int (node_label (ns ! k))] @ map edge_command ?es"
    by (rule messages_of_host [OF assms(14) ids refl _ assms(11,13,4)])
  define s1 where "s1 = (if cluster_id s \<noteq> ?i then
      s\<lparr>cluster_id := ?i, mCastGrp := (mCastGrp s)\<lparr>s_addr := ucast (idToMulticast ?i)\<rparr>\<rparr> else s)"
  obtain c' where a: "Server.command C (''ADD '' @ show_int (node_label (ns ! k))) (cluster s1) = (''ACK'', c')"
    using assms(16) by (metis prod.collapse)
  let ?s2 = "s1\<lparr>cluster := c'\<rparr>"
  have id: "cluster_id ?s2 = ?i" "mCastGrp ?s2 = group_of ?i"
    using assms(15) by (auto simp: server_wf_def group_of_def s1_def)
  obtain n' where n': "host_run C junk ks (map edge_command ?es) ?s2 Network_init =
      Some (replicate (length ?es) ''ACK'', ?s2, n')" "set (subs_of n' ?i) = edge_to ` set ?es"
    using host_run_connects [of C junk ks ?es ?s2 Network_init] id(1) by (auto simp: Network_init_def)
  have h: "host_run C junk ks (messages_to (old (ids ! k)) (create_messages st (length early) ids old new ns edges)) s Network_init =
      Some (''ACK'' # ''ACK'' # replicate (length ?es) ''ACK'', ?s2, n')"
    unfolding m by (rule host_run_new_id [OF s1_def a n'(1)])
  show ?thesis
    by (intro exI conjI, rule c(1), rule c(2), rule h) (use id n'(2) in auto)
qed

text \<open>A cluster that acknowledges whatever it is told.\<close>

definition ack_cluster :: "unit icluster" where
  "ack_cluster = test_cluster\<lparr>command := (\<lambda>cmd c. (''ACK'', c))\<rparr>"

theorem graph_becomes_subscriptions_witness:
  "\<exists>st' rs s' n'. createNetwork 0 \<lparr>old_cid = 0, old_ip = 0, old_port = 0\<rparr> (Some tiny_graph) tiny_client = Some (0, st') \<and>
     host_run ack_cluster 0 [] (messages_to host_1 (sent st')) test_server Network_init = Some (rs, s', n') \<and>
     cluster_id s' = 1 \<and> set (subs_of n' 1) = {2}"
proof -
  have ids: "[7, 8] = remove1 TIME_SERVER_ID [7, TIME_SERVER_ID, 8]" by (simp add: tiny_client(11))
  have h: "distinct (map tiny_old [7, 8])" "host_0 \<notin> tiny_old ` set [7, 8]"
      "\<forall>j < length tiny_nodes. tiny_new (node_id (tiny_nodes ! j)) = tiny_old ([7, 8] ! j)" "0 < length tiny_nodes"
    by (simp_all add: tiny_old_def tiny_new_def tiny_nodes_def host_0_def host_1_def host_2_def less_Suc_eq)
  have c: "\<forall>arg c. fst (Server.command ack_cluster (''ADD '' @ arg) c) = ''ACK''" by (simp add: ack_cluster_def)
  have n: "node_id (tiny_nodes ! 0) = 1" "tiny_old ([7, 8] ! 0) = host_1" by (simp_all add: tiny_nodes_def tiny_old_def)
  have e: "{edge_to e |e. e \<in> set tiny_edges \<and> edge_label e > 0 \<and> edge_from e = 1} = {2}"
    by (auto simp: tiny_edges_def)
  show ?thesis
    using graph_becomes_subscriptions [OF tiny_client(1-7) ids tiny_client(8,9) h test_server_wf c,
        of "\<lparr>old_cid = 0, old_ip = 0, old_port = 0\<rparr>" 0 "[]"]
    unfolding n e tiny_client(10) append_Nil by (metis n(1))
qed

end
