(* ===== verification/Server_Run.thy ===== *)
theory Server_Run
  imports Server "HOL-Library.Sublist"
begin

text \<open>
  The loop of \<open>Server::run\<close>: announce the id to the tracker, then \<open>UPDATE_PERIOD\<close> times one command
  and \<open>commandPeriod\<close> polls of the cluster, then adapt \<open>commandPeriod\<close> so that a round takes about a
  minute.  A run is as many rounds as there are descriptions of what happens in them.

  What a thread does not decide itself is in these descriptions: the command that arrives, what
  the other threads did to the shared network, and the buffers the dispatch loop puts into
  \<open>inQ\<close> before each poll.
\<close>

section \<open>The loop\<close>

definition UPDATE_PERIOD :: nat where
  "UPDATE_PERIOD = 60000 div 500"

datatype run_end =
    NotLoaded
  | Stopped stopped
  | Threw string

record 'c running =
  rs_server :: "'c server"
  rs_net :: network
  rs_texts :: "(sockaddr \<times> string) list"
  rs_packets :: "packet list"
  rs_groups :: "group_request list"

type_synonym poll = "timebuffer list \<times> (nat \<Rightarrow> nat \<Rightarrow> int \<times> u16 list \<times> u16 list)"

record turn =
  turn_junk :: ClusterID
  turn_order :: "ClusterID list"
  turn_servers :: "ClusterID list"
  turn_select :: "char select_call"
  turn_from :: sockaddr
  turn_others :: "network \<Rightarrow> network"
  turn_polls :: "nat \<Rightarrow> poll"

definition arrive :: "timebuffer list \<Rightarrow> 'c server \<Rightarrow> 'c server" where
  "arrive bs s = s\<lparr>inQ := fold BlockingQueue_push bs (inQ s)\<rparr>"

fun io_loop :: "'c icluster \<Rightarrow> (nat \<Rightarrow> poll) \<Rightarrow> nat \<Rightarrow> 'c running \<Rightarrow> (run_end + 'c running) option" where
  "io_loop C io 0 x = Some (Inr x)"
| "io_loop C io (Suc j) x =
    (case io j of
       (arrived, envs) \<Rightarrow>
         (case performIO C envs (arrive arrived (rs_server x)) of
            None \<Rightarrow> None
          | Some (Inl e) \<Rightarrow> Some (Inl (Threw e))
          | Some (Inr (s, out)) \<Rightarrow> io_loop C io j (x\<lparr>rs_server := s, rs_packets := rs_packets x @ out\<rparr>)))"

definition command_turn :: "'c icluster \<Rightarrow> turn \<Rightarrow> 'c running \<Rightarrow> run_end + 'c running" where
  "command_turn C t x =
    (case processCommands C (turn_junk t) (turn_order t) (turn_servers t) (turn_select t) (turn_from t)
        (rs_server x) (turn_others t (rs_net x)) of
       Inl e \<Rightarrow> Inl (Stopped e)
     | Inr (s, n, reqs, out) \<Rightarrow>
         Inr (x\<lparr>rs_server := s, rs_net := n, rs_texts := rs_texts x @ out, rs_groups := rs_groups x @ reqs\<rparr>))"

fun update_loop :: "'c icluster \<Rightarrow> (nat \<Rightarrow> turn) \<Rightarrow> nat \<Rightarrow> nat \<Rightarrow> 'c running \<Rightarrow> (run_end + 'c running) option" where
  "update_loop C turns commandPeriod 0 x = Some (Inr x)"
| "update_loop C turns commandPeriod (Suc i) x =
    (case command_turn C (turns i) x of
       Inl e \<Rightarrow> Some (Inl e)
     | Inr x1 \<Rightarrow>
         (case io_loop C (turn_polls (turns i)) commandPeriod x1 of
            None \<Rightarrow> None
          | Some (Inl e) \<Rightarrow> Some (Inl e)
          | Some (Inr x2) \<Rightarrow> update_loop C turns commandPeriod i x2))"

text \<open>
  The new period: \<open>matched\<close> is the value the floating-point expression
  \<open>(commandPeriod + ratio * commandPeriod) / 2\<close> is converted to.
\<close>

definition next_period :: "int \<Rightarrow> nat" where
  "next_period matched = (if matched > 0 then nat matched else 1)"

definition run_round :: "'c icluster \<Rightarrow> (nat \<Rightarrow> turn) \<times> int \<Rightarrow> nat \<times> 'c running \<Rightarrow> (run_end + nat \<times> 'c running) option" where
  "run_round C = (\<lambda>(turns, matched) (commandPeriod, x).
    let x0 = x\<lparr>rs_texts := rs_texts x @ requestIdFromTracker (rs_server x)\<rparr>
    in case update_loop C turns commandPeriod UPDATE_PERIOD x0 of
         None \<Rightarrow> None
       | Some (Inl e) \<Rightarrow> Some (Inl e)
       | Some (Inr x1) \<Rightarrow> Some (Inr (next_period matched, x1)))"

fun run_rounds :: "'c icluster \<Rightarrow> ((nat \<Rightarrow> turn) \<times> int) list \<Rightarrow> nat \<times> 'c running \<Rightarrow> (run_end + nat \<times> 'c running) option" where
  "run_rounds C [] x = Some (Inr x)"
| "run_rounds C (r # rs) x =
    (case run_round C r x of
       None \<Rightarrow> None
     | Some (Inl e) \<Rightarrow> Some (Inl e)
     | Some (Inr x1) \<Rightarrow> run_rounds C rs x1)"

text \<open>\<open>run\<close>; a server whose plug-in was not loaded is \<open>None\<close>.\<close>

definition Server_run :: "'c icluster \<Rightarrow> ((nat \<Rightarrow> turn) \<times> int) list \<Rightarrow> IP \<Rightarrow> u16 \<Rightarrow> ClusterID \<Rightarrow>
    'c server option \<Rightarrow> network \<Rightarrow> (run_end + nat \<times> 'c running) option" where
  "Server_run C rounds ip port i made n =
    (case made of
       None \<Rightarrow> Some (Inl NotLoaded)
     | Some s \<Rightarrow> run_rounds C rounds
         (100, \<lparr>rs_server = Server_run_setup ip port i s, rs_net = n, rs_texts = [], rs_packets = [], rs_groups = []\<rparr>))"

section \<open>What every run keeps\<close>

text \<open>A packet that goes to the group of the id it carries, and is not empty.\<close>

definition self_ok :: "packet \<Rightarrow> bool" where
  "self_ok p \<longleftrightarrow> fst p = group_of (srcId (snd p)) \<and> 0 < tb_sizeData (snd p) \<and> tb_sizeData (snd p) \<le> MAX_OUTPUT_NODES"

definition run_ok :: "(sockaddr \<times> string) list \<Rightarrow> 'c running \<Rightarrow> bool" where
  "run_ok ts x \<longleftrightarrow> server_wf (rs_server x) \<and> list_all self_ok (rs_packets x) \<and> prefix ts (rs_texts x)"

definition polls_ok :: "(nat \<Rightarrow> poll) \<Rightarrow> bool" where
  "polls_ok io \<longleftrightarrow> (\<forall>j k. fresh_ok (snd (io j) k))"

definition turns_ok :: "(nat \<Rightarrow> turn) \<Rightarrow> bool" where
  "turns_ok turns \<longleftrightarrow> (\<forall>i. polls_ok (turn_polls (turns i)))"

text \<open>
  An outcome: a call that does not return is a cluster that waits for input, the thread ends only
  by a command, and otherwise \<open>P\<close> holds.
\<close>

definition outcome :: "'c icluster \<Rightarrow> ('x \<Rightarrow> bool) \<Rightarrow> (run_end + 'x) option \<Rightarrow> bool" where
  "outcome C P r \<longleftrightarrow> (case r of None \<Rightarrow> \<exists>c. waits C c
     | Some (Inl e) \<Rightarrow> \<exists>st. e = Stopped st
     | Some (Inr x) \<Rightarrow> P x)"

lemma outcome_simps [simp]:
  "outcome C P None \<longleftrightarrow> (\<exists>c. waits C c)"
  "outcome C P (Some (Inl e)) \<longleftrightarrow> (\<exists>st. e = Stopped st)"
  "outcome C P (Some (Inr x)) \<longleftrightarrow> P x"
  by (simp_all add: outcome_def)

lemma packet_self_ok: "packet_ok i p \<Longrightarrow> self_ok p"
  by (cases p) (simp add: packet_ok_def self_ok_def tb_wf_def tb_sizeData_def)

lemma packets_self_ok: "list_all (packet_ok i) ps \<Longrightarrow> list_all self_ok ps"
  by (auto simp: list_all_iff intro: packet_self_ok)

lemma arrive_wf: "server_wf s \<Longrightarrow> server_wf (arrive bs s)"
  unfolding arrive_def by (rule take_input_wf)

lemma performIO_outcome:
  assumes "server_wf s" "\<forall>k. fresh_ok (envs k)"
  shows "performIO C envs s = None \<and> (\<exists>c. waits C c) \<or>
    (\<exists>s' out. performIO C envs s = Some (Inr (s', out)) \<and> server_wf s' \<and> list_all self_ok out)"
proof (cases "performIO C envs s")
  case None
  have "performInput C s = None"
  proof (rule ccontr)
    assume "performInput C s \<noteq> None"
    then obtain s1 where s1: "performInput C s = Some s1" by blast
    then have wf: "server_wf s1" using performInput_wf assms(1) by blast
    let ?ws = "map (\<lambda>(k, i, t). (envs k, i, t)) (enumerate 0 (fst (polled C (cluster s1))))"
    have "list_all (\<lambda>(env, i, t). fresh_ok env) ?ws" using assms(2) by (auto simp: list_all_iff)
    from Server_writes_wf [OF take_input_wf(3) [OF wf] this, of "snd (polled C (cluster s1))" "[]"]
    show False using None by (auto simp: performIO_eq s1 split: if_splits)
  qed
  then show ?thesis using None by (auto simp: performInput_def split: if_splits)
next
  case (Some r)
  from performIO_wf [OF assms this] show ?thesis
    using Some packets_self_ok by blast
qed

lemma io_loop_ok:
  "run_ok ts x \<Longrightarrow> polls_ok io \<Longrightarrow> outcome C (run_ok ts) (io_loop C io n x)"
proof (induction n arbitrary: x)
  case 0
  then show ?case by simp
next
  case (Suc j)
  obtain arrived envs where io: "io j = (arrived, envs)" by fastforce
  have wf: "server_wf (arrive arrived (rs_server x))" using Suc.prems(1) by (simp add: run_ok_def arrive_wf)
  have "fresh_ok (snd (io j) k)" for k using Suc.prems(2) by (simp add: polls_ok_def)
  then have "\<forall>k. fresh_ok (envs k)" by (simp add: io)
  from performIO_outcome [OF wf this, of C] show ?case
  proof (elim disjE exE conjE)
    fix s' out
    assume p: "performIO C envs (arrive arrived (rs_server x)) = Some (Inr (s', out))" "server_wf s'" "list_all self_ok out"
    then have "run_ok ts (x\<lparr>rs_server := s', rs_packets := rs_packets x @ out\<rparr>)"
      using Suc.prems(1) by (simp add: run_ok_def)
    from Suc.IH [OF this Suc.prems(2)] show ?thesis by (simp add: io p(1))
  qed (auto simp: io)
qed

lemma command_turn_ok:
  "run_ok ts x \<Longrightarrow> outcome C (run_ok ts) (Some (command_turn C t x))"
  using processCommands_wf [of "rs_server x" C "turn_junk t" "turn_order t" "turn_servers t" "turn_select t" "turn_from t"]
  by (auto simp: command_turn_def run_ok_def split: sum.splits)

lemma update_loop_ok:
  "run_ok ts x \<Longrightarrow> turns_ok turns \<Longrightarrow> outcome C (run_ok ts) (update_loop C turns p n x)"
proof (induction n arbitrary: x)
  case 0
  then show ?case by simp
next
  case (Suc i)
  show ?case
  proof (cases "command_turn C (turns i) x")
    case (Inl e)
    then show ?thesis using command_turn_ok [OF Suc.prems(1), of C "turns i"] by simp
  next
    case (Inr x1)
    then have x1: "run_ok ts x1" using command_turn_ok [OF Suc.prems(1), of C "turns i"] by simp
    have "polls_ok (turn_polls (turns i))" using Suc.prems(2) by (simp add: turns_ok_def)
    then have "outcome C (run_ok ts) (io_loop C (turn_polls (turns i)) p x1)" by (rule io_loop_ok [OF x1])
    then show ?thesis using Suc.IH [OF _ Suc.prems(2)] by (auto simp: Inr split: option.splits sum.splits)
  qed
qed

definition round_ok :: "(sockaddr \<times> string) list \<Rightarrow> nat \<times> 'c running \<Rightarrow> bool" where
  "round_ok ts px \<longleftrightarrow> 0 < fst px \<and> run_ok ts (snd px)"

lemma run_round_ok:
  assumes "run_ok ts x" "turns_ok turns" "prefix us (rs_texts x @ requestIdFromTracker (rs_server x))"
  shows "outcome C (round_ok us) (run_round C (turns, matched) (p, x))"
proof -
  let ?x = "x\<lparr>rs_texts := rs_texts x @ requestIdFromTracker (rs_server x)\<rparr>"
  have "run_ok us ?x" using assms(1,3) by (simp add: run_ok_def)
  from update_loop_ok [OF this assms(2), of C p UPDATE_PERIOD] show ?thesis
    by (auto simp: run_round_def round_ok_def next_period_def Let_def split: option.splits sum.splits)
qed

lemma run_rounds_ok:
  "round_ok ts px \<Longrightarrow> list_all (\<lambda>r. turns_ok (fst r)) rs \<Longrightarrow> outcome C (round_ok ts) (run_rounds C rs px)"
proof (induction rs arbitrary: px)
  case Nil
  then show ?case by simp
next
  case (Cons r rs)
  obtain p x where px: "px = (p, x)" by fastforce
  have x: "run_ok ts x" using Cons.prems(1) by (simp add: round_ok_def px)
  then have "prefix ts (rs_texts x @ requestIdFromTracker (rs_server x))" by (simp add: run_ok_def)
  then have "outcome C (round_ok ts) (run_round C r px)"
    using run_round_ok [OF x, of "fst r" ts C "snd r" p] Cons.prems(2) by (simp add: px)
  then show ?case using Cons.IH Cons.prems(2) by (auto split: option.splits sum.splits)
qed

section \<open>Properties\<close>

text \<open>C18. A server's thread, over any number of rounds and whatever commands, buffers and memory it gets:
  it first announces its id to the tracker; every packet it sends goes to the group of the id it
  carries and holds at least one impulse; the number of polls between commands stays positive; it
  ends only by \<open>EXIT\<close> or an undefined command, never by an exception; and it hangs only if its
  cluster waits for input.
\<close>

theorem Server_run_outcome:
  assumes "length ix = MAX_OUTPUT_NODES" "length dx = MAX_OUTPUT_NODES" "length slots = MAX_MSG_Q_SIZE"
    and "length b = SERVER_BUFF" and "\<forall>r \<in> set (first # rounds). turns_ok (fst r)"
  shows "case Server_run C (first # rounds) ip port i (Some (Server_init c ix dx slots trk grp b)) n of
      None \<Rightarrow> \<exists>c. waits C c
    | Some (Inl e) \<Rightarrow> \<exists>st. e = Stopped st
    | Some (Inr (commandPeriod, x)) \<Rightarrow> 0 < commandPeriod \<and> server_wf (rs_server x) \<and>
        (\<forall>p \<in> set (rs_packets x). fst p = group_of (srcId (snd p)) \<and> 0 < tb_sizeData (snd p)) \<and>
        hd (rs_texts x) = (\<lparr>s_addr = ucast ip, sin_port = port\<rparr>, ''ID '' @ show_word i @ [NUL])"
proof -
  let ?s = "Server_run_setup ip port i (Server_init c ix dx slots trk grp b)"
  let ?x = "\<lparr>rs_server = ?s, rs_net = n, rs_texts = [], rs_packets = [], rs_groups = []\<rparr>"
  let ?id = "(\<lparr>s_addr = ucast ip, sin_port = port\<rparr>, ''ID '' @ show_word i @ [NUL])"
  have x: "run_ok [] ?x" using setup_wf [OF assms(1-4)] by (simp add: run_ok_def)
  have "requestIdFromTracker ?s = [?id]" by (simp add: requestIdFromTracker_def Server_run_setup_def)
  then have "outcome C (round_ok [?id]) (run_round C (fst first, snd first) (100, ?x))"
    using assms(5) by (intro run_round_ok [OF x]) simp_all
  moreover have "list_all (\<lambda>r. turns_ok (fst r)) rounds" using assms(5) by (simp add: list_all_iff)
  ultimately have "outcome C (round_ok [?id]) (run_rounds C (first # rounds) (100, ?x))"
    using run_rounds_ok [of "[?id]" _ rounds C] by (auto split: option.splits sum.splits)
  then show ?thesis
    unfolding Server_run_def outcome_def round_ok_def run_ok_def
    by (auto simp: list_all_iff self_ok_def prefix_def split: option.splits sum.splits prod.splits)
qed

definition quiet_turn :: turn where
  "quiet_turn = \<lparr>turn_junk = 0, turn_order = [], turn_servers = [], turn_select = SelectTimeout, turn_from = example_peer,
     turn_others = (\<lambda>n. n), turn_polls = (\<lambda>j. ([], \<lambda>k. test_env))\<rparr>"

theorem Server_run_outcome_witness:
  "case Server_run test_cluster [(\<lambda>i. quiet_turn, 50), (\<lambda>i. quiet_turn, 0)] 0x0100007F 0x2823 7
       (Some (Server_init () zeros zeros (replicate MAX_MSG_Q_SIZE sample_buffer) example_peer example_peer
         (replicate SERVER_BUFF NUL))) Network_init of
      None \<Rightarrow> False
    | Some (Inl e) \<Rightarrow> \<exists>st. e = Stopped st
    | Some (Inr (commandPeriod, x)) \<Rightarrow> 0 < commandPeriod \<and>
        hd (rs_texts x) = (\<lparr>s_addr = 0x0100007F, sin_port = 0x2823\<rparr>, ''ID '' @ show_word (7 :: ClusterID) @ [NUL])"
proof -
  have "turns_ok (\<lambda>i. quiet_turn)" by (simp add: turns_ok_def polls_ok_def quiet_turn_def test_env_ok)
  moreover have "waits test_cluster = (\<lambda>c. False)" by (simp add: test_cluster_def)
  ultimately show ?thesis
    using Server_run_outcome [where ix = zeros and dx = zeros and slots = "replicate MAX_MSG_Q_SIZE sample_buffer"
      and b = "replicate SERVER_BUFF NUL" and first = "(\<lambda>i. quiet_turn, 50)" and rounds = "[(\<lambda>i. quiet_turn, 0)]"
      and C = test_cluster and ip = "0x0100007F" and port = "0x2823" and i = 7 and c = "()" and trk = example_peer
      and grp = example_peer and n = Network_init]
    by (simp add: zeros_def split: option.splits sum.splits prod.splits)
qed

end
