(* ===== verification/Start_Up.thy ===== *)
theory Start_Up
  imports Server_Run Misc
begin

text \<open>
  The start of \<open>main\<close> in \<open>main.cpp\<close>: the address of the tracker, and the arguments
  \<open>library:N:C\<close>, each of which starts \<open>N\<close> servers for a plug-in with ids from \<open>C\<close> on.  The resolver's
  answer (\<open>None\<close> if it has none) and the plug-ins that can be loaded are arguments.
\<close>

section \<open>Loading a plug-in\<close>

text \<open>\<open>dlopen\<close> finds a library, \<open>dlsym\<close> a function in it that makes a cluster.\<close>

definition loadDll :: "(string \<Rightarrow> 'h option) \<Rightarrow> ('h \<Rightarrow> string \<Rightarrow> (unit \<Rightarrow> 'c option) option) \<Rightarrow> string \<Rightarrow> 'c option" where
  "loadDll dlopen dlsym dllName =
    (case dlopen dllName of
       None \<Rightarrow> None
     | Some handle \<Rightarrow>
         (case dlsym handle ''getCluster'' of
            None \<Rightarrow> None
          | Some getClass \<Rightarrow> getClass ()))"

section \<open>Arguments\<close>

text \<open>\<open>std::getline\<close> up to a delimiter: the token, if the stream is still true.\<close>

definition getline_to :: "char \<Rightarrow> istream \<Rightarrow> string option \<times> istream" where
  "getline_to d is =
    (if \<not> good is then (None, is\<lparr>failbit := True\<rparr>)
     else let token = takeWhile (\<lambda>c. c \<noteq> d) (inp is)
       in case dropWhile (\<lambda>c. c \<noteq> d) (inp is) of
            [] \<Rightarrow> if token = [] then (None, is\<lparr>inp := [], eofbit := True, failbit := True\<rparr>)
                  else (Some token, is\<lparr>inp := [], eofbit := True\<rparr>)
          | _ # r \<Rightarrow> (Some token, is\<lparr>inp := r\<rparr>))"

definition cluster_arg :: "string \<Rightarrow> string \<times> int \<times> int" where
  "cluster_arg arg =
    (let (t1, s1) = getline_to (CHR '':'') (istringstream arg);
         (t2, s2) = getline_to (CHR '':'') s1;
         (t3, s3) = getline_to (CHR '':'') s2
     in (case t1 of None \<Rightarrow> [] | Some token \<Rightarrow> token,
         case t2 of None \<Rightarrow> 1 | Some token \<Rightarrow> atoi token,
         case t3 of None \<Rightarrow> 0 | Some token \<Rightarrow> atoi token))"

text \<open>The ids of the servers one argument starts; 0 asks the tracker for one.\<close>

definition cluster_ids :: "int \<Rightarrow> int \<Rightarrow> ClusterID list" where
  "cluster_ids clusterCount startID =
    map (\<lambda>i. if startID > 0 then word_of_int (startID + int i) else 0) [0..<nat clusterCount]"

text \<open>The address and port of the tracker, from the first two arguments.\<close>

definition tracker_addr :: "(string \<Rightarrow> IP option) \<Rightarrow> string list \<Rightarrow> (IP \<times> u16) option" where
  "tracker_addr gethostbyname argv =
    (case gethostbyname (argv ! 1) of
       None \<Rightarrow> None
     | Some ip \<Rightarrow> Some (ip, htons (word_of_int (atoi (argv ! 2)))))"

text \<open>
  \<open>main\<close> up to its loop: the status it exits with, or the address and port of the tracker and the
  plug-in and id of every server, in the order of the vector \<open>servers\<close>.
\<close>

definition main_start :: "(string \<Rightarrow> IP option) \<Rightarrow> string list \<Rightarrow> int + IP \<times> u16 \<times> (string \<times> ClusterID) list" where
  "main_start gethostbyname argv =
    (if length argv < 4 then Inl 0
     else case tracker_addr gethostbyname argv of
       None \<Rightarrow> Inl 1
     | Some (ip, port) \<Rightarrow> Inr (ip, port,
         concat (map (\<lambda>arg. case cluster_arg arg of (dllName, clusterCount, startID) \<Rightarrow>
           map (Pair dllName) (cluster_ids clusterCount startID)) (drop 3 argv))))"

text \<open>The server for one of them, when \<open>new\<close> gives the object its constructor starts from.\<close>

definition start_server :: "(string \<Rightarrow> 'c option) \<Rightarrow> ('c \<Rightarrow> 'c server) \<Rightarrow> IP \<Rightarrow> u16 \<Rightarrow> string \<times> ClusterID \<Rightarrow> 'c server option" where
  "start_server load new ip port = (\<lambda>(dllName, i). map_option (\<lambda>c. Server_run_setup ip port i (new c)) (load dllName))"

section \<open>Reading an argument\<close>

lemma getline_token:
  "d \<notin> set token \<Longrightarrow> getline_to d \<lparr>inp = token @ d # r, eofbit = False, failbit = False\<rparr> =
     (Some token, \<lparr>inp = r, eofbit = False, failbit = False\<rparr>)"
  by (simp add: getline_to_def good_def takeWhile_append dropWhile_append)

lemma getline_last:
  "d \<notin> set token \<Longrightarrow> token \<noteq> [] \<Longrightarrow> getline_to d \<lparr>inp = token, eofbit = False, failbit = False\<rparr> =
     (Some token, \<lparr>inp = [], eofbit = True, failbit = False\<rparr>)"
proof -
  assume "d \<notin> set token" "token \<noteq> []"
  moreover from this have "takeWhile (\<lambda>c. c \<noteq> d) token = token" "dropWhile (\<lambda>c. c \<noteq> d) token = []"
    by (auto simp: takeWhile_eq_all_conv dropWhile_eq_Nil_conv)
  ultimately show ?thesis by (simp add: getline_to_def good_def Let_def del: takeWhile_eq_all_conv dropWhile_eq_Nil_conv)
qed

lemma getline_end: "eofbit is \<Longrightarrow> getline_to d is = (None, is\<lparr>failbit := True\<rparr>)"
  by (simp add: getline_to_def good_def)

lemma show_int_no_colon: "CHR '':'' \<notin> set (show_int i)"
  using show_nat_digits [of "CHR '':''"] by (auto simp: show_int_def is_digit_def less_eq_char_def)

lemma atoi_shown: "signed_range 32 i \<Longrightarrow> atoi (show_int i) = i"
  using atoi_show_int [of i "[]"] by (simp add: digits_end_def)

lemma cluster_ids_nth:
  "0 < c \<Longrightarrow> i < nat n \<Longrightarrow> cluster_ids n c ! i = word_of_int (c + int i)"
  by (simp add: cluster_ids_def)

lemma length_cluster_ids [simp]: "length (cluster_ids n c) = nat n"
  by (simp add: cluster_ids_def)

lemma cluster_ids_distinct:
  assumes "0 < c" "c + n \<le> 2 ^ 32"
  shows "distinct (cluster_ids n c)"
proof -
  have "inj_on (\<lambda>i. word_of_int (c + int i) :: ClusterID) {0..<nat n}"
  proof (rule inj_onI)
    fix i j assume i: "i \<in> {0..<nat n}" "j \<in> {0..<nat n}"
      and eq: "(word_of_int (c + int i) :: ClusterID) = word_of_int (c + int j)"
    have "uint (word_of_int (c + int k) :: ClusterID) = c + int k" if "k < nat n" for k
      using that assms by (simp only: uint_word_of_int_eq) (simp add: take_bit_int_eq_self)
    then show "i = j" using i eq by (metis atLeastLessThan_iff add_left_cancel of_nat_eq_iff)
  qed
  then show ?thesis using assms(1) by (simp add: cluster_ids_def distinct_map)
qed

lemma group_of_inj: "group_of i = group_of j \<Longrightarrow> i = j"
proof -
  assume "group_of i = group_of j"
  then have "(ucast (idToMulticast i) :: u32) = ucast (idToMulticast j)" by (simp add: group_of_def)
  then show ?thesis using group_host_order by (metis add_left_cancel)
qed

lemma start_server_simps:
  "load lib = Some c \<Longrightarrow> start_server load new ip port (lib, i) = Some (Server_run_setup ip port i (new c))"
  "cluster_id (Server_run_setup ip port i s) = i"
  "mCastGrp (Server_run_setup ip port i s) = group_of i"
  by (simp_all add: start_server_def Server_run_setup_def group_of_def)

lemma cluster_arg_library: "CHR '':'' \<notin> set lib \<Longrightarrow> lib \<noteq> [] \<Longrightarrow> cluster_arg lib = (lib, 1, 0)"
  by (simp add: cluster_arg_def istringstream_def getline_last getline_end)

lemma cluster_arg_count:
  "CHR '':'' \<notin> set lib \<Longrightarrow> signed_range 32 n \<Longrightarrow> cluster_arg (lib @ '':'' @ show_int n) = (lib, n, 0)"
  using getline_token [of "CHR '':''" lib "show_int n"] getline_last [OF show_int_no_colon, of n]
  by (simp add: cluster_arg_def istringstream_def getline_end atoi_shown)

lemma cluster_arg_id:
  "CHR '':'' \<notin> set lib \<Longrightarrow> signed_range 32 n \<Longrightarrow> signed_range 32 c \<Longrightarrow>
     cluster_arg (lib @ '':'' @ show_int n @ '':'' @ show_int c) = (lib, n, c)"
  using getline_token [of "CHR '':''" lib "show_int n @ '':'' @ show_int c"]
    getline_token [OF show_int_no_colon, of n "show_int c"] getline_last [OF show_int_no_colon, of c]
  by (simp add: cluster_arg_def istringstream_def atoi_shown)

section \<open>Properties\<close>

text \<open>The three forms of an argument: a library alone stands for one server, with a count for that
  many, and both have their ids assigned by the tracker; with a count and an id, these are read
  exactly as written.
\<close>

theorem cluster_arg_forms:
  assumes "CHR '':'' \<notin> set lib" and "lib \<noteq> []" and "signed_range 32 n" and "signed_range 32 c"
  shows "cluster_arg lib = (lib, 1, 0) \<and>
    cluster_arg (lib @ '':'' @ show_int n) = (lib, n, 0) \<and>
    cluster_arg (lib @ '':'' @ show_int n @ '':'' @ show_int c) = (lib, n, c)"
  using cluster_arg_library [OF assms(1,2)] cluster_arg_count [OF assms(1,3)] cluster_arg_id [OF assms(1,3,4)]
  by blast

theorem cluster_arg_forms_witness:
  "cluster_arg ''libx'' = (''libx'', 1, 0) \<and> cluster_arg (''libx'' @ '':'' @ show_int 4 @ '':'' @ show_int 20) = (''libx'', 4, 20)"
  using cluster_arg_forms [of "''libx''" 4 20] by (simp add: signed_range_def)

text \<open>An argument \<open>library:N:C\<close> with a positive id starts \<open>N\<close> servers with the ids \<open>C\<close>, \<open>C+1\<close> and so
  on, which send to different multicast groups.
\<close>

theorem servers_of_one_argument:
  assumes "CHR '':'' \<notin> set lib" and "lib \<noteq> []" and "0 \<le> n" and "0 < c" and "c + n < 2 ^ 31"
    and "gethostbyname host = Some ip" and "load lib = Some x"
  shows "\<exists>port jobs. main_start gethostbyname [prog, host, portarg, lib @ '':'' @ show_int n @ '':'' @ show_int c] = Inr (ip, port, jobs) \<and>
    length jobs = nat n \<and>
    (\<forall>k < nat n. \<exists>s. start_server load new ip port (jobs ! k) = Some s \<and>
      cluster_id s = word_of_int (c + int k) \<and> mCastGrp s = group_of (word_of_int (c + int k))) \<and>
    (\<forall>j < nat n. \<forall>k < nat n. j \<noteq> k \<longrightarrow>
      group_of (word_of_int (c + int j)) \<noteq> group_of (word_of_int (c + int k)))"
proof -
  let ?arg = "lib @ '':'' @ show_int n @ '':'' @ show_int c"
  let ?jobs = "map (Pair lib) (cluster_ids n c)" and ?port = "htons (word_of_int (atoi portarg))"
  have "signed_range 32 n" "signed_range 32 c" using assms(3-5) by (simp_all add: signed_range_def)
  then have arg: "cluster_arg ?arg = (lib, n, c)" by (rule cluster_arg_id [OF assms(1)])
  then have "main_start gethostbyname [prog, host, portarg, ?arg] = Inr (ip, ?port, ?jobs)"
    using assms(6) by (simp add: main_start_def tracker_addr_def)
  moreover have "\<exists>s. start_server load new ip ?port (?jobs ! k) = Some s \<and>
      cluster_id s = word_of_int (c + int k) \<and> mCastGrp s = group_of (word_of_int (c + int k))" if "k < nat n" for k
    using that assms(4,7) by (simp add: start_server_simps cluster_ids_nth del: of_int_add)
  moreover have "group_of (word_of_int (c + int j)) \<noteq> group_of (word_of_int (c + int k))"
    if "j < nat n" "k < nat n" "j \<noteq> k" for j k
  proof
    assume "group_of (word_of_int (c + int j)) = group_of (word_of_int (c + int k))"
    then have "cluster_ids n c ! j = cluster_ids n c ! k"
      using that assms(4) by (simp add: cluster_ids_nth group_of_inj del: of_int_add)
    then show False
      using cluster_ids_distinct [of c n] assms(4,5) that by (simp add: nth_eq_iff_index_eq)
  qed
  ultimately show ?thesis by (intro exI [of _ ?port] exI [of _ ?jobs]) simp
qed

theorem servers_of_one_argument_witness:
  "\<exists>port jobs. main_start (\<lambda>h. Some 0x0100007F) [''main'', ''localhost'', ''9000'', ''libx'' @ '':'' @ show_int 2 @ '':'' @ show_int 20] =
      Inr (0x0100007F, port, jobs) \<and> length jobs = 2 \<and>
    (\<exists>s. start_server (\<lambda>lib. Some ()) (\<lambda>c. test_server) 0x0100007F port (jobs ! 1) = Some s \<and> cluster_id s = 21)"
proof -
  have one: "(1 :: nat) < nat 2" by simp
  obtain port jobs where "main_start (\<lambda>h. Some 0x0100007F) [''main'', ''localhost'', ''9000'', ''libx'' @ '':'' @ show_int 2 @ '':'' @ show_int 20] =
      Inr (0x0100007F, port, jobs)" "length jobs = nat 2"
      "\<forall>k < nat 2. \<exists>s. start_server (\<lambda>lib. Some ()) (\<lambda>c. test_server) 0x0100007F port (jobs ! k) = Some s \<and>
        cluster_id s = word_of_int (20 + int k) \<and> mCastGrp s = group_of (word_of_int (20 + int k))"
    using servers_of_one_argument [of "''libx''" 2 20 "\<lambda>h. Some 0x0100007F" "''localhost''" "0x0100007F" "\<lambda>lib. Some ()" "()" "''main''" "''9000''" "\<lambda>c. test_server"] by auto
  moreover from this(3) [rule_format, OF one]
  have "\<exists>s. start_server (\<lambda>lib. Some ()) (\<lambda>c. test_server) 0x0100007F port (jobs ! 1) = Some s \<and> cluster_id s = 21" by auto
  ultimately show ?thesis by auto
qed

end
