(* ===== verification/Server_Main.thy ===== *)
theory Server_Main
  imports Start_Up Udp
begin

text \<open>
  \<open>main\<close> of \<open>main.cpp\<close> up to its endless loop, with its output and its failures.  The results of the
  system calls are arguments: those of the constructors of the sockets of the network, of the time
  synchronisation and of every server, of the resolver and of \<open>getcwd\<close>.  The
  exceptions that reach the handlers are those of the sockets; the handlers are complete.
\<close>

section \<open>Output and exceptions\<close>

datatype line = Cout string | Cerr string

datatype exn = Chars string | Str string | BadAlloc | StdException string | OtherException

definition report_exn :: "exn \<Rightarrow> line" where
  "report_exn ex = Cerr (case ex of
     Chars m \<Rightarrow> ''Exception caught: '' @ m @ ''. Exiting'' @ [NL]
   | Str m \<Rightarrow> ''Exception caught: '' @ m @ ''. Exiting'' @ [NL]
   | BadAlloc \<Rightarrow> ''Out of memory! Exiting'' @ [NL]
   | StdException what \<Rightarrow> ''Exception caught: '' @ what @ [NL]
   | OtherException \<Rightarrow> ''Unknown exception caught'' @ [NL])"

text \<open>
  What the thread of a server prints when it ends: \<open>Server::run\<close> returns at once without a plug-in, and has
  handlers of its own around its endless loop.
\<close>

definition no_plugin_text :: line where
  "no_plugin_text = Cerr (''ERROR!  Thread EXITING!  Could not load the DLL.  Make sure to '' @
    [CHR 0x27] @ ''setenv LD_LIBRARY_PATH .'' @ [CHR 0x27] @ [NL])"

fun run_report :: "exn \<Rightarrow> line" where
  "run_report (Chars ex) = Cerr (''Exception caught: '' @ ex @ ''. Exiting'' @ [NL])"
| "run_report (Str ex) = Cerr (''Exception caught: '' @ ex @ ''. Exiting'' @ [NL])"
| "run_report BadAlloc = Cerr (''Out of memory! Exiting'' @ [NL])"
| "run_report (StdException what) = Cerr (''Exception caught: '' @ what @ [NL])"
| "run_report OtherException = Cerr (''Unknown exception caught'' @ [NL])"

lemma run_report_main: "run_report ex = report_exn ex"
  by (cases ex) (simp_all add: report_exn_def)

text \<open>The last words of a thread, with the exception that ends its loop.\<close>

definition last_words :: "'c server option \<Rightarrow> exn \<Rightarrow> line" where
  "last_words s ex = (case s of None \<Rightarrow> no_plugin_text | Some _ \<Rightarrow> run_report ex)"

definition server_usage :: "string \<Rightarrow> line list" where
  "server_usage prog =
    [Cout (''distributAr (distributed Architecture framework) server'' @ [NL]),
     Cout (''usage: '' @ prog @ '' <tracker addr/ip>  <tracker port#>  <library:N:C>'' @ [NL]),
     Cout (''library:N:C - load N instances of '' @ [CHR 0x27] @ ''library'' @ [CHR 0x27] @ '' starting with ClusterID C'' @ [NL])]"

text \<open>
  \<open>boostPriority\<close> with the highest priority of the scheduler, the value \<open>pthread_setschedparam\<close>
  returns, and \<open>errno\<close>, which that call does not set.
\<close>

definition boostPriority :: "int \<Rightarrow> int \<Rightarrow> int \<Rightarrow> (int \<Rightarrow> string) \<Rightarrow> line" where
  "boostPriority sched_priority ret errno strerror = Cout
    (if ret \<noteq> 0
     then ''Failed to boost thread priority: '' @ strerror errno @ '' ERRNO:'' @ show_int errno @ [NL] @
       ''Run the server under a priveleged account.'' @ [NL, NL]
     else ''Running timing thread with priority '' @ show_int sched_priority @ [NL])"

section \<open>Starting servers\<close>

text \<open>
  \<open>started\<close> is the vector \<open>servers\<close>; its elements are \<open>None\<close> when the plug-in could not be loaded.
  Such a server stays in the vector: its thread ends, the object has no cluster.
\<close>

record 'c boot =
  log :: "line list"
  started :: "'c server option list"

abbreviation say :: "line list \<Rightarrow> 'c boot \<Rightarrow> 'c boot" where
  "say ls b \<equiv> b\<lparr>log := log b @ ls\<rparr>"

definition starting_text :: "string \<Rightarrow> int \<Rightarrow> int \<Rightarrow> line" where
  "starting_text dllName clusterCount startID =
    Cout (''Starting '' @ show_int clusterCount @ '' clusters from DLL '' @ [CHR 0x27] @ dllName @ [CHR 0x27] @
      '' at address '' @ show_int startID @ [NL])"

text \<open>The constructor of a server makes its socket before it loads the plug-in.\<close>

fun start_ids :: "(nat \<Rightarrow> ctor_calls) \<Rightarrow> (ClusterID \<Rightarrow> 'c server option) \<Rightarrow> ClusterID list \<Rightarrow> 'c boot \<Rightarrow>
    exn option \<times> 'c boot" where
  "start_ids calls start [] b = (None, b)"
| "start_ids calls start (i # ids) b =
    (case fst (Udp_init (calls (length (started b))) 0 False) of
       Inl e \<Rightarrow> (Some (Str e), b)
     | Inr fd \<Rightarrow> start_ids calls start ids (b\<lparr>started := started b @ [start i]\<rparr>))"

fun start_args :: "(nat \<Rightarrow> ctor_calls) \<Rightarrow> (string \<times> ClusterID \<Rightarrow> 'c server option) \<Rightarrow> string list \<Rightarrow> 'c boot \<Rightarrow>
    exn option \<times> 'c boot" where
  "start_args calls start [] b = (None, b)"
| "start_args calls start (arg # args) b =
    (let (dllName, clusterCount, startID) = cluster_arg arg
     in case start_ids calls (\<lambda>i. start (dllName, i)) (cluster_ids clusterCount startID)
               (say [starting_text dllName clusterCount startID] b) of
          (Some ex, b1) \<Rightarrow> (Some ex, b1)
        | (None, b1) \<Rightarrow> start_args calls start args b1)"

section \<open>The whole of it\<close>

text \<open>How \<open>main\<close> ends, or that it enters its loop.\<close>

datatype ending = Exits int | Uncaught exn | Serving

record 'c host_env =
  resolver :: "string \<Rightarrow> IP option"
  cwd :: "string option"
  cores :: nat
  priority :: line
  net_calls :: ctor_calls
  sync_calls :: ctor_calls
  server_calls :: "nat \<Rightarrow> ctor_calls"
  starts :: "IP \<Rightarrow> u16 \<Rightarrow> string \<times> ClusterID \<Rightarrow> 'c server option"

definition server_main :: "'c host_env \<Rightarrow> string list \<Rightarrow> ending \<times> 'c boot" where
  "server_main env argv =
    (let b0 = \<lparr>log = [], started = []\<rparr>
     in if length argv < 4 then (Exits 0, say (server_usage (argv ! 0)) b0)
        else
          let b1 = (case cwd env of
                None \<Rightarrow> b0
              | Some dir \<Rightarrow> say [Cout (''Running '' @ argv ! 0 @ '' in '' @ dir @ [NL])] b0)
          in case tracker_addr (resolver env) argv of
               None \<Rightarrow> (Exits 1, say [Cerr (''Can not resolve address for '' @ argv ! 1 @ [NL])] b1)
             | Some (ip, port) \<Rightarrow>
                 (case fst (Udp_init (net_calls env) MULTICAST_PORT True) of
                    Inl e \<Rightarrow> (Uncaught (Str e), b1)
                  | Inr netfd \<Rightarrow>
                      let (ex, b2) =
                        (case fst (Udp_init (sync_calls env) 0 False) of
                           Inl e \<Rightarrow> (Some (Str e), b1)
                         | Inr fd \<Rightarrow>
                             start_args (server_calls env) (starts env ip port) (drop 3 argv)
                               (say [priority env, Cout (''Starting with '' @ show_nat (length argv - 3) @
                                  '' cluster type(s).  hardware_concurrency is '' @ show_nat (cores env) @ [NL])] b1))
                      in case ex of
                           None \<Rightarrow> (Serving, b2)
                         | Some x \<Rightarrow> (Exits 1, say [report_exn x] b2)))"

section \<open>Which servers are started\<close>

abbreviation sock :: "ctor_calls \<Rightarrow> string + int" where
  "sock k \<equiv> fst (Udp_init k 0 False)"

text \<open>All servers the arguments ask for.\<close>

abbreviation jobs_of :: "string list \<Rightarrow> (string \<times> ClusterID) list" where
  "jobs_of args \<equiv> concat (map (\<lambda>arg. case cluster_arg arg of (dllName, clusterCount, startID) \<Rightarrow>
     map (Pair dllName) (cluster_ids clusterCount startID)) args)"

text \<open>The first \<open>k\<close> of the requested servers are there; then the sockets or the requests ended.\<close>

definition got :: "(nat \<Rightarrow> ctor_calls) \<Rightarrow> ('a \<Rightarrow> 'c server option) \<Rightarrow> 'a list \<Rightarrow> 'c boot \<Rightarrow> exn option \<times> 'c boot \<Rightarrow> nat \<Rightarrow> bool" where
  "got calls start xs b r k \<longleftrightarrow> k \<le> length xs \<and>
     started (snd r) = started b @ map start (take k xs) \<and>
     (\<forall>j < k. \<not> isl (sock (calls (length (started b) + j)))) \<and>
     (case fst r of None \<Rightarrow> k = length xs
      | Some ex \<Rightarrow> k < length xs \<and> (\<exists>m. ex = Str m \<and> sock (calls (length (started b) + k)) = Inl m))"

lemma got_ids: "\<exists>k. got calls start ids b (start_ids calls start ids b) k"
proof (induction ids arbitrary: b)
  case Nil
  then show ?case by (simp add: got_def)
next
  case (Cons i ids)
  show ?case
  proof (cases "sock (calls (length (started b)))")
    case (Inl m)
    then show ?thesis by (intro exI [of _ 0]) (simp add: got_def)
  next
    case (Inr fd)
    let ?b = "b\<lparr>started := started b @ [start i]\<rparr>"
    obtain k where "got calls start ids ?b (start_ids calls start ids ?b) k" using Cons.IH by blast
    moreover have "\<not> isl (sock (calls (length (started b) + j)))" if "j < Suc k"
        "\<forall>j < k. \<not> isl (sock (calls (Suc (length (started b) + j))))" for j
      using that Inr by (cases j) auto
    ultimately show ?thesis
      using Inr by (intro exI [of _ "Suc k"]) (auto simp: got_def split: option.splits)
  qed
qed

lemma got_more:
  assumes "got calls start xs b (None, b1) k" "got calls start ys b1 r l"
  shows "got calls start (xs @ ys) b r (k + l)"
proof -
  have "\<not> isl (sock (calls (length (started b) + j)))" if "j < length xs + l" for j
  proof (cases "j < length xs")
    case False
    then have "j - length xs < l" using that by simp
    with False assms show ?thesis by (auto simp: got_def dest!: spec [of _ "j - length xs"])
  qed (use assms in \<open>auto simp: got_def\<close>)
  then show ?thesis using assms by (auto simp: got_def add.assoc split: option.splits)
qed

lemma got_args: "\<exists>k. got calls start (jobs_of args) b (start_args calls start args b) k"
proof (induction args arbitrary: b)
  case Nil
  then show ?case by (simp add: got_def)
next
  case (Cons arg args)
  obtain d n c where a: "cluster_arg arg = (d, n, c)" by (cases "cluster_arg arg")
  let ?b = "say [starting_text d n c] b" and ?xs = "map (Pair d) (cluster_ids n c)"
  obtain ex b1 where s: "start_ids calls (\<lambda>i. start (d, i)) (cluster_ids n c) ?b = (ex, b1)" by fastforce
  obtain k where "got calls (\<lambda>i. start (d, i)) (cluster_ids n c) ?b (ex, b1) k"
    using got_ids [of calls "\<lambda>i. start (d, i)" "cluster_ids n c" ?b] s by auto
  then have k: "got calls start ?xs b (ex, b1) k"
    by (auto simp: got_def take_map comp_def split: option.splits)
  show ?case
  proof (cases ex)
    case None
    obtain l where "got calls start (jobs_of args) b1 (start_args calls start args b1) l" using Cons.IH by blast
    with k None have "got calls start (?xs @ jobs_of args) b (start_args calls start args b1) (k + l)"
      using got_more by blast
    then show ?thesis using s a None by auto
  next
    case (Some x)
    then have "got calls start (?xs @ jobs_of args) b (ex, b1) k" using k by (auto simp: got_def)
    then show ?thesis using s a Some by auto
  qed
qed

section \<open>Properties\<close>

text \<open>C30. How a server process starts.  With a known tracker the sockets decide, in the order they are
  made.  Without the network's it dies of an uncaught exception, without a message; with that but
  without the one for the time it exits with 1; with both, when the one of some server cannot be made,
  exactly the servers requested before it have been started, and it exits with 1.  The last two print
  the reason.  Only if all are made it starts every requested server, in order, and serves, also
  when plug-ins could not be loaded.
\<close>

theorem server_main_outcome:
  fixes env :: "'c host_env"
  assumes "main_start (resolver env) argv = Inr (ip, port, jobs)" and "server_main env argv = (e, b)"
  shows "case fst (Udp_init (net_calls env) MULTICAST_PORT True) of
      Inl m \<Rightarrow> e = Uncaught (Str m) \<and> started b = []
    | Inr netfd \<Rightarrow>
        (case sock (sync_calls env) of
           Inl m \<Rightarrow> e = Exits 1 \<and> started b = [] \<and> last (log b) = report_exn (Str m)
         | Inr fd \<Rightarrow>
             if \<forall>k < length jobs. \<not> isl (sock (server_calls env k))
             then e = Serving \<and> started b = map (starts env ip port) jobs
             else \<exists>k m. k < length jobs \<and> (\<forall>j < k. \<not> isl (sock (server_calls env j))) \<and>
               sock (server_calls env k) = Inl m \<and> e = Exits 1 \<and> last (log b) = report_exn (Str m) \<and>
               started b = map (starts env ip port) (take k jobs))"
proof -
  have argv: "\<not> length argv < 4" "tracker_addr (resolver env) argv = Some (ip, port)" "jobs = jobs_of (drop 3 argv)"
    using assms(1) by (auto simp: main_start_def split: if_splits option.splits)
  show ?thesis
  proof (cases "fst (Udp_init (net_calls env) MULTICAST_PORT True)")
    case (Inl m)
    then show ?thesis using assms(2) argv by (auto simp: server_main_def Let_def split: option.splits)
  next
    case net: (Inr netfd)
    show ?thesis
    proof (cases "sock (sync_calls env)")
      case (Inl m)
      then show ?thesis using assms(2) argv net by (auto simp: server_main_def Let_def split: option.splits)
    next
      case (Inr fd)
      let ?b0 = "\<lparr>log = [], started = []\<rparr> :: 'c boot"
      define b1 where "b1 = say [priority env, Cout (''Starting with '' @ show_nat (length argv - 3) @
          '' cluster type(s).  hardware_concurrency is '' @ show_nat (cores env) @ [NL])]
        (case cwd env of None \<Rightarrow> ?b0 | Some dir \<Rightarrow> say [Cout (''Running '' @ argv ! 0 @ '' in '' @ dir @ [NL])] ?b0)"
      obtain ex b2 where s: "start_args (server_calls env) (starts env ip port) (drop 3 argv) b1 = (ex, b2)" by fastforce
      have eb: "(e, b) = (case ex of None \<Rightarrow> (Serving, b2) | Some x \<Rightarrow> (Exits 1, say [report_exn x] b2))"
        using assms(2) argv net Inr s by (simp add: server_main_def b1_def Let_def)
      have "started b1 = []" by (simp add: b1_def split: option.splits)
      moreover obtain k where k: "got (server_calls env) (starts env ip port) jobs b1 (ex, b2) k"
        using got_args [of "server_calls env" "starts env ip port" "drop 3 argv" b1] s argv(3) by auto
      ultimately show ?thesis
        using eb net Inr by (cases ex) (auto simp: got_def)
    qed
  qed
qed

text \<open>Two servers are requested; the second has no socket.\<close>

definition good_calls :: ctor_calls where
  "good_calls = \<lparr>socket_result = Inr 3, getfl_result = 0, setfl_error = None, reuse_error = None, bind_error = None\<rparr>"

definition short_env :: "unit host_env" where
  "short_env = \<lparr>resolver = (\<lambda>h. Some 0x0100007F), cwd = None, cores = 1, priority = boostPriority 99 0 0 (\<lambda>e. []),
     net_calls = good_calls, sync_calls = good_calls,
     server_calls = (\<lambda>k. if k = 1 then good_calls\<lparr>socket_result := Inl 24\<rparr> else good_calls),
     starts = start_server (\<lambda>lib. Some ()) (\<lambda>c. test_server)\<rparr>"

theorem server_main_outcome_witness:
  "\<exists>b. server_main short_env [''server'', ''localhost'', ''9000'', ''libx'' @ '':'' @ show_int 2] = (Exits 1, b) \<and>
     length (started b) = 1 \<and> last (log b) = report_exn (Str (''socket error in socket(). errno: '' @ show_int 24))"
proof -
  let ?argv = "[''server'', ''localhost'', ''9000'', ''libx'' @ '':'' @ show_int 2]"
  let ?port = "htons (word_of_int (atoi ''9000''))" and ?jobs = "map (Pair ''libx'') (cluster_ids 2 0)"
  obtain e b where m: "server_main short_env ?argv = (e, b)" by fastforce
  have "cluster_arg (''libx'' @ '':'' @ show_int 2) = (''libx'', 2, 0)"
    by (rule cluster_arg_count) (simp_all add: signed_range_def)
  then have s: "main_start (resolver short_env) ?argv = Inr (0x0100007F, ?port, ?jobs)"
    by (simp add: main_start_def tracker_addr_def short_env_def)
  have good: "sock good_calls = Inr 3" "fst (Udp_init good_calls MULTICAST_PORT True) = Inr 3"
    and bad: "sock (good_calls\<lparr>socket_result := Inl 24\<rparr>) = Inl (''socket error in socket(). errno: '' @ show_int 24)"
    by (simp_all add: good_calls_def Udp_init_def Udp_reuse_def Udp_bind_def)
  have env: "net_calls short_env = good_calls" "sync_calls short_env = good_calls"
      "server_calls short_env j = (if j = 1 then good_calls\<lparr>socket_result := Inl 24\<rparr> else good_calls)" for j
    by (simp_all add: short_env_def)
  have n: "\<not> (\<forall>j < length ?jobs. \<not> isl (sock (server_calls short_env j)))"
    using bad by (auto simp: env intro!: exI [of _ "1 :: nat"])
  then obtain k m' where k: "k < length ?jobs" "sock (server_calls short_env k) = Inl m'" "e = Exits 1"
      "last (log b) = report_exn (Str m')" "started b = map (starts short_env 0x0100007F ?port) (take k ?jobs)"
    using server_main_outcome [OF s m, unfolded env(1,2) good sum.case, unfolded if_not_P [OF n]] by blast
  then have "k = 1" using good by (auto simp: env split: if_splits)
  then show ?thesis using m k bad by (auto simp: env)
qed

end
