(* ===== verification/Client_Main.thy ===== *)
theory Client_Main
  imports Deploy Server_Main
begin

text \<open>
  \<open>main\<close> of \<open>utils/client.cpp\<close> as a whole program: its usage text, the messages about wrong arguments,
  its exit status and the datagrams it sends; and the commands \<open>connect\<close> and \<open>drop\<close> on their way to a
  server.  What the commands themselves print is left out here (\<open>Client_Tracker\<close> has it for \<open>list\<close>).
\<close>

section \<open>The program\<close>

definition client_usage :: "string \<Rightarrow> line list" where
  "client_usage prog = map (\<lambda>t. Cout (t @ [NL]))
    [''distributAr (distributed Architecture framework) client'',
     ''usage: '' @ prog @ '' trackerIP  trackerPort command <parameters>'',
     ''supported commands are:'',
     [CHR 0x09] @ ''list - list all clusters reporting to tracker'',
     [CHR 0x09] @ ''create graphFileName - build the network according to *.dot file'',
     [CHR 0x09] @ ''get cluster - get info for cluster from tracker'',
     [CHR 0x09] @ ''info cluster - ask cluster to print info to screen'',
     [CHR 0x09] @ ''add cluster N - add N nodes to cluster'',
     [CHR 0x09] @ ''run cluster1 cluster2 - start cluster1 running under id cluster2'',
     [CHR 0x09] @ ''save cluster saveNum - save cluster state into restore point saveNum'',
     [CHR 0x09] @ ''load cluster saveNum - restore cluster from file (set ID first)'',
     [CHR 0x09] @ ''connect fromID toID  - connect two clusters (make toID subscribe to fromID'' @ [CHR 0x27] @ ''s multicast group)'',
     [CHR 0x09] @ ''drop fromID toID - delete cluster connection'',
     [CHR 0x09] @ ''ClusterID key - get cluster or device variable'',
     [CHR 0x09] @ ''ClusterID key=value - set cluster or device variable'']"

text \<open>The number of arguments \<open>validateArgc\<close> asks of a command, those before the command not counted.\<close>

definition arguments_of :: "string \<Rightarrow> nat option" where
  "arguments_of cmd =
    (if cmd = ''list'' then Some 0
     else if cmd \<in> {''get'', ''create'', ''info''} then Some 1
     else if cmd \<in> {''add'', ''run'', ''save'', ''load'', ''drop'', ''connect''} then Some 2
     else if id_arg cmd \<noteq> 0 then Some 1
     else None)"

definition validateArgc :: "nat \<Rightarrow> nat \<Rightarrow> line list option" where
  "validateArgc argc minArgc =
    (if argc < minArgc then Some [Cerr (''Missing arguments...'' @ [NL])] else None)"

text \<open>
  How \<open>main\<close> ends, what it prints and what is sent; \<open>None\<close> where a command has no result.  The object
  \<open>Commander\<close> has a socket, made by its constructor outside any handler, so a socket that cannot be made
  ends the program with an uncaught exception.
\<close>

definition client_program :: "(string \<Rightarrow> IP option) \<Rightarrow> ctor_calls \<Rightarrow> IP \<Rightarrow> client_junk \<Rightarrow> (string \<Rightarrow> string option) \<Rightarrow>
    string list \<Rightarrow> char select_call list \<Rightarrow> (ending \<times> line list \<times> (sockaddr \<times> string) list) option" where
  "client_program gethostbyname calls lip junk files argv rs =
    (if length argv < 4 then Some (Exits 0, client_usage (argv ! 0), [])
     else case gethostbyname (argv ! 1) of
       None \<Rightarrow> Some (Exits 1, [Cerr (''Can not resolve address for '' @ argv ! 1 @ [NL])], [])
     | Some ip \<Rightarrow>
         let port = word_of_int (atoi (argv ! 2)) :: u16; cmd = argv ! 3
         in if port = 0 then Some (Exits 1, [Cerr (''Error scanning port from '' @ argv ! 2 @ [NL])], [])
            else case sock calls of
              Inl e \<Rightarrow> Some (Uncaught (Str e), [], [])
            | Inr fd \<Rightarrow>
                (case arguments_of cmd of
                   None \<Rightarrow> Some (Exits 1, [Cerr (''Unknown command '' @ cmd @ [NL])], [])
                 | Some k \<Rightarrow>
                     (case validateArgc (length argv) (4 + k) of
                        Some ls \<Rightarrow> Some (Exits 1, ls, [])
                      | None \<Rightarrow> do {
                          (code, st) \<leftarrow> client_main lip junk files cmd (drop 4 argv)
                            (Commander_init \<lparr>s_addr = ucast ip, sin_port = htons port\<rparr> rs);
                          Some (Exits code, [], sent st)
                        })))"

text \<open>With a socket, the output apart, it is \<open>client_start\<close> followed by \<open>client_main\<close>.\<close>

lemma client_program_runs:
  assumes "sock calls = Inr fd"
  shows "map_option (\<lambda>(e, ls, ms). (e, ms)) (client_program gethostbyname calls lip junk files argv rs) =
    (case client_start gethostbyname argv rs of
       Inl code \<Rightarrow> Some (Exits code, [])
     | Inr st \<Rightarrow> map_option (\<lambda>(code, st'). (Exits code, sent st')) (client_main lip junk files (argv ! 3) (drop 4 argv) st))"
proof -
  have "client_main lip junk files cmd args st = Some (1, st)"
    if "arguments_of cmd = None \<or> (\<exists>k. arguments_of cmd = Some k \<and> length args < k)" for cmd args st
    using that by (auto simp: arguments_of_def client_main_def split: if_splits)
  moreover have "sent (Commander_init a rs) = []" for a by (simp add: Commander_init_def)
  ultimately show ?thesis
    using assms by (auto simp: client_program_def client_start_def validateArgc_def Let_def bind_eq_Some_conv
        split: option.splits bind_splits)
qed

section \<open>A command to one cluster\<close>

text \<open>The cluster and the text for the commands that go to one cluster.\<close>

definition client_request :: "string \<Rightarrow> string list \<Rightarrow> (ClusterID \<times> string) option" where
  "client_request cmd args =
    (if cmd \<in> {''list'', ''get'', ''create''} then None
     else if cmd = ''info'' then Some (id_arg (args ! 0), ''INFO'')
     else if cmd = ''add'' then Some (id_arg (args ! 0), ''ADD '' @ args ! 1)
     else if cmd = ''run'' then Some (id_arg (args ! 0), ''RUN '' @ args ! 1)
     else if cmd = ''save'' then Some (id_arg (args ! 0), ''SAVE '' @ args ! 1)
     else if cmd = ''load'' then Some (id_arg (args ! 0), ''LOAD '' @ args ! 1)
     else if cmd = ''drop'' then Some (id_arg (args ! 1), ''DROP '' @ args ! 0)
     else if cmd = ''connect'' then Some (id_arg (args ! 1), ''CONNECT '' @ args ! 0)
     else Some (id_arg cmd, args ! 0))"

lemma client_main_request:
  assumes "arguments_of cmd = Some k" "k \<le> length args" "client_request cmd args = Some (i, msg)"
  shows "client_main lip j files cmd args st = command_and_reply lip j i msg st"
proof -
  consider "cmd \<in> {''info''}" | "cmd \<in> {''add'', ''run'', ''save'', ''load'', ''drop'', ''connect''}"
    | "cmd \<notin> {''list'', ''get'', ''create'', ''info'', ''add'', ''run'', ''save'', ''load'', ''drop'', ''connect''}"
    using assms(3) by (auto simp: client_request_def split: if_splits)
  then show ?thesis
    using assms by cases (auto simp: client_main_def client_request_def arguments_of_def split: if_splits)
qed

text \<open>A client that has just started and is answered by the tracker and by the cluster.\<close>

lemma command_and_reply_fresh:
  assumes "sin_port t \<noteq> 0" "i \<noteq> TRACKER_CLUSTER_ID" "usable lip a" "NUL \<notin> set reply" "length reply < 0xFFFF"
  shows "\<exists>st'. command_and_reply lip j i msg (Commander_init t (said (POINT_reply i a) # said reply # rs)) =
      Some (if reply = ''ACK'' then 1 else 0, st') \<and>
    sent st' = [(t, GET_query i @ [NUL]), (a, msg @ [NUL])] \<and> reads st' = rs"
proof -
  let ?st = "Commander_init t (said (POINT_reply i a) # said reply # rs)"
  have st: "addrs ?st i = None" "known TRACKER_CLUSTER_ID ?st" "reply_at ?st 0 = POINT_reply i a" "tracker_addr_of ?st = t"
    using assms(1,2) by (simp_all add: Commander_init_def reply_at_def said_text reply_chars reply_lengths)
  let ?st1 = "Write msg a (learned i a ?st)"
  have "Client.command lip j i msg ?st = Some (0, ?st1)" by (rule command_unknown [OF st(1) assms(2) st(2,3) assms(3)])
  moreover have "waitReply ?st1 = (reply, ?st1\<lparr>reads := rs\<rparr>)"
    using said_text [OF assms(4,5)] by (simp add: waitReply_eq reply_at_def Write_def Commander_init_def)
  ultimately show ?thesis
    using st(4) by (simp add: command_and_reply_def showReply_def Write_def Commander_init_def)
qed

lemma client_program_request:
  assumes "sock calls = Inr fd" "gethostbyname host = Some ip" "port = (word_of_int (atoi portarg) :: u16)" "port \<noteq> 0"
    and "arguments_of cmd = Some (length args)" "client_request cmd args = Some (i, msg)" "i \<noteq> TRACKER_CLUSTER_ID"
    and "usable lip a" "NUL \<notin> set reply" "length reply < 0xFFFF"
  shows "client_program gethostbyname calls lip j files ([prog, host, portarg, cmd] @ args) (said (POINT_reply i a) # said reply # rs) =
    Some (Exits (if reply = ''ACK'' then 1 else 0), [],
      [(\<lparr>s_addr = ucast ip, sin_port = htons port\<rparr>, GET_query i @ [NUL]), (a, msg @ [NUL])])"
proof -
  let ?t = "\<lparr>s_addr = ucast ip, sin_port = htons port\<rparr>"
  have "sin_port ?t \<noteq> 0" using assms(4) by (simp add: htons_nonzero)
  from command_and_reply_fresh [OF this assms(7-10), of j msg rs]
  show ?thesis
    using client_main_request [OF assms(5) order_refl assms(6), of lip j files] assms(1-5)
    by (auto simp: client_program_def validateArgc_def)
qed

section \<open>Commands end\<close>

text \<open>A question to the tracker ends whatever is received, and leaves the tracker's address alone.\<close>

lemma getCluster_ends:
  assumes "known TRACKER_CLUSTER_ID st" "i \<noteq> TRACKER_CLUSTER_ID"
  shows "\<exists>c st'. getCluster lip j i st = Some (c, st') \<and> tracker_addr_of st' = tracker_addr_of st \<and>
    sent st' = sent st @ [(tracker_addr_of st, GET_query i @ [NUL])]"
  using assms by (auto simp: getCluster_asked Let_def split: prod.split)

lemma touch_addr_simps [simp]:
  "sent (touch_addr i st) = sent st" "addr_of k (touch_addr i st) = addr_of k st"
  "known k (touch_addr i st) = known k st"
  by (auto simp: touch_addr_def touch_def)

lemma request_addr_ends:
  assumes "known TRACKER_CLUSTER_ID st" "i \<noteq> TRACKER_CLUSTER_ID"
  shows "\<exists>k st'. request_addr lip j i n st = Some st' \<and> k \<le> n \<and> tracker_addr_of st' = tracker_addr_of st \<and>
    sent st' = sent st @ replicate k (tracker_addr_of st, GET_query i @ [NUL])"
  using assms(1)
proof (induction n arbitrary: st)
  case 0
  then show ?case by simp
next
  case (Suc n)
  show ?case
  proof (cases "sin_port (addr_of i st) = 0")
    case True
    obtain c st1 where g: "getCluster lip j i st = Some (c, st1)" "tracker_addr_of st1 = tracker_addr_of st"
        "sent st1 = sent st @ [(tracker_addr_of st, GET_query i @ [NUL])]"
      using getCluster_ends [OF Suc.prems assms(2)] by blast
    then obtain k st2 where "request_addr lip j i n (touch_addr i st1) = Some st2" "k \<le> n"
        "tracker_addr_of st2 = tracker_addr_of st"
        "sent st2 = sent st @ replicate (Suc k) (tracker_addr_of st, GET_query i @ [NUL])"
      using Suc.IH [of "touch_addr i st1"] Suc.prems by auto
    then show ?thesis using True g(1) by (intro exI [of _ "Suc k"] exI [of _ st2]) simp
  next
    case False
    then show ?thesis by (intro exI [of _ 0] exI [of _ st]) simp
  qed
qed

lemma command_and_reply_ends:
  assumes "known TRACKER_CLUSTER_ID st" "i \<noteq> TRACKER_CLUSTER_ID"
  shows "\<exists>code st' k. command_and_reply lip j i msg st = Some (code, st') \<and> code \<in> {0, 1} \<and> k \<le> 3 \<and>
    (\<exists>rest. sent st' = sent st @ replicate k (tracker_addr_of st, GET_query i @ [NUL]) @ rest \<and>
       (rest = [] \<or> (\<exists>a. sin_port a \<noteq> 0 \<and> rest = [(a, msg @ [NUL])])))"
proof -
  obtain k st1 where r: "request_addr lip j i 3 (touch_addr i st) = Some st1" "k \<le> 3"
      "sent st1 = sent st @ replicate k (tracker_addr_of st, GET_query i @ [NUL])"
    using request_addr_ends [of "touch_addr i st" i lip j 3] assms by auto
  have reply: "command_and_reply lip j i msg st = Some (if reply_at st2 0 = ''ACK'' then 1 else 0, st2\<lparr>reads := drop 1 (reads st2)\<rparr>)"
    if "Client.command lip j i msg st = Some (c, st2)" for c st2
    using that by (simp add: command_and_reply_def showReply_def waitReply_eq)
  show ?thesis
  proof (cases "sin_port (addr_of i st1) = 0")
    case True
    then have "Client.command lip j i msg st = Some (1, st1)" using r(1) by (simp add: Client.command_def)
    note e = reply [OF this]
    show ?thesis using r(2) by (auto simp: e r(3) intro!: exI [of _ k])
  next
    case False
    then have "Client.command lip j i msg st = Some (0, Write msg (addr_of i st1) st1)"
      using r(1) by (simp add: Client.command_def)
    note e = reply [OF this]
    show ?thesis using r(2) False by (auto simp: e r(3) Write_def intro!: exI [of _ k])
  qed
qed

section \<open>Properties\<close>

text \<open>C38. \<open>connect\<close> and \<open>drop\<close> from the command line to the server and back.  When the socket can be made, the
  tracker knows the address of the cluster \<open>to\<close> and the cluster acknowledges, either program asks the tracker
  for the address, sends one command there and ends with status 1.  The server that gets the first
  command acknowledges it and is subscribed to \<open>from\<close>; the second one it acknowledges too, and then its
  subscriptions are those it had before, less one to \<open>from\<close>: when it was subscribed to \<open>from\<close> already, \<open>connect\<close>
  added nothing and \<open>drop\<close> takes that earlier connection away; otherwise they are just what they were.
\<close>

theorem client_connect_then_drop:
  assumes "gethostbyname host = Some ip" and "port = (word_of_int (atoi portarg) :: u16)" and "port \<noteq> 0"
    and "sock calls = Inr fd" and "small_id to" and "to \<noteq> TRACKER_CLUSTER_ID" and "usable lip a"
    and "cluster_id s = to" and "t = \<lparr>s_addr = ucast ip, sin_port = htons port\<rparr>"
    and "\<And>cmd. program cmd = client_program gethostbyname calls lip j files
      [prog, host, portarg, cmd, show_word frm, show_word to] [said (POINT_reply to a), said ''ACK'']"
  shows "\<exists>m1 m2 n1 n2 reqs1 reqs2.
    program ''connect'' = Some (Exits 1, [], [(t, GET_query to @ [NUL]), (a, m1)]) \<and>
    program ''drop'' = Some (Exits 1, [], [(t, GET_query to @ [NUL]), (a, m2)]) \<and>
    parseCommand C junk ks ids (c_string m1) s n = Inr (''ACK'', s, n1, reqs1) \<and> frm \<in> set (subs_of n1 to) \<and>
    parseCommand C junk ks ids (c_string m2) s n1 = Inr (''ACK'', s, n2, reqs2) \<and>
    (\<forall>k. subs_of n2 k = (if k = to then remove1 frm (subs_of n to) else subs_of n k)) \<and>
    (frm \<notin> set (subs_of n to) \<longrightarrow> (\<forall>k. subs_of n2 k = subs_of n k))"
proof -
  let ?connect = "''CONNECT '' @ show_word frm" and ?drop = "''DROP '' @ show_word frm"
  have id: "id_arg (show_word to) = to" using assms(5) by (simp add: id_arg_def atoi_id)
  have sends: "program cmd = Some (Exits 1, [], [(t, GET_query to @ [NUL]), (a, msg @ [NUL])])"
    if "arguments_of cmd = Some 2" "client_request cmd [show_word frm, show_word to] = Some (to, msg)" for cmd msg
    using client_program_request [where gethostbyname = gethostbyname and host = host and cmd = cmd and
        args = "[show_word frm, show_word to]" and reply = "''ACK''" and rs = "[]", OF assms(4,1-3)]
      that assms(6,7,9,10) by simp
  have 1: "program ''connect'' = Some (Exits 1, [], [(t, GET_query to @ [NUL]), (a, ?connect @ [NUL])])"
    by (rule sends) (simp_all add: arguments_of_def client_request_def id)
  have 2: "program ''drop'' = Some (Exits 1, [], [(t, GET_query to @ [NUL]), (a, ?drop @ [NUL])])"
    by (rule sends) (simp_all add: arguments_of_def client_request_def id)
  obtain n1 reqs1 where n1: "subscribe ids to frm n = (n1, reqs1)" by fastforce
  then have s1: "subs_of n1 k = (if k = to \<and> frm \<notin> set (subs_of n to) then subs_of n to @ [frm] else subs_of n k)" for k
    using subscribe_subs [of ids to frm n] by simp
  then have f: "frm \<in> set (subs_of n1 to)" by simp
  then obtain n2 reqs2 where n2: "unsubscribe ks ids to frm n1 = Inr (n2, reqs2)" "n2 = drop_subscription to frm n1"
    by (simp add: unsubscribe_eq)
  have s2: "\<forall>k. subs_of n2 k = (if k = to then remove1 frm (subs_of n to) else subs_of n k)"
    by (simp add: n2(2) s1 remove1_append remove1_idem)
  then have "frm \<notin> set (subs_of n to) \<longrightarrow> (\<forall>k. subs_of n2 k = subs_of n k)" by (simp add: remove1_idem)
  moreover have "c_string (?connect @ [NUL]) = ?connect" "c_string (?drop @ [NUL]) = ?drop"
    by (rule c_string_message, simp)+
  moreover have "parseCommand C junk ks ids ?connect s n = Inr (''ACK'', s, n1, reqs1)"
      "parseCommand C junk ks ids ?drop s n1 = Inr (''ACK'', s, n2, reqs2)"
    unfolding parse_CONNECT parse_DROP by (simp_all add: assms(8) n1 n2(1))
  ultimately show ?thesis using 1 2 f s2 by metis
qed

text \<open>Cluster 7 connects to 5, to which it was not connected.\<close>

theorem client_connect_then_drop_witness:
  "\<exists>m1 m2 n1 n2 reqs1 reqs2.
     client_program (\<lambda>_. Some 0x0100007F) good_calls 0 \<lparr>old_cid = 0, old_ip = 0, old_port = 0\<rparr> (\<lambda>_. None)
       [''client'', ''localhost'', ''9000'', ''connect'', ''5'', ''7''] [said (POINT_reply 7 host_1), said ''ACK''] =
       Some (Exits 1, [], [(\<lparr>s_addr = 0x0100007F, sin_port = htons 9000\<rparr>, GET_query 7 @ [NUL]), (host_1, m1)]) \<and>
     parseCommand test_cluster 0 [] [7] (c_string m1) test_server Network_init = Inr (''ACK'', test_server, n1, reqs1) \<and>
     5 \<in> set (subs_of n1 7) \<and>
     parseCommand test_cluster 0 [] [7] (c_string m2) test_server n1 = Inr (''ACK'', test_server, n2, reqs2) \<and>
     subs_of n2 7 = subs_of Network_init 7"
proof -
  have w: "show_word (5 :: ClusterID) = ''5''" "show_word (7 :: ClusterID) = ''7''"
    by (simp_all add: show_word_def show_nat.simps char_of_def bit_0)
  have ip: "ucast (0x0100007F :: IP) = (0x0100007F :: u32)" by simp
  have port: "(9000 :: u16) = word_of_int (atoi ''9000'')" "(9000 :: u16) \<noteq> 0" by code_simp+
  have h: "sock good_calls = Inr 3" "small_id 7" "(7 :: ClusterID) \<noteq> TRACKER_CLUSTER_ID" "usable 0 host_1" "cluster_id test_server = 7"
    by (simp_all add: good_calls_def Udp_init_def Udp_reuse_def Udp_bind_def small_id_def TRACKER_CLUSTER_ID_def usable_def
        host_1_def test_server_time)
  have n: "5 \<notin> set (subs_of Network_init 7)" by (simp add: Network_init_def)
  note r = client_connect_then_drop [where gethostbyname = "\<lambda>_. Some 0x0100007F" and host = "''localhost''" and lip = 0 and
      j = "\<lparr>old_cid = 0, old_ip = 0, old_port = 0\<rparr>" and files = "\<lambda>_. None" and prog = "''client''" and
      C = test_cluster and junk = 0 and ks = "[]" and ids = "[7]" and frm = 5 and n = Network_init, OF refl port h refl refl, unfolded w ip]
  then show ?thesis using n by (elim exE conjE) (intro exI conjI, (assumption | erule (1) mp [THEN spec])+)
qed

text \<open>C39. Every command to one cluster ends, whatever the tracker and the cluster reply, or when they reply
  nothing or garbage: the program asks the tracker at most three times, sends the command at most once, and
  only when it has an address with a port, and its exit status is 0 or 1.  Only when its socket
  cannot be made it sends nothing and ends with an uncaught exception.
\<close>

theorem client_command_ends:
  assumes "gethostbyname host = Some ip" and "port = (word_of_int (atoi portarg) :: u16)" and "port \<noteq> 0"
    and "arguments_of cmd = Some (length args)" and "client_request cmd args = Some (i, msg)" and "i \<noteq> TRACKER_CLUSTER_ID"
    and "t = \<lparr>s_addr = ucast ip, sin_port = htons port\<rparr>"
    and "program = client_program gethostbyname calls lip j files ([prog, host, portarg, cmd] @ args) rs"
  shows "case sock calls of
      Inl m \<Rightarrow> program = Some (Uncaught (Str m), [], [])
    | Inr fd \<Rightarrow> \<exists>code k rest. program = Some (Exits code, [], replicate k (t, GET_query i @ [NUL]) @ rest) \<and>
        code \<in> {0, 1} \<and> k \<le> 3 \<and> (rest = [] \<or> (\<exists>a. sin_port a \<noteq> 0 \<and> rest = [(a, msg @ [NUL])]))"
proof (cases "sock calls")
  case (Inl m)
  then show ?thesis using assms(1-3,8) by (simp add: client_program_def)
next
  case (Inr fd)
  have st: "known TRACKER_CLUSTER_ID (Commander_init t rs)" "tracker_addr_of (Commander_init t rs) = t"
      "sent (Commander_init t rs) = []"
    using assms(3,7) by (simp_all add: Commander_init_def htons_nonzero)
  obtain code st' k rest where "command_and_reply lip j i msg (Commander_init t rs) = Some (code, st')" "code \<in> {0, 1}"
      "k \<le> 3" "sent st' = replicate k (t, GET_query i @ [NUL]) @ rest"
      "rest = [] \<or> (\<exists>a. sin_port a \<noteq> 0 \<and> rest = [(a, msg @ [NUL])])"
    using command_and_reply_ends [OF st(1) assms(6), of lip j msg] unfolding st(2,3) append_Nil by blast
  then show ?thesis
    using client_main_request [OF assms(4) order_refl assms(5), of lip j files "Commander_init t rs"] assms(1-4,7,8) Inr
    by (auto simp: client_program_def validateArgc_def)
qed

theorem client_command_ends_witness:
  "\<exists>code k rest. client_program (\<lambda>_. Some 0x0100007F) good_calls 0 \<lparr>old_cid = 0, old_ip = 0, old_port = 0\<rparr> (\<lambda>_. None)
      [''client'', ''localhost'', ''9000'', ''run'', ''7'', ''8''] [SelectTimeout, said ''nonsense'', SelectFails 4] =
    Some (Exits code, [], replicate k (\<lparr>s_addr = 0x0100007F, sin_port = htons 9000\<rparr>, GET_query 7 @ [NUL]) @ rest) \<and> k \<le> 3"
proof -
  have p: "(9000 :: u16) = word_of_int (atoi ''9000'')" "(9000 :: u16) \<noteq> 0" "(7 :: ClusterID) \<noteq> TRACKER_CLUSTER_ID"
    by code_simp+
  have "id_arg ''7'' = 7" by code_simp
  then have c: "arguments_of ''run'' = Some (length [''7'', ''8''])" "client_request ''run'' [''7'', ''8''] = Some (7, ''RUN 8'')"
    by (simp_all add: arguments_of_def client_request_def)
  have ip: "ucast (0x0100007F :: IP) = (0x0100007F :: u32)" by simp
  have sock: "sock good_calls = Inr 3" by (simp add: good_calls_def Udp_init_def Udp_reuse_def Udp_bind_def)
  show ?thesis
    using client_command_ends [where gethostbyname = "\<lambda>_. Some 0x0100007F" and host = "''localhost''" and calls = good_calls and lip = 0 and
        j = "\<lparr>old_cid = 0, old_ip = 0, old_port = 0\<rparr>" and files = "\<lambda>_. None" and prog = "''client''" and
        rs = "[SelectTimeout, said ''nonsense'', SelectFails 4]", OF refl p(1,2) c p(3) refl refl] unfolding ip sock sum.case by auto
qed

end
