(* ===== verification/Registry.thy ===== *)
theory Registry
  imports Tracker
begin

text \<open>
  What the tracker promises: a registry of addresses, without the order in which hash maps are
  searched, the separate map of update times, the message texts and the receive buffer.  The tracker
  of \<open>utils/tracker.cpp\<close> refines it, and what holds of every run of the registry holds of the tracker.
\<close>

section \<open>The registry\<close>

record registry =
  entries :: "ClusterID \<rightharpoonup> sockaddr \<times> Time"
  unused :: ClusterID

datatype request = Reserve | Announce ClusterID | Lookup ClusterID | Enumerate | Remark

datatype answer = Reserved ClusterID | At ClusterID sockaddr | Gone ClusterID | Listed "ClusterID set" | Silence

definition held :: "registry \<Rightarrow> ClusterID \<Rightarrow> sockaddr \<Rightarrow> bool" where
  "held r i a \<longleftrightarrow> (\<exists>u. entries r i = Some (a, u))"

definition renewed_since :: "registry \<Rightarrow> Time \<Rightarrow> ClusterID set" where
  "renewed_since r u = {i. \<exists>a v. entries r i = Some (a, v) \<and> u \<le> v}"

text \<open>
  A request from address \<open>a\<close> that is handled between the times \<open>lo\<close> and \<open>hi\<close>.  A list is made one id
  after the other, so an id that becomes old meanwhile may be on it or not.
\<close>

inductive reg_step :: "sockaddr \<Rightarrow> Time \<Rightarrow> Time \<Rightarrow> request \<Rightarrow> registry \<Rightarrow> answer \<Rightarrow> registry \<Rightarrow> bool"
  for a lo hi where
  reserve_new: "\<forall>i. \<not> held r i a \<Longrightarrow> lo \<le> now \<Longrightarrow> now \<le> hi \<Longrightarrow>
    reg_step a lo hi Reserve r (Reserved (unused r))
      (r\<lparr>entries := (entries r)(unused r \<mapsto> (a, now)), unused := unused r + 1\<rparr>)"
| reserve_again: "held r i a \<Longrightarrow> lo \<le> now \<Longrightarrow> now \<le> hi \<Longrightarrow>
    reg_step a lo hi Reserve r (Reserved i) (r\<lparr>entries := (entries r)(i \<mapsto> (a, now))\<rparr>)"
| announce: "i \<noteq> 0 \<Longrightarrow> lo \<le> now \<Longrightarrow> now \<le> hi \<Longrightarrow>
    reg_step a lo hi (Announce i) r Silence
      (r\<lparr>entries := (\<lambda>j. if held r j a then None else entries r j)(i \<mapsto> (a, now))\<rparr>)"
| lookup_unknown: "entries r i = None \<Longrightarrow> reg_step a lo hi (Lookup i) r (Gone i) r"
| lookup_current: "entries r i = Some (b, u) \<Longrightarrow> lo \<le> u + ENV_UPDATE_TIME \<Longrightarrow>
    reg_step a lo hi (Lookup i) r (At i b) r"
| lookup_old: "entries r i = Some (b, u) \<Longrightarrow> u + ENV_UPDATE_TIME < hi \<Longrightarrow> i > RESERVED_CLUSTER_ID \<Longrightarrow>
    reg_step a lo hi (Lookup i) r (Gone i) (r\<lparr>entries := (entries r)(i := None)\<rparr>)"
| lookup_old_reserved: "entries r i = Some (b, u) \<Longrightarrow> u + ENV_UPDATE_TIME < hi \<Longrightarrow> i \<le> RESERVED_CLUSTER_ID \<Longrightarrow>
    reg_step a lo hi (Lookup i) r Silence r"
| enumerate: "renewed_since r (hi - ENV_UPDATE_TIME) \<subseteq> S \<Longrightarrow> S \<subseteq> renewed_since r (lo - ENV_UPDATE_TIME) \<Longrightarrow>
    reg_step a lo hi Enumerate r (Listed S) r"
| remark: "reg_step a lo hi Remark r Silence r"

inductive_simps reserve_simp: "reg_step a lo hi Reserve r ans r'"
inductive_simps announce_simp: "reg_step a lo hi (Announce i) r ans r'"
inductive_simps lookup_simp: "reg_step a lo hi (Lookup i) r ans r'"
inductive_simps enumerate_simp: "reg_step a lo hi Enumerate r ans r'"
inductive_simps remark_simp: "reg_step a lo hi Remark r ans r'"

lemmas reg_step_simps = reserve_simp announce_simp lookup_simp enumerate_simp remark_simp

section \<open>One message\<close>

definition abs_registry :: "tracker \<Rightarrow> registry" where
  "abs_registry t =
    \<lparr>entries = (\<lambda>i. map_option (\<lambda>a. (a, at_default 0 (updateTime t) i)) (clusters t i)), unused = next_id t\<rparr>"

definition request_of :: "ClusterID \<Rightarrow> string \<Rightarrow> request" where
  "request_of junk buff =
    (let (cmd, is) = get_word [] (istringstream buff); i = fst (get_unsigned junk is)
     in if cmd = ''ID'' then (if i = 0 then Reserve else Announce i)
        else if cmd = ''GET'' then Lookup i
        else if cmd = ''LIST'' then Enumerate
        else Remark)"

text \<open>The datagrams that carry an answer to \<open>a\<close>.\<close>

definition carries :: "sockaddr \<Rightarrow> answer \<Rightarrow> datagram list \<Rightarrow> bool" where
  "carries a ans out \<longleftrightarrow>
    (case ans of
       Reserved i \<Rightarrow> out = sendCommand a (''RUN '' @ show_word i)
     | At i b \<Rightarrow> out = sendCommand a (''POINT '' @ show_word i @ '' '' @ show_word (s_addr b) @ '' '' @ show_word (sin_port b))
     | Gone i \<Rightarrow> out = sendCommand a (''DROP '' @ show_word i)
     | Listed S \<Rightarrow> \<exists>is. distinct is \<and> set is = S \<and> out = sendCommand a (concat (map (\<lambda>i. show_word i @ '' '') is))
     | Silence \<Rightarrow> out = [])"

lemma abs_registry_simps [simp]:
  "entries (abs_registry t) i = map_option (\<lambda>a. (a, at_default 0 (updateTime t) i)) (clusters t i)"
  "unused (abs_registry t) = next_id t"
  by (simp_all add: abs_registry_def)

lemma registry_eqI: "entries r = entries s \<Longrightarrow> unused r = unused s \<Longrightarrow> r = (s :: registry)"
  by simp

lemma held_abs: "held (abs_registry t) i a \<longleftrightarrow> clusters t i = Some a"
  by (auto simp: held_def)

lemma abs_cong:
  "clusters t' = clusters t \<Longrightarrow> at_default 0 (updateTime t') = at_default 0 (updateTime t) \<Longrightarrow> next_id t' = next_id t \<Longrightarrow>
     abs_registry t' = abs_registry t"
  by (simp add: abs_registry_def)

lemma abs_isOld: "isOld now i t = (old, t') \<Longrightarrow>
   abs_registry t' = abs_registry t \<and> clusters t' = clusters t \<and> (old \<longleftrightarrow> at_default 0 (updateTime t) i + ENV_UPDATE_TIME < now)"
  by (auto simp: isOld_def less_diff_eq intro!: abs_cong)

lemma abs_registered:
  "abs_registry (registered i a now t) = (abs_registry t)\<lparr>entries := (entries (abs_registry t))(i \<mapsto> (a, now))\<rparr>"
  by (auto simp: abs_registry_def fun_eq_iff at_default_def)

lemma abs_unregister:
  "abs_registry (unregister i t) = (abs_registry t)\<lparr>entries := (entries (abs_registry t))(i := None)\<rparr>"
  by (auto simp: abs_registry_def fun_eq_iff)

lemma ID_refines:
  assumes wf: "tracker_wf t" and ks: "iterates ks (clusters t)" and clk: "\<forall>k. lo \<le> clock k \<and> clock k \<le> hi"
    and c: "tracker_ID junk clock (findByValue ks a t) a is t = (t', out)"
  shows "\<exists>ans. reg_step a lo hi (if fst (get_unsigned junk is) = 0 then Reserve else Announce (fst (get_unsigned junk is)))
      (abs_registry t) ans (abs_registry t') \<and> carries a ans out"
proof -
  let ?i = "fst (get_unsigned junk is)" and ?c = "findByValue ks a t"
  have now: "lo \<le> clock 0" "clock 0 \<le> hi" using clk by simp_all
  have holds: "clusters t j = Some a \<longleftrightarrow> j = ?c \<and> ?c \<noteq> 0" for j
    using findByValue_eq [OF wf ks, where v = a] tracker_wf_0 [OF wf] by (auto simp: ran_def)
  consider (new) "?i = 0" "?c = 0" | (again) "?i = 0" "?c \<noteq> 0" | (own) "?i \<noteq> 0" by blast
  then show ?thesis
  proof cases
    case new
    then have t': "t' = registered (next_id t) a (clock 0) (t\<lparr>next_id := next_id t + 1\<rparr>)"
        "out = [(a, ''RUN '' @ show_word (next_id t) @ [NUL])]"
      using c by (simp_all add: tracker_ID_new)
    have "abs_registry t' = (abs_registry t)\<lparr>entries := (entries (abs_registry t))(next_id t \<mapsto> (a, clock 0)),
        unused := next_id t + 1\<rparr>"
      unfolding t'(1) abs_registered by (simp add: abs_registry_def)
    moreover have "\<forall>j. \<not> held (abs_registry t) j a" using holds new(2) by (simp add: held_abs)
    ultimately show ?thesis
      using new(1) now t'(2) by (auto simp: reserve_simp carries_def sendCommand_def)
  next
    case again
    then have t': "t' = t\<lparr>updateTime := (updateTime t)(?c \<mapsto> clock 0)\<rparr>" "out = [(a, ''RUN '' @ show_word ?c @ [NUL])]"
      using c by (simp_all add: tracker_ID_known)
    have h: "clusters t ?c = Some a" using holds again(2) by blast
    then have "t' = registered ?c a (clock 0) t"
      unfolding t'(1) registered_def by (simp add: fun_upd_idem)
    then have "abs_registry t' = (abs_registry t)\<lparr>entries := (entries (abs_registry t))(?c \<mapsto> (a, clock 0))\<rparr>"
      by (simp add: abs_registered)
    then show ?thesis
      using again(1) now t'(2) h by (intro exI [of _ "Reserved ?c"]) (auto simp: reserve_simp held_abs carries_def sendCommand_def)
  next
    case own
    let ?u = "if ?i \<noteq> ?c then unregister ?c t else t"
    have t': "t' = registered ?i a (clock 0) ?u" "out = []"
      using c own by (simp_all add: tracker_ID_own split: if_splits)
    have "entries (abs_registry ?u) j = (if held (abs_registry t) j a then None else entries (abs_registry t) j)" if "j \<noteq> ?i" for j
      using that holds [of j] wf by (auto simp: held_abs abs_unregister tracker_wf_def)
    then have "(entries (abs_registry ?u))(?i \<mapsto> (a, clock 0)) =
        (\<lambda>j. if held (abs_registry t) j a then None else entries (abs_registry t) j)(?i \<mapsto> (a, clock 0))"
      by auto
    moreover have "unused (abs_registry ?u) = unused (abs_registry t)" by simp
    ultimately have "abs_registry t' = (abs_registry t)\<lparr>entries :=
        (\<lambda>j. if held (abs_registry t) j a then None else entries (abs_registry t) j)(?i \<mapsto> (a, clock 0))\<rparr>"
      unfolding t'(1) abs_registered by (intro registry_eqI) simp_all
    then show ?thesis using own now t'(2) by (auto simp: announce_simp carries_def)
  qed
qed

lemma GET_refines:
  assumes clk: "\<forall>k. lo \<le> clock k \<and> clock k \<le> hi" and c: "tracker_GET junk clock a is t = (t', out)"
  shows "\<exists>ans. reg_step a lo hi (Lookup (fst (get_unsigned junk is))) (abs_registry t) ans (abs_registry t') \<and> carries a ans out"
proof (cases "clusters t (fst (get_unsigned junk is))")
  case None
  then show ?thesis using c by (auto simp: tracker_GET_def Let_def lookup_simp carries_def)
next
  case (Some b)
  let ?i = "fst (get_unsigned junk is)" and ?u = "at_default 0 (updateTime t) (fst (get_unsigned junk is))"
  obtain old t1 where o: "isOld (clock 0) ?i t = (old, t1)" by fastforce
  note t1 = abs_isOld [OF o]
  have e: "entries (abs_registry t) ?i = Some (b, ?u)" using Some by simp
  have now: "lo \<le> clock 0" "clock 0 \<le> hi" using clk by simp_all
  consider (current) "\<not> old" | (forgotten) "old" "?i > RESERVED_CLUSTER_ID" | (kept) "old" "\<not> ?i > RESERVED_CLUSTER_ID" by blast
  then show ?thesis
  proof cases
    case current
    then have "lo \<le> ?u + ENV_UPDATE_TIME" using t1 now by auto
    then show ?thesis
      using c Some o current t1 e by (intro exI [of _ "At ?i b"]) (auto simp: tracker_GET_def Let_def lookup_simp carries_def)
  next
    case forgotten
    then have "t' = unregister ?i t1" "out = sendCommand a (''DROP '' @ show_word ?i)"
      using c Some o by (auto simp: tracker_GET_def Let_def unregister_def)
    moreover have "?u + ENV_UPDATE_TIME < hi" using t1 now forgotten(1) by auto
    ultimately show ?thesis
      using forgotten(2) t1 e by (intro exI [of _ "Gone ?i"]) (auto simp: abs_unregister lookup_simp carries_def)
  next
    case kept
    then have "t' = t1" "out = []"
      using c Some o by (auto simp: tracker_GET_def Let_def sendCommand_def)
    moreover have "?u + ENV_UPDATE_TIME < hi" using t1 now kept(1) by auto
    ultimately show ?thesis
      using kept(2) t1 e by (intro exI [of _ Silence]) (auto simp: lookup_simp carries_def not_less)
  qed
qed

text \<open>The ids \<open>LIST\<close> prints.\<close>

definition listed_ids :: "(nat \<Rightarrow> Time) \<Rightarrow> ClusterID list \<Rightarrow> tracker \<Rightarrow> ClusterID list" where
  "listed_ids clock ks t =
    map snd (filter (\<lambda>(k, i). clock k - ENV_UPDATE_TIME \<le> at_default 0 (updateTime t) i) (enumerate 0 ks))"

lemma listed_ids:
  assumes ks: "iterates ks (clusters t)" and clk: "\<forall>k. lo \<le> clock k \<and> clock k \<le> hi"
  shows "distinct (listed_ids clock ks t)"
    and "renewed_since (abs_registry t) (hi - ENV_UPDATE_TIME) \<subseteq> set (listed_ids clock ks t)"
    and "set (listed_ids clock ks t) \<subseteq> renewed_since (abs_registry t) (lo - ENV_UPDATE_TIME)"
proof -
  have d: "distinct ks" "set ks = dom (clusters t)" using ks by (simp_all add: iterates_def)
  show "distinct (listed_ids clock ks t)"
    unfolding listed_ids_def using d(1) by (intro distinct_map_filter) simp
  have on: "i \<in> set (listed_ids clock ks t) \<longleftrightarrow>
      (\<exists>k < length ks. ks ! k = i \<and> clock k - ENV_UPDATE_TIME \<le> at_default 0 (updateTime t) i)" for i
    by (auto simp: listed_ids_def in_set_enumerate_eq image_iff)
  show "renewed_since (abs_registry t) (hi - ENV_UPDATE_TIME) \<subseteq> set (listed_ids clock ks t)"
  proof
    fix i assume "i \<in> renewed_since (abs_registry t) (hi - ENV_UPDATE_TIME)"
    then have i: "i \<in> dom (clusters t)" "hi - ENV_UPDATE_TIME \<le> at_default 0 (updateTime t) i"
      by (auto simp: renewed_since_def)
    then obtain k where "k < length ks" "ks ! k = i" using d(2) by (metis in_set_conv_nth)
    moreover have "clock k - ENV_UPDATE_TIME \<le> hi - ENV_UPDATE_TIME" using clk by simp
    ultimately show "i \<in> set (listed_ids clock ks t)" using i(2) on order.trans by blast
  qed
  show "set (listed_ids clock ks t) \<subseteq> renewed_since (abs_registry t) (lo - ENV_UPDATE_TIME)"
  proof
    fix i assume "i \<in> set (listed_ids clock ks t)"
    then obtain k where k: "k < length ks" "ks ! k = i" "clock k - ENV_UPDATE_TIME \<le> at_default 0 (updateTime t) i"
      using on by blast
    then obtain a where "clusters t i = Some a" using d(2) by (metis domD nth_mem)
    moreover have "lo - ENV_UPDATE_TIME \<le> clock k - ENV_UPDATE_TIME" using clk by simp
    ultimately show "i \<in> renewed_since (abs_registry t) (lo - ENV_UPDATE_TIME)"
      using k(3) by (auto simp: renewed_since_def)
  qed
qed

lemma LIST_refines:
  assumes ks: "iterates ks (clusters t)" and clk: "\<forall>k. lo \<le> clock k \<and> clock k \<le> hi"
    and c: "tracker_LIST clock ks a t = (t', out)"
  shows "\<exists>ans. reg_step a lo hi Enumerate (abs_registry t) ans (abs_registry t') \<and> carries a ans out"
proof -
  obtain t1 where f: "fold (list_one clock) (enumerate 0 ks) (t, []) = (t1, list_reply clock ks t)"
      "clusters t1 = clusters t" "at_default 0 (updateTime t1) = at_default 0 (updateTime t)" "next_id t1 = next_id t"
    using fold_list_one [of clock "enumerate 0 ks" t "[]"] tracker_LIST_shrinks [of t clock ks a]
    by (fastforce simp: list_reply_def tracker_LIST_def shrinks_def)
  then have "t' = t1" "out = sendCommand a (list_reply clock ks t)" using c by (simp_all add: tracker_LIST_def)
  moreover have "list_reply clock ks t = concat (map (\<lambda>i. show_word i @ '' '') (listed_ids clock ks t))"
    by (simp add: list_reply_def listed_ids_def comp_def case_prod_unfold)
  ultimately have "carries a (Listed (set (listed_ids clock ks t))) out" "abs_registry t' = abs_registry t"
    using listed_ids(1) [OF ks clk] f(2-4) by (auto simp: carries_def intro!: abs_cong)
  then show ?thesis using listed_ids(2,3) [OF ks clk] by (auto simp: enumerate_simp)
qed

lemma command_refines:
  assumes "tracker_wf t" and "iterates ks (clusters t)" and "\<forall>k. lo \<le> clock k \<and> clock k \<le> hi"
    and c: "tracker_command junk clock ks a buff t = (t', out)"
  shows "\<exists>ans. reg_step a lo hi (request_of junk buff) (abs_registry t) ans (abs_registry t') \<and> carries a ans out"
proof -
  obtain w "is" where w: "get_word [] (istringstream buff) = (w, is)" by fastforce
  consider (ID) "w = ''ID''" | (GET) "w = ''GET''" | (LIST) "w = ''LIST''" | (rest) "w \<notin> {''ID'', ''GET'', ''LIST''}" by blast
  then show ?thesis
  proof cases
    case ID
    then show ?thesis
      using ID_refines [OF assms(1-3)] c w by (simp add: tracker_command_def request_of_def Let_def)
  next
    case GET
    then show ?thesis
      using GET_refines [OF assms(3)] c w by (simp add: tracker_command_def request_of_def Let_def)
  next
    case LIST
    then show ?thesis
      using LIST_refines [OF assms(2,3)] c w by (simp add: tracker_command_def request_of_def Let_def)
  next
    case rest
    then show ?thesis
      using c w by (auto simp: tracker_command_def request_of_def Let_def remark_simp carries_def)
  qed
qed

section \<open>Runs\<close>

text \<open>What happened in one turn of the loop: who asked when for what, and what was answered.\<close>

record 'm event =
  who :: sockaddr
  earliest :: Time
  latest :: Time
  asked :: request
  told :: 'm

inductive reg_run :: "answer event list \<Rightarrow> registry \<Rightarrow> bool" where
  reg_start: "reg_run [] \<lparr>entries = Map.empty, unused = RESERVED_CLUSTER_ID + 1\<rparr>"
| reg_turn: "reg_run h r \<Longrightarrow> reg_step (who e) (earliest e) (latest e) (asked e) r (told e) r' \<Longrightarrow> reg_run (h @ [e]) r'"

text \<open>The message a turn of the tracker's loop handles, if any.\<close>

definition handled :: "char select_call \<Rightarrow> sockaddr \<Rightarrow> string \<Rightarrow> (sockaddr \<times> string) option" where
  "handled s from0 buff =
    (case ReadSelect (TRACKER_BUFF - 1) s buff from0 of
       (ret, buff1, from) \<Rightarrow> if ret = 0 then None else Some (from, c_string (buff1[TRACKER_BUFF - 1 := NUL])))"

definition event_of :: "ClusterID \<Rightarrow> Time \<Rightarrow> Time \<Rightarrow> (sockaddr \<times> string) option \<Rightarrow> datagram list \<Rightarrow> datagram list event list" where
  "event_of junk lo hi m out =
    (case m of None \<Rightarrow> [] | Some (from, msg) \<Rightarrow>
       [\<lparr>who = from, earliest = lo, latest = hi, asked = request_of junk msg, told = out\<rparr>])"

inductive tracker_run :: "nat \<Rightarrow> datagram list event list \<Rightarrow> tracker \<times> string \<Rightarrow> bool" where
  run_start: "length buff = TRACKER_BUFF \<Longrightarrow> tracker_run 0 [] (Tracker_init, buff)"
| run_turn: "tracker_run n h (t, buff) \<Longrightarrow> iterates ks (clusters t) \<Longrightarrow> \<forall>k. lo \<le> clock k \<and> clock k \<le> hi \<Longrightarrow>
     tracker_round junk clock ks s from0 (t, buff) = (st, out) \<Longrightarrow>
     tracker_run (Suc n) (h @ event_of junk lo hi (handled s from0 buff) out) st"

lemma tracker_run_reaches: "tracker_run n h st \<Longrightarrow> tracker_reaches n st"
  by (induction rule: tracker_run.induct) (auto intro: tracker_reaches.intros)

lemma round_handled:
  assumes "tracker_round junk clock ks s from0 (t, buff) = ((t', buff'), out)"
  shows "case handled s from0 buff of None \<Rightarrow> t' = t \<and> out = []
    | Some (a, msg) \<Rightarrow> tracker_command junk clock ks a msg t = (t', out)"
  using assms by (auto simp: tracker_round_def handled_def Let_def TRACKER_BUFF_def split: prod.splits if_splits)

definition same_event :: "answer event \<Rightarrow> datagram list event \<Rightarrow> bool" where
  "same_event e f \<longleftrightarrow> who f = who e \<and> earliest f = earliest e \<and> latest f = latest e \<and> asked f = asked e \<and>
     carries (who e) (told e) (told f)"

lemma run_refines:
  "tracker_run n h st \<Longrightarrow> n + 1025 < 2 ^ 32 \<Longrightarrow> \<exists>h'. reg_run h' (abs_registry (fst st)) \<and> list_all2 same_event h' h"
proof (induction rule: tracker_run.induct)
  case (run_start buff)
  have "abs_registry Tracker_init = \<lparr>entries = Map.empty, unused = RESERVED_CLUSTER_ID + 1\<rparr>"
    by (simp add: abs_registry_def Tracker_init_def fun_eq_iff)
  then show ?case by (auto intro: reg_run.reg_start)
next
  case (run_turn n h t buff ks lo clock hi junk s from0 st out)
  obtain h' where h': "reg_run h' (abs_registry t)" "list_all2 same_event h' h" using run_turn by auto
  have wf: "tracker_wf t"
    using tracker_reaches_wf [OF tracker_run_reaches [OF run_turn.hyps(1)]] run_turn.prems by simp
  obtain t' buff' where st: "st = (t', buff')" by (cases st)
  note r = round_handled [OF run_turn.hyps(4) [unfolded st]]
  show ?case
  proof (cases "handled s from0 buff")
    case None
    then show ?thesis using r h' by (auto simp: st event_of_def)
  next
    case (Some m)
    obtain a msg where m: "m = (a, msg)" by (cases m)
    have c: "tracker_command junk clock ks a msg t = (t', out)" using r Some m by simp
    obtain ans where ans: "reg_step a lo hi (request_of junk msg) (abs_registry t) ans (abs_registry t')" "carries a ans out"
      using command_refines [OF wf run_turn.hyps(2,3) c] by blast
    let ?e = "\<lparr>who = a, earliest = lo, latest = hi, asked = request_of junk msg, told = ans\<rparr>"
    have "reg_run (h' @ [?e]) (abs_registry t')" using h'(1) ans(1) by (auto intro: reg_run.reg_turn)
    moreover have "list_all2 same_event (h' @ [?e]) (h @ event_of junk lo hi (handled s from0 buff) out)"
      using h'(2) ans(2) by (auto simp: Some m event_of_def same_event_def intro!: list_all2_appendI)
    ultimately show ?thesis by (auto simp: st)
  qed
qed

section \<open>Who is told an id\<close>

definition announced :: "'m event list \<Rightarrow> sockaddr \<Rightarrow> ClusterID \<Rightarrow> bool" where
  "announced h a i \<longleftrightarrow> (\<exists>e \<in> set h. who e = a \<and> asked e = Announce i)"

text \<open>The ids the registry gave out itself have one owner each.\<close>

definition owned :: "(ClusterID \<Rightarrow> sockaddr) \<Rightarrow> answer event list \<Rightarrow> registry \<Rightarrow> bool" where
  "owned owner h r \<longleftrightarrow>
    (\<forall>e \<in> set h. \<forall>i. told e = Reserved i \<longrightarrow> owner i = who e \<and> i < unused r \<or> announced h (who e) i) \<and>
    (\<forall>i a. held r i a \<longrightarrow> owner i = a \<and> i < unused r \<or> announced h a i)"

lemma announced_append: "announced (h @ [e]) a i \<longleftrightarrow> announced h a i \<or> who e = a \<and> asked e = Announce i"
  by (auto simp: announced_def)

lemma owned_told:
  "owned owner h r \<Longrightarrow> e \<in> set h \<Longrightarrow> told e = Reserved i \<Longrightarrow> owner i = who e \<and> i < unused r \<or> announced h (who e) i"
  by (simp add: owned_def)

lemma owned_held: "owned owner h r \<Longrightarrow> held r i a \<Longrightarrow> owner i = a \<and> i < unused r \<or> announced h a i"
  by (simp add: owned_def)

lemma ownedI:
  assumes o: "owned owner h r" and "unused r' = unused r"
    and "\<And>i a. held r' i a \<Longrightarrow> held r i a \<or> announced (h @ [e]) a i"
    and "\<And>i. told e = Reserved i \<Longrightarrow> held r i (who e)"
  shows "owned owner (h @ [e]) r'"
  using assms owned_held [OF o] owned_told [OF o] unfolding owned_def announced_append
  by (metis in_set_conv_decomp_last rotate1.simps(2) set_ConsD set_rotate1)

lemma owned_new:
  assumes o: "owned owner h r" and no_wrap: "unused r < unused r + 1"
    and "told e = Reserved (unused r)"
  shows "owned (owner(unused r := who e)) (h @ [e]) (r\<lparr>entries := (entries r)(unused r \<mapsto> (who e, now)), unused := unused r + 1\<rparr>)"
proof -
  have above: "i < unused r + 1 \<and> i \<noteq> unused r" if "i < unused r" for i using that no_wrap by auto
  have "(owner(unused r := who e)) i = who f \<and> i < unused r + 1 \<or> announced (h @ [e]) (who f) i"
    if "f \<in> set (h @ [e])" "told f = Reserved i" for f i
    using that assms(3) owned_told [OF o] above no_wrap by (auto simp: announced_append)
  moreover have "(owner(unused r := who e)) i = a \<and> i < unused r + 1 \<or> announced (h @ [e]) a i"
    if "held (r\<lparr>entries := (entries r)(unused r \<mapsto> (who e, now)), unused := unused r + 1\<rparr>) i a" for i a
    using that owned_held [OF o, of i a] above no_wrap
    by (auto simp: held_def announced_append split: if_splits)
  ultimately show ?thesis by (simp add: owned_def)
qed

lemma reg_run_owned:
  "reg_run h r \<Longrightarrow> length h + 1025 < 2 ^ 32 \<Longrightarrow> unat (unused r) \<le> 1025 + length h \<and> (\<exists>owner. owned owner h r)"
proof (induction rule: reg_run.induct)
  case reg_start
  then show ?case by (simp add: owned_def held_def RESERVED_CLUSTER_ID_def)
next
  case (reg_turn h r e r')
  then obtain owner where n: "unat (unused r) \<le> 1025 + length h" and o: "owned owner h r" by auto
  have up: "unat (unused r + 1) = unat (unused r) + 1"
    using n reg_turn.prems by (simp add: unat_word_ariths)
  then have no_wrap: "unused r < unused r + 1" by (simp add: word_less_nat_alt)
  from reg_turn.hyps(2) show ?case
  proof cases
    case (reserve_new now)
    then show ?thesis using owned_new [OF o no_wrap] up n by auto
  next
    case (reserve_again i now)
    then have "owned owner (h @ [e]) r'" by (intro ownedI [OF o]) (auto simp: held_def split: if_splits)
    then show ?thesis using n reserve_again by auto
  next
    case (announce i now)
    then have "owned owner (h @ [e]) r'"
      by (intro ownedI [OF o]) (auto simp: held_def announced_append split: if_splits)
    then show ?thesis using n announce by auto
  next
    case (lookup_old i b u)
    then have "owned owner (h @ [e]) r'" by (intro ownedI [OF o]) (auto simp: held_def split: if_splits)
    then show ?thesis using n lookup_old by auto
  qed (use n in \<open>auto intro!: exI [of _ owner] ownedI [OF o]\<close>)
qed

section \<open>Who is found\<close>

lemma reg_run_last: "reg_run (h @ [e]) r' \<Longrightarrow> \<exists>r. reg_run h r \<and> reg_step (who e) (earliest e) (latest e) (asked e) r (told e) r'"
  by (erule reg_run.cases) auto

text \<open>
  An event that takes the id \<open>i\<close> from the server at \<open>a\<close>: another server announces it or is told it, or \<open>a\<close> itself
  announces another one.
\<close>

definition takes_away :: "('m event \<Rightarrow> bool) \<Rightarrow> sockaddr \<Rightarrow> ClusterID \<Rightarrow> 'm event \<Rightarrow> bool" where
  "takes_away given a i e \<longleftrightarrow>
    (if who e = a then \<exists>j. j \<noteq> i \<and> asked e = Announce j else asked e = Announce i \<or> given e)"

lemma held_stays:
  assumes "reg_step (who g) (earliest g) (latest g) (asked g) r (told g) r'"
    and "entries r i = Some (a, u)" and "lo \<le> u" and "lo \<le> earliest g" and "latest g \<le> lo + ENV_UPDATE_TIME"
    and "\<not> takes_away (\<lambda>e. told e = Reserved i) a i g"
  shows "\<exists>u. entries r' i = Some (a, u) \<and> lo \<le> u"
  using assms(1)
proof cases
  case (reserve_new now)
  have "who g \<noteq> a" using reserve_new assms(2) by (auto simp: held_def)
  then have "unused r \<noteq> i" using assms(6) reserve_new by (auto simp: takes_away_def split: if_splits)
  then show ?thesis using assms(2,3) reserve_new by auto
next
  case (reserve_again j now)
  have "j = i \<Longrightarrow> who g = a" using assms(2) reserve_again by (auto simp: held_def)
  then show ?thesis using assms(2-4) reserve_again by auto
next
  case (announce j now)
  then consider "j = i" "who g = a" | "j \<noteq> i" "who g \<noteq> a" using assms(6) by (auto simp: takes_away_def split: if_splits)
  then show ?thesis
    using assms(2-4) announce by cases (auto simp: held_def)
next
  case (lookup_old j b v)
  then have "j \<noteq> i" using assms(2,3,5) by auto
  then show ?thesis using assms(2,3) lookup_old by auto
qed (use assms(2,3) in auto)

lemma found_after:
  assumes "reg_run (h1 @ f # h2) r" and "who f = a" and "asked f = Announce i \<or> told f = Reserved i"
    and "\<forall>g \<in> set h2. earliest f \<le> earliest g \<and> latest g \<le> earliest f + ENV_UPDATE_TIME \<and>
      \<not> takes_away (\<lambda>e. told e = Reserved i) a i g"
  shows "\<exists>u. entries r i = Some (a, u) \<and> earliest f \<le> u"
  using assms(1,4)
proof (induction h2 arbitrary: r rule: rev_induct)
  case Nil
  then obtain r0 where "reg_step (who f) (earliest f) (latest f) (asked f) r0 (told f) r"
    using reg_run_last [of h1 f r] by auto
  then show ?case using assms(2,3) by cases (auto simp: held_def)
next
  case (snoc g h2)
  obtain r0 where r0: "reg_run (h1 @ f # h2) r0" "reg_step (who g) (earliest g) (latest g) (asked g) r0 (told g) r"
    using reg_run_last [of "h1 @ f # h2" g r] snoc.prems(1) by auto
  then obtain u where "entries r0 i = Some (a, u)" "earliest f \<le> u" using snoc by auto
  then show ?case using held_stays [OF r0(2)] snoc.prems(2) by auto
qed

lemma lookup_found:
  assumes "reg_run (h1 @ f # h2 @ [e]) r" and "who f = a" and "asked f = Announce i \<or> told f = Reserved i"
    and "\<forall>g \<in> set h2. earliest f \<le> earliest g \<and> latest g \<le> earliest f + ENV_UPDATE_TIME \<and>
      \<not> takes_away (\<lambda>e. told e = Reserved i) a i g"
    and "asked e = Lookup i" and "latest e \<le> earliest f + ENV_UPDATE_TIME"
  shows "told e = At i a"
proof -
  obtain r0 where r0: "reg_run (h1 @ f # h2) r0" "reg_step (who e) (earliest e) (latest e) (asked e) r0 (told e) r"
    using reg_run_last [of "h1 @ f # h2" e r] assms(1) by auto
  obtain u where "entries r0 i = Some (a, u)" "earliest f \<le> u" using found_after [OF r0(1) assms(2-4)] by auto
  then show ?thesis using r0(2) assms(6) unfolding assms(5) lookup_simp by auto
qed

lemma related_events:
  assumes "list_all2 R h' h"
  shows "e \<in> set h \<Longrightarrow> \<exists>e' \<in> set h'. R e' e" and "e' \<in> set h' \<Longrightarrow> \<exists>e \<in> set h. R e' e"
  using assms by (induction rule: list_all2_induct) auto

section \<open>Answers as they are sent\<close>

lemma show_word_inj: "show_word (i :: 'a::len word) = show_word j \<longleftrightarrow> i = j"
  by (metis digits_value_show_nat show_word_def word_unat_eq_iff)

lemma carries_RUN:
  assumes "carries a ans [(a, ''RUN '' @ show_word i @ [NUL])]"
  shows "ans = Reserved i"
proof (cases ans)
  case (Listed S)
  then have "\<exists>is. [(a, ''RUN '' @ show_word i @ [NUL])] = sendCommand a (concat (map (\<lambda>i :: ClusterID. show_word i @ '' '') is))"
    using assms by (simp add: carries_def) blast
  then obtain "is" where e: "[(a, ''RUN '' @ show_word i @ [NUL])] = sendCommand a (concat (map (\<lambda>i :: ClusterID. show_word i @ '' '') is))" ..
  then show ?thesis
  proof (cases "is")
    case Nil
    then show ?thesis using e by (simp add: sendCommand_def)
  next
    case (Cons j js)
    have "hd (show_word j) = CHR ''R''" using e Cons
      by (cases "show_nat (unat j)") (auto simp: sendCommand_def show_word_def split: if_splits)
    moreover have "is_digit (hd (show_word j))" by (simp add: show_word_def hd_show_nat)
    ultimately show ?thesis by (simp add: is_digit_def less_eq_char_def)
  qed
qed (use assms in \<open>auto simp: carries_def sendCommand_def show_word_inj\<close>)

lemma run_length: "tracker_run n h st \<Longrightarrow> length (snd st) = TRACKER_BUFF \<and> length h \<le> n"
proof (induction rule: tracker_run.induct)
  case (run_turn n h t buff ks lo clock hi junk s from0 st out)
  have "length (snd st) = TRACKER_BUFF"
    using run_turn by (auto simp: tracker_round_def Let_def ReadSelect_def split: prod.splits if_splits select_call.splits recv_call.splits)
  moreover have "length (event_of junk lo hi (handled s from0 buff) out) \<le> 1"
    by (simp add: event_of_def split: option.split prod.split)
  ultimately show ?case using run_turn by auto
qed simp

text \<open>A turn that receives a message.\<close>

lemma run_message:
  assumes "tracker_run n h (t, buff)" and "iterates ks (clusters t)" and "\<forall>k. lo \<le> clock k \<and> clock k \<le> hi"
    and "NUL \<notin> set msg" and "length msg < TRACKER_BUFF - 1" and "tracker_command junk clock ks a msg t = (t', out)"
  shows "\<exists>buff'. tracker_run (Suc n) (h @ [\<lparr>who = a, earliest = lo, latest = hi, asked = request_of junk msg, told = out\<rparr>]) (t', buff')"
proof -
  let ?s = "SelectReady (Received (msg @ [NUL]) a)"
  have len: "length buff = TRACKER_BUFF" using run_length [OF assms(1)] by simp
  have "store 1023 (msg @ [NUL]) buff = msg @ NUL # drop (Suc (length msg)) buff"
    using assms(5) len by (simp add: store_def TRACKER_BUFF_def)
  then have "handled ?s a buff = Some (a, msg)"
    using assms(4,5) len by (simp add: handled_def ReadSelect_def TRACKER_BUFF_def list_update_append c_string_message split: nat.splits)
  then show ?thesis
    using tracker_run.run_turn [OF assms(1-3), of junk ?s a] tracker_round_message [OF assms(4,5) len, of junk clock ks a a t] assms(6)
    by (auto simp: event_of_def)
qed

text \<open>Examples: a server asks for an id; another one announces that id and asks, too.\<close>

definition other_addr :: sockaddr where
  "other_addr = example_addr\<lparr>sin_port := 9001\<rparr>"

lemma request_text: "show_word (0 :: ClusterID) = ''0''" "length (show_word (1025 :: ClusterID)) = 4"
  "NUL \<notin> set (show_word (1025 :: ClusterID))"
  by (simp_all add: show_word_def show_nat.simps char_of_def bit_0)

lemma request_of_ID: "request_of junk (''ID '' @ show_word i) = (if i = 0 then Reserve else Announce i)"
proof -
  have "get_word [] (istringstream (''ID'' @ '' '' @ show_word i)) =
      (''ID'', \<lparr>inp = '' '' @ show_word i, eofbit = False, failbit = False\<rparr>)"
    using command_word [of "''ID''" "'' '' @ show_word i"] by (simp add: plain_word_def is_space_def less_eq_char_def)
  moreover have "fst (get_unsigned junk \<lparr>inp = '' '' @ show_word i, eofbit = False, failbit = False\<rparr>) = i"
    by (simp add: unsigned_field.get_last)
  ultimately show ?thesis by (simp add: request_of_def)
qed

lemma request_of_GET: "request_of junk (''GET '' @ show_word i) = Lookup i"
proof -
  have "get_word [] (istringstream (''GET'' @ '' '' @ show_word i)) =
      (''GET'', \<lparr>inp = '' '' @ show_word i, eofbit = False, failbit = False\<rparr>)"
    using command_word [of "''GET''" "'' '' @ show_word i"] by (simp add: plain_word_def is_space_def less_eq_char_def)
  moreover have "fst (get_unsigned junk \<lparr>inp = '' '' @ show_word i, eofbit = False, failbit = False\<rparr>) = i"
    by (simp add: unsigned_field.get_last)
  ultimately show ?thesis by (simp add: request_of_def)
qed

lemma one_request:
  "\<exists>buff. tracker_run 1 [\<lparr>who = a, earliest = u, latest = u, asked = Reserve, told = [(a, ''RUN '' @ show_word (1025 :: ClusterID) @ [NUL])]\<rparr>]
    (registered 1025 a u (Tracker_init\<lparr>next_id := 1026\<rparr>), buff)"
proof -
  let ?m = "''ID '' @ show_word (0 :: ClusterID)"
  have "tracker_command 0 (\<lambda>k. u) [] a ?m Tracker_init =
      (registered 1025 a u (Tracker_init\<lparr>next_id := 1026\<rparr>), [(a, ''RUN '' @ show_word (1025 :: ClusterID) @ [NUL])])"
    unfolding tracker_command_ID by (simp add: findByValue_def Tracker_init_def RESERVED_CLUSTER_ID_def)
  from run_message [OF tracker_run.run_start [of "replicate 1024 NUL"] init_tracker_wf(2) _ _ _ this, of u u] show ?thesis
    unfolding request_of_ID by (simp add: TRACKER_BUFF_def request_text)
qed

lemma three_requests:
  "\<exists>t buff e f g. tracker_run 3 [e, f, g] (t, buff) \<and>
     told e = [(other_addr, ''RUN '' @ show_word (1025 :: ClusterID) @ [NUL])] \<and> who e = other_addr \<and>
     told g = [(example_addr, ''RUN '' @ show_word (1025 :: ClusterID) @ [NUL])] \<and> who g = example_addr"
proof -
  let ?m = "''ID '' @ show_word (1025 :: ClusterID)" and ?m' = "''ID '' @ show_word (0 :: ClusterID)"
  let ?t1 = "registered 1025 other_addr 5 (Tracker_init\<lparr>next_id := 1026\<rparr>)"
  let ?t2 = "registered 1025 example_addr 6 (unregister 0 ?t1)"
  have ks: "iterates [1025] (clusters ?t1)" "iterates [1025] (clusters ?t2)"
    by (auto simp: iterates_def Tracker_init_def)
  have find: "findByValue [1025] example_addr ?t1 = 0" "findByValue [1025] example_addr ?t2 = 1025"
    by (simp_all add: findByValue_def other_addr_def example_addr_def)
  have 2: "tracker_command 0 (\<lambda>k. 6) [1025] example_addr ?m ?t1 = (?t2, [])"
    unfolding tracker_command_ID find by simp
  obtain t3 where 3: "tracker_command 0 (\<lambda>k. 7) [1025] example_addr ?m' ?t2 =
      (t3, [(example_addr, ''RUN '' @ show_word (1025 :: ClusterID) @ [NUL])])"
    unfolding tracker_command_ID find by simp
  obtain b1 where "tracker_run 1 [\<lparr>who = other_addr, earliest = 5, latest = 5, asked = Reserve,
      told = [(other_addr, ''RUN '' @ show_word (1025 :: ClusterID) @ [NUL])]\<rparr>] (?t1, b1)"
    using one_request by blast
  from run_message [OF this ks(1) _ _ _ 2, of 6 6] obtain b2 where
    "tracker_run 2 [\<lparr>who = other_addr, earliest = 5, latest = 5, asked = Reserve,
      told = [(other_addr, ''RUN '' @ show_word (1025 :: ClusterID) @ [NUL])]\<rparr>,
      \<lparr>who = example_addr, earliest = 6, latest = 6, asked = request_of 0 ?m, told = []\<rparr>] (?t2, b2)"
    by (auto simp: TRACKER_BUFF_def request_text numeral_2_eq_2)
  from run_message [OF this ks(2) _ _ _ 3, of 7 7] show ?thesis
    by (fastforce simp: TRACKER_BUFF_def request_text numeral_3_eq_3)
qed

section \<open>Properties\<close>

text \<open>C6. The tracker is a registry.  Every run of its loop, whatever it receives and in whatever order the
  hash map is searched, errors of the socket included, is a run of the registry up to the wrap of the
  counter: the same requests from the same addresses at the same times, each answered by a
  datagram that carries the registry's answer, or by none where it has no answer.
\<close>

theorem tracker_refines_registry:
  assumes "tracker_run n h (t, buff)" and "n + 1025 < 2 ^ 32"
  shows "\<exists>h'. reg_run h' (abs_registry t) \<and> list_all2 same_event h' h"
  using run_refines [OF assms] by simp

theorem tracker_refines_registry_witness:
  "\<exists>h'. reg_run h' (abs_registry (registered 1025 example_addr 5 (Tracker_init\<lparr>next_id := 1026\<rparr>))) \<and> length h' = 1"
proof -
  obtain buff h where "tracker_run 1 h (registered 1025 example_addr 5 (Tracker_init\<lparr>next_id := 1026\<rparr>), buff)" "length h = 1"
    using one_request [of example_addr 5] by auto
  then show ?thesis using tracker_refines_registry [of 1] by (fastforce dest: list_all2_lengthD)
qed

text \<open>C8. Servers are found.  After a server has announced an id, or was given one, anybody who asks for that id
  is told the server's address, for \<open>ENV_UPDATE_TIME\<close> and whatever else the tracker is asked
  meanwhile, unless another server announces that id or is given it, or the server announces another.
\<close>

theorem tracker_finds_server:
  assumes "tracker_run n (h1 @ f # h2 @ [e]) (t, buff)" and "n + 1025 < 2 ^ 32" and "who f = a"
    and "asked f = Announce i \<or> told f = [(a, ''RUN '' @ show_word i @ [NUL])]"
    and "\<forall>g \<in> set h2. earliest f \<le> earliest g \<and> latest g \<le> earliest f + ENV_UPDATE_TIME \<and>
      \<not> takes_away (\<lambda>e. told e = [(who e, ''RUN '' @ show_word i @ [NUL])]) a i g"
    and "asked e = Lookup i" and "latest e \<le> earliest f + ENV_UPDATE_TIME"
  shows "told e = [(who e, ''POINT '' @ show_word i @ '' '' @ show_word (s_addr a) @ '' '' @ show_word (sin_port a) @ [NUL])]"
proof -
  obtain h' where "reg_run h' (abs_registry t)" "list_all2 same_event h' (h1 @ f # h2 @ [e])"
    using run_refines [OF assms(1,2)] by auto
  then obtain h1' f' h2' e' where r: "reg_run (h1' @ f' # h2' @ [e']) (abs_registry t)"
      and h: "same_event f' f" "list_all2 same_event h2' h2" "same_event e' e"
    by (auto simp: list_all2_append2 list_all2_Cons2)
  have "asked f' = Announce i \<or> told f' = Reserved i"
    using assms(3,4) h(1) carries_RUN [of "who f" "told f'" i] by (auto simp: same_event_def)
  moreover have "earliest f' \<le> earliest g' \<and> latest g' \<le> earliest f' + ENV_UPDATE_TIME \<and>
      \<not> takes_away (\<lambda>e. told e = Reserved i) a i g'" if in_h2: "g' \<in> set h2'" for g'
  proof -
    obtain g where g: "g \<in> set h2" "same_event g' g" using related_events(2) [OF h(2) in_h2] by blast
    then have "told g' = Reserved i \<Longrightarrow> told g = [(who g, ''RUN '' @ show_word i @ [NUL])]"
      by (simp add: same_event_def carries_def sendCommand_def)
    moreover have "\<not> takes_away (\<lambda>e. told e = [(who e, ''RUN '' @ show_word i @ [NUL])]) a i g" using assms(5) g(1) by blast
    ultimately have "\<not> takes_away (\<lambda>e. told e = Reserved i) a i g'"
      using g(2) by (auto simp: takes_away_def same_event_def split: if_splits)
    then show ?thesis using assms(5) g h(1) by (auto simp: same_event_def)
  qed
  ultimately have "told e' = At i a"
    using lookup_found [OF r, of a i] assms(3,6,7) h(1,3) by (auto simp: same_event_def)
  then show ?thesis using h(3) by (simp add: same_event_def carries_def sendCommand_def)
qed

theorem tracker_finds_server_witness:
  "\<exists>h st. tracker_run 2 h st \<and> length h = 2 \<and> told (last h) =
     [(other_addr, ''POINT '' @ show_word (1025 :: ClusterID) @ '' '' @ show_word (s_addr example_addr) @ '' '' @
       show_word (sin_port example_addr) @ [NUL])]"
proof -
  let ?f = "\<lparr>who = example_addr, earliest = 5, latest = 5, asked = Reserve, told = [(example_addr, ''RUN '' @ show_word (1025 :: ClusterID) @ [NUL])]\<rparr>"
  let ?t1 = "registered 1025 example_addr 5 (Tracker_init\<lparr>next_id := 1026\<rparr>)" and ?m = "''GET '' @ show_word (1025 :: ClusterID)"
  obtain b1 where 1: "tracker_run 1 [?f] (?t1, b1)" using one_request by blast
  obtain t2 out where 2: "tracker_command 0 (\<lambda>k. 6) [1025] other_addr ?m ?t1 = (t2, out)" by fastforce
  let ?e = "\<lparr>who = other_addr, earliest = 6, latest = 6, asked = request_of 0 ?m, told = out\<rparr>"
  have "iterates [1025] (clusters ?t1)" by (auto simp: iterates_def Tracker_init_def)
  from run_message [OF 1 this _ _ _ 2, of 6 6] obtain b2 where r: "tracker_run 2 ([] @ ?f # [] @ [?e]) (t2, b2)"
    by (auto simp: TRACKER_BUFF_def request_text numeral_2_eq_2)
  have "request_of 0 ?m = Lookup 1025" by (rule request_of_GET)
  then have "told ?e = [(who ?e, ''POINT '' @ show_word (1025 :: ClusterID) @ '' '' @ show_word (s_addr example_addr) @ '' '' @
      show_word (sin_port example_addr) @ [NUL])]"
    by (intro tracker_finds_server [OF r]) (simp_all add: ENV_UPDATE_TIME_def)
  then show ?thesis using r by (intro exI [of _ "[?f, ?e]"] exI [of _ "(t2, b2)"]) simp
qed

text \<open>C7. Ids are unique.  If two servers, at different addresses, are told to run under one id, one of them had
  announced that id itself: the tracker never chooses an id for two servers.
\<close>

theorem tracker_ids_unique:
  assumes "tracker_run n h (t, buff)" and "n + 1025 < 2 ^ 32" and "e \<in> set h" and "f \<in> set h" and "who e \<noteq> who f"
    and "told e = [(who e, ''RUN '' @ show_word i @ [NUL])]" and "told f = [(who f, ''RUN '' @ show_word i @ [NUL])]"
  shows "\<exists>g \<in> set h. asked g = Announce i \<and> who g \<in> {who e, who f}"
proof -
  obtain h' where h': "reg_run h' (abs_registry t)" "list_all2 same_event h' h"
    using run_refines [OF assms(1,2)] by auto
  have "length h' + 1025 < 2 ^ 32"
    using run_length [OF assms(1)] assms(2) list_all2_lengthD [OF h'(2)] by simp
  then obtain owner where o: "owned owner h' (abs_registry t)" using reg_run_owned [OF h'(1)] by blast
  have told: "\<exists>e' \<in> set h'. who e' = who e \<and> told e' = Reserved i"
    if m: "e \<in> set h" "told e = [(who e, ''RUN '' @ show_word i @ [NUL])]" for e
  proof -
    obtain e' where "e' \<in> set h'" "same_event e' e" using related_events(1) [OF h'(2) m(1)] by blast
    then show ?thesis using m(2) carries_RUN [of "who e" "told e'" i] by (auto simp: same_event_def)
  qed
  have "announced h' (who e) i \<or> announced h' (who f) i"
    using told [OF assms(3,6)] told [OF assms(4,7)] owned_told [OF o] assms(5) by metis
  then obtain g' where g': "g' \<in> set h'" "asked g' = Announce i" "who g' \<in> {who e, who f}" by (auto simp: announced_def)
  then obtain g where "g \<in> set h" "same_event g' g" using related_events(2) [OF h'(2) g'(1)] by blast
  then show ?thesis using g' by (auto simp: same_event_def)
qed

theorem tracker_ids_unique_witness:
  "\<exists>n h st. tracker_run n h st \<and> length h = 3 \<and> (\<exists>g \<in> set h. asked g = Announce 1025 \<and> who g \<in> {other_addr, example_addr})"
proof -
  let ?run = "[(example_addr, ''RUN '' @ show_word (1025 :: ClusterID) @ [NUL])]"
    and ?run' = "[(other_addr, ''RUN '' @ show_word (1025 :: ClusterID) @ [NUL])]"
  obtain t buff e f g where r: "tracker_run 3 [e, f, g] (t, buff)" and "told e = ?run'" "who e = other_addr"
      "told g = ?run" "who g = example_addr"
    using three_requests by auto
  moreover have "who e \<noteq> who g" using calculation by (simp add: other_addr_def example_addr_def)
  ultimately have "\<exists>x \<in> set [e, f, g]. asked x = Announce 1025 \<and> who x \<in> {who e, who g}"
    by (intro tracker_ids_unique [OF r]) simp_all
  then show ?thesis using r \<open>who e = other_addr\<close> \<open>who g = example_addr\<close>
    by (intro exI [of _ 3] exI [of _ "[e, f, g]"] exI [of _ "(t, buff)"]) simp
qed

end
