(* ===== verification/Tracker_Main.thy ===== *)
theory Tracker_Main
  imports Registry Server_Main
begin

text \<open>
  \<open>main\<close> of \<open>utils/tracker.cpp\<close> and what the tracker prints while it runs.  The loop of \<open>run\<close> is left only
  by an exception, which is an argument here; \<open>main\<close> handles three kinds, the others end the process.
\<close>

section \<open>main\<close>

definition tracker_usage :: "string \<Rightarrow> line list" where
  "tracker_usage prog =
    [Cout (''distributAr (distributed Architecture framework) tracker'' @ [NL]),
     Cout (''usage: '' @ prog @ '' port#'' @ [NL])]"

fun tracker_report :: "exn \<Rightarrow> line option" where
  "tracker_report (Str ex) = Some (Cerr (''Exception caught: '' @ ex @ ''. Exiting'' @ [NL]))"
| "tracker_report BadAlloc = Some (Cerr (''Out of memory! Exiting'' @ [NL]))"
| "tracker_report (StdException what) = Some (Cerr (''Exception caught: '' @ what @ [NL]))"
| "tracker_report (Chars ex) = None"
| "tracker_report OtherException = None"

text \<open>The end of the process, or of its loop by \<open>ex\<close>; \<open>main\<close> without a \<open>return\<close> returns 0.\<close>

definition tracker_main :: "ctor_calls \<Rightarrow> exn \<Rightarrow> string list \<Rightarrow> ending \<times> line list" where
  "tracker_main k ex argv =
    (case tracker_start k argv of
       Inl code \<Rightarrow> (Exits code, tracker_usage (argv ! 0))
     | Inr ((made, calls), t) \<Rightarrow>
         let running = Cout (''Running on port '' @ show_word (word_of_int (atoi (argv ! 1)) :: u16) @ [NL])
         in (case made of
               Inl e \<Rightarrow> (Uncaught (Str e), [running])
             | Inr fd \<Rightarrow>
                 (case tracker_report ex of
                    Some line \<Rightarrow> (Exits 0, [running, line])
                  | None \<Rightarrow> (Uncaught ex, [running]))))"

section \<open>The log\<close>

text \<open>What the handlers print, with the values they read; \<open>c\<close> is the id of the sender.\<close>

definition reply_line :: "string \<Rightarrow> line list" where
  "reply_line cmd = (if length cmd < 1 then [] else [Cout (''Reply: '' @ cmd @ [NL])])"

definition log_ID :: "ClusterID \<Rightarrow> ClusterID \<Rightarrow> istream \<Rightarrow> tracker \<Rightarrow> line list" where
  "log_ID junk c is t =
    (let newId = fst (get_unsigned junk is)
     in if newId \<noteq> 0 then
          [Cout ((if newId > RESERVED_CLUSTER_ID then [] else ''RESERVED '') @ ''Cluster '' @ show_word c @
            '' updated its id to '' @ show_word newId @ [NL])]
        else
          let newId = (if c = 0 then next_id t else c)
          in Cout (''Cluster '' @ show_word c @ '' reserved ID '' @ show_word newId @ [NL]) #
             reply_line (''RUN '' @ show_word newId))"

definition log_GET :: "ClusterID \<Rightarrow> (nat \<Rightarrow> Time) \<Rightarrow> istream \<Rightarrow> tracker \<Rightarrow> line list" where
  "log_GET junk clock is t =
    (let what = fst (get_unsigned junk is)
     in case clusters t what of
          None \<Rightarrow> reply_line (''DROP '' @ show_word what)
        | Some addr \<Rightarrow>
            if fst (isOld (clock 0) what t) then
              (if what > RESERVED_CLUSTER_ID then
                 Cout (''cluster '' @ show_word what @ '' did not update it'' @ [CHR 0x27] @
                   ''s registration in a while.  DELETING.'' @ [NL]) # reply_line (''DROP '' @ show_word what)
               else [])
            else reply_line (''POINT '' @ show_word what @ '' '' @ show_word (s_addr addr) @ '' '' @ show_word (sin_port addr)))"

definition log_command :: "ClusterID \<Rightarrow> (nat \<Rightarrow> Time) \<Rightarrow> ClusterID list \<Rightarrow> sockaddr \<Rightarrow> string \<Rightarrow> tracker \<Rightarrow> line list" where
  "log_command junk clock ks from msg t =
    Cout ([NL] @ ''Incoming: '' @ msg @ [NL]) #
    (let (cmd, is) = get_word [] (istringstream msg); c = findByValue ks from t
     in if cmd = ''ID'' then log_ID junk c is t
        else if cmd = ''GET'' then log_GET junk clock is t
        else if cmd = ''LIST'' then reply_line (snd (fold (list_one clock) (enumerate 0 ks) (t, [])))
        else if cmd = ''ACK'' then [Cout (''Server ACKnowledged'' @ [NL])]
        else [Cout (''UNKNOWN COMMAND '' @ [NL])])"

definition log_round :: "ClusterID \<Rightarrow> (nat \<Rightarrow> Time) \<Rightarrow> ClusterID list \<Rightarrow> char select_call \<Rightarrow> sockaddr \<Rightarrow>
    tracker \<times> string \<Rightarrow> line list" where
  "log_round junk clock ks s from0 = (\<lambda>(t, b0).
    case handled s from0 b0 of
      None \<Rightarrow> [Cout ''.'']
    | Some (from, msg) \<Rightarrow> log_command junk clock ks from msg t)"

text \<open>The replies in the log are the datagrams that are sent.\<close>

definition logged_replies :: "line list \<Rightarrow> string list" where
  "logged_replies ls = [drop 7 (butlast l). Cout l \<leftarrow> ls, take 7 l = ''Reply: '']"

lemma logged_replies_simps [simp]:
  "logged_replies [] = []"
  "logged_replies (Cout l # ls) = (if take 7 l = ''Reply: '' then [drop 7 (butlast l)] else []) @ logged_replies ls"
  by (simp_all add: logged_replies_def)

lemma logged_reply: "logged_replies (reply_line cmd) = map (butlast \<circ> snd) (sendCommand a cmd)"
  by (simp add: reply_line_def sendCommand_def butlast_append)

lemma log_ID_replies:
  "logged_replies (log_ID junk c is t) = map (butlast \<circ> snd) (snd (tracker_ID junk clock c a is t))"
  by (simp add: log_ID_def tracker_ID_def Let_def logged_reply [where a = a] getNextClusterId_def)

lemma log_GET_replies:
  "logged_replies (log_GET junk clock is t) = map (butlast \<circ> snd) (snd (tracker_GET junk clock a is t))"
  by (auto simp: log_GET_def tracker_GET_def Let_def logged_reply [where a = a] isOld_def sendCommand_def split: option.split)

theorem log_round_replies:
  assumes "tracker_round junk clock ks s from0 (t, b0) = (st, out)"
  shows "logged_replies (log_round junk clock ks s from0 (t, b0)) = map (butlast \<circ> snd) out"
proof -
  obtain t' b1 where st: "st = (t', b1)" by (cases st)
  note r = round_handled [OF assms [unfolded st]]
  show ?thesis
  proof (cases "handled s from0 b0")
    case None
    then show ?thesis using r by (simp add: log_round_def)
  next
    case (Some m)
    obtain a msg where m: "m = (a, msg)" by (cases m)
    obtain w "is" where w: "get_word [] (istringstream msg) = (w, is)" by fastforce
    have out: "out = snd (tracker_command junk clock ks a msg t)" using r Some m by simp
    have "logged_replies (log_command junk clock ks a msg t) = map (butlast \<circ> snd) out"
      using w log_ID_replies [of junk "findByValue ks a t" "is" t clock a] log_GET_replies [of junk clock "is" t a]
      by (auto simp: out log_command_def tracker_command_def Let_def tracker_LIST_def logged_reply [where a = a] split: prod.split)
    then show ?thesis using Some m by (simp add: log_round_def)
  qed
qed

end
