(* ===== verification/Time_Serv.thy ===== *)
theory Time_Serv
  imports Time_Sync Udp
begin

text \<open>
  The time server of \<open>utils/timeserv.cpp\<close>: it answers any datagram with the time of its clock in
  microseconds, and announces itself to the tracker under \<open>TIME_SERVER_ID\<close> every three minutes.
  \<open>TimeServ_round\<close> is one turn of the loop of \<open>run\<close>, which wakes at least every 30 seconds.
\<close>

record timeserv =
  tracker_addr :: sockaddr
  nextTrackerUpdate :: Time

definition updateInterval :: int where
  "updateInterval = seconds 180"

text \<open>How long \<open>ReadSelect\<close> waits for a request in a turn of the loop.\<close>

definition selectTimeout :: int where
  "selectTimeout = microseconds (30 * 1000 * 1000)"

definition TimeServ_init :: "IP \<Rightarrow> u16 \<Rightarrow> Time \<Rightarrow> timeserv" where
  "TimeServ_init ip port now =
    \<lparr>tracker_addr = \<lparr>s_addr = ucast ip, sin_port = port\<rparr>, nextTrackerUpdate = now\<rparr>"

definition cmdID :: string where
  "cmdID = ''ID '' @ show_word TIME_SERVER_ID"

text \<open>\<open>sprintf(buff, "T %llu", timeUs)\<close>, where \<open>timeUs\<close> is an \<open>unsigned long long\<close>.\<close>

definition time_message :: "Time \<Rightarrow> string" where
  "time_message t = ''T '' @ show_word (word_of_int (to_us t) :: u64)"

definition TimeServ_round :: "int \<Rightarrow> sockaddr \<Rightarrow> Time \<Rightarrow> timeserv \<Rightarrow> timeserv \<times> (sockaddr \<times> string) list" where
  "TimeServ_round ret from t ts =
    (let reply = (if ret > 0 then [(from, time_message t @ [NUL])] else [])
     in if t > nextTrackerUpdate ts then
          (ts\<lparr>nextTrackerUpdate := t + updateInterval\<rparr>, reply @ [(tracker_addr ts, cmdID @ [NUL])])
        else (ts, reply))"

text \<open>
  \<open>main\<close> up to \<open>run\<close> and its reading of the clock: the exit code, or the server.  The resolver is an
  argument.
\<close>

definition timeserv_start :: "(string \<Rightarrow> IP option) \<Rightarrow> string list \<Rightarrow> Time \<Rightarrow> int + timeserv" where
  "timeserv_start gethostbyname argv now =
    (if length argv < 3 then Inl 0
     else case gethostbyname (argv ! 1) of
       None \<Rightarrow> Inl 1
     | Some ip \<Rightarrow>
         let port = word_of_int (atoi (argv ! 2)) :: u16; port = htons port
         in Inr (TimeServ_init ip port now))"

text \<open>So the first announcement is due with the first reading of the clock that differs.\<close>

lemma timeserv_start_due: "timeserv_start gethostbyname argv now = Inr ts \<Longrightarrow> nextTrackerUpdate ts = now"
  by (auto simp: timeserv_start_def TimeServ_init_def Let_def split: if_splits option.splits)

text \<open>The times at which a run of the loop announces itself.\<close>

fun announcements :: "(int \<times> sockaddr \<times> Time) list \<Rightarrow> timeserv \<Rightarrow> Time list" where
  "announcements [] ts = []"
| "announcements ((ret, from, t) # xs) ts =
    (case TimeServ_round ret from t ts of
       (ts', out) \<Rightarrow> (if (tracker_addr ts, cmdID @ [NUL]) \<in> set out then [t] else []) @ announcements xs ts')"

lemma time_message_not_ID: "time_message t \<noteq> cmdID"
  by (simp add: time_message_def cmdID_def)

lemma round_update:
  "nextTrackerUpdate (fst (TimeServ_round ret from t ts)) =
     (if t > nextTrackerUpdate ts then t + updateInterval else nextTrackerUpdate ts)"
  by (simp add: TimeServ_round_def Let_def)

lemma round_announces:
  "(tracker_addr ts, cmdID @ [NUL]) \<in> set (snd (TimeServ_round ret from t ts)) \<longleftrightarrow> t > nextTrackerUpdate ts"
  using time_message_not_ID [of t] by (auto simp: TimeServ_round_def Let_def)

text \<open>
  The times at which the turns of the loop read the clock: the clock does not go back, and a turn follows the
  one before within the time-out, but for a delay of at most \<open>late\<close> for the scheduling and the work of a turn.
\<close>

fun punctual :: "int \<Rightarrow> Time list \<Rightarrow> bool" where
  "punctual late (t # u # ts) \<longleftrightarrow> t \<le> u \<and> u \<le> t + selectTimeout + late \<and> punctual late (u # ts)"
| "punctual late ts \<longleftrightarrow> True"

abbreviation turn_times :: "(int \<times> sockaddr \<times> Time) list \<Rightarrow> Time list" where
  "turn_times \<equiv> map (\<lambda>(ret, from, t). t)"

lemma announced_lately:
  assumes "nextTrackerUpdate ts = a + updateInterval" "a \<le> p" "p \<le> a + updateInterval"
    and "punctual late (p # turn_times xs)" "p \<le> now" "now \<le> last (p # turn_times xs) + selectTimeout + late"
  shows "\<exists>b \<in> insert a (set (announcements xs ts)). b \<le> now \<and> now \<le> b + updateInterval + selectTimeout + late"
  using assms
proof (induction xs arbitrary: ts a p)
  case Nil
  then show ?case by simp
next
  case (Cons x xs)
  obtain ret "from" t where x: "x = (ret, from, t)" by (cases x)
  obtain ts' out where r: "TimeServ_round ret from t ts = (ts', out)" by fastforce
  define a' where "a' = (if t > nextTrackerUpdate ts then t else a)"
  have next': "nextTrackerUpdate ts' = a' + updateInterval"
    using round_update [of ret "from" t ts] Cons.prems(1) by (simp add: r a'_def)
  have ann: "announcements (x # xs) ts = (if t > nextTrackerUpdate ts then [t] else []) @ announcements xs ts'"
    using round_announces [of ts ret "from" t] by (simp add: x r)
  show ?case
  proof (cases "now < t")
    case True
    then show ?thesis using Cons.prems by (auto simp: x)
  next
    case False
    have "a' \<le> t" "t \<le> a' + updateInterval"
      using Cons.prems(1-4) by (auto simp: a'_def x updateInterval_def)
    then have "\<exists>b \<in> insert a' (set (announcements xs ts')). b \<le> now \<and> now \<le> b + updateInterval + selectTimeout + late"
      using Cons.prems(4,6) False by (intro Cons.IH [OF next']) (auto simp: x)
    then show ?thesis unfolding ann by (auto simp: a'_def split: if_splits)
  qed
qed

text \<open>C40. Once the time server's first turn is later than its start, there is at every instant up to the end
  of any run, also while the loop waits for requests, an announcement not more than 210 seconds ago: the
  interval of 180 seconds and the 30 seconds that a turn may wait -- provided the turns follow each other
  within this time; if they can be late by some time more, then by that time more.  So with delays
  below 390 seconds, and announcements that arrive at once, the tracker, which forgets a cluster
  after 600 seconds, keeps it.  Requests answered in between do not matter.
\<close>

theorem TimeServ_stays_registered:
  assumes "nextTrackerUpdate ts < t0" and "punctual late (t0 # turn_times xs)"
    and "t0 \<le> now" and "now \<le> last (t0 # turn_times xs) + selectTimeout + late"
  shows "\<exists>b \<in> set (announcements ((ret, from, t0) # xs) ts). b \<le> now \<and> now \<le> b + seconds 210 + late \<and>
    (late < seconds 390 \<longrightarrow> now < b + seconds 600)"
proof -
  obtain ts' out where r: "TimeServ_round ret from t0 ts = (ts', out)" by fastforce
  have "nextTrackerUpdate ts' = t0 + updateInterval"
    using round_update [of ret "from" t0 ts] assms(1) by (simp add: r)
  then have "\<exists>b \<in> insert t0 (set (announcements xs ts')). b \<le> now \<and> now \<le> b + updateInterval + selectTimeout + late"
    by (rule announced_lately [OF _ _ _ assms(2-4)]) (simp_all add: updateInterval_def)
  then show ?thesis
    using round_announces [of ts ret "from" t0] assms(1) by (auto simp: r updateInterval_def selectTimeout_def)
qed

text \<open>The clock starts at 0, the turns are 30 seconds apart and nobody asks: at the last turn, 180 seconds after
  the first, the second announcement is not due yet, and 30 seconds later the first one is still the last.
\<close>

definition quiet_turns :: "(int \<times> sockaddr \<times> Time) list" where
  "quiet_turns = map (\<lambda>t. (0, \<lparr>s_addr = 1, sin_port = 2\<rparr>, 1 + seconds t)) [30, 60, 90, 120, 150, 180]"

lemma quiet_turns_times: "turn_times quiet_turns = map (\<lambda>t. 1 + seconds t) [30, 60, 90, 120, 150, 180]"
  by (simp add: quiet_turns_def)

lemma quiet_announcements:
  "announcements ((0, \<lparr>s_addr = 1, sin_port = 2\<rparr>, 1) # quiet_turns) (TimeServ_init 1 2 0) = [1]"
  by (simp add: quiet_turns_def TimeServ_round_def TimeServ_init_def updateInterval_def Let_def)

theorem TimeServ_stays_registered_witness:
  "announcements ((0, \<lparr>s_addr = 1, sin_port = 2\<rparr>, 1) # quiet_turns) (TimeServ_init 1 2 0) = [1] \<and>
   (\<exists>b \<in> set (announcements ((0, \<lparr>s_addr = 1, sin_port = 2\<rparr>, 1) # quiet_turns) (TimeServ_init 1 2 0)).
     b \<le> 1 + seconds 210 \<and> 1 + seconds 210 \<le> b + seconds 210)"
proof -
  have p: "nextTrackerUpdate (TimeServ_init 1 2 0) < 1" "punctual 0 (1 # turn_times quiet_turns)" "1 \<le> 1 + seconds 210"
      "1 + seconds 210 \<le> last (1 # turn_times quiet_turns) + selectTimeout + 0"
    by (simp_all add: quiet_turns_times selectTimeout_def TimeServ_init_def)
  obtain b where b: "b \<in> set (announcements ((0, \<lparr>s_addr = 1, sin_port = 2\<rparr>, 1) # quiet_turns) (TimeServ_init 1 2 0))"
      "b \<le> 1 + seconds 210" "1 + seconds 210 \<le> b + seconds 210 + 0"
    using TimeServ_stays_registered [OF p] by blast
  show ?thesis by (intro conjI quiet_announcements bexI [OF _ b(1)] b(2)) (use b(3) in linarith)
qed

text \<open>The reply fits the 32 characters of the buffer it is printed into, whatever the clock shows.
\<close>

theorem time_message_fits: "length (time_message t @ [NUL]) \<le> 32"
proof -
  have "unat (word_of_int (to_us t) :: u64) < 2 ^ 64"
    using unsigned_less [where w = "word_of_int (to_us t) :: u64" and ?'a = nat] by simp
  then have "length (show_nat (unat (word_of_int (to_us t) :: u64))) \<le> Suc 19"
    by (intro length_show_nat) simp
  then show ?thesis by (simp add: time_message_def show_word_def)
qed

end
