(* ===== verification/Time_Serv_Main.thy ===== *)
theory Time_Serv_Main
  imports Time_Serv Server_Main
begin

text \<open>
  \<open>main\<close> of \<open>utils/timeserv.cpp\<close>, which has no handlers, and what the time server prints.
\<close>

definition timeserv_usage :: "string \<Rightarrow> line list" where
  "timeserv_usage prog =
    [Cout (''distributAr (distributed Architecture framework) time server'' @ [NL]),
     Cout (''usage: '' @ prog @ '' <tracker addr/ip>  <tracker port#>'' @ [NL])]"

text \<open>
  The results of the system calls: the resolver, those of the constructor of the socket, and of the three
  calls of \<open>GetNetworkAddress\<close>.  Whether the text before the port is printed before that function is called is left
  open by the language, so it is an argument, too.
\<close>

record timeserv_env =
  ts_resolver :: "string \<Rightarrow> IP option"
  ts_socket :: ctor_calls
  ts_sockname :: "int + sockaddr"
  ts_hostname_fails :: bool
  ts_hostname :: "IP option"
  ts_text_first :: bool

text \<open>The start of \<open>run\<close>: the line with the port, or an exception.\<close>

definition running_line :: "timeserv_env \<Rightarrow> exn option \<times> line list" where
  "running_line env =
    (let before = ''Running time server on port ''
     in case GetNetworkAddress (ts_sockname env) (ts_hostname_fails env) (ts_hostname env) of
          Inl e \<Rightarrow> (Some (Str e), if ts_text_first env then [Cout before] else [])
        | Inr (tsip, port) \<Rightarrow> (None, [Cout (before @ show_word port @ [NL])]))"

definition timeserv_main :: "timeserv_env \<Rightarrow> Time \<Rightarrow> string list \<Rightarrow> ending \<times> line list" where
  "timeserv_main env now argv =
    (case timeserv_start (ts_resolver env) argv now of
       Inl code \<Rightarrow>
         (Exits code,
          if code = 0 then timeserv_usage (argv ! 0)
          else [Cerr (''Can not resolve address for '' @ argv ! 1 @ [NL])])
     | Inr ts \<Rightarrow>
         (case fst (Udp_init (ts_socket env) 0 False) of
            Inl e \<Rightarrow> (Uncaught (Str e), [])
          | Inr fd \<Rightarrow>
              (case running_line env of
                 (Some ex, ls) \<Rightarrow> (Uncaught ex, ls)
               | (None, ls) \<Rightarrow> (Serving, ls))))"

text \<open>What a turn of the loop prints.\<close>

definition log_turn :: "int \<Rightarrow> Time \<Rightarrow> timeserv \<Rightarrow> line list" where
  "log_turn ret t ts =
    (if ret > 0 then [Cout (''TimeServ '' @ time_message t @ [NL])] else []) @
    (if t > nextTrackerUpdate ts then [Cout (''Sending my ID to tracker'' @ [NL])] else [])"

text \<open>The log tells of each announcement.\<close>

lemma log_turn_announces:
  "Cout (''Sending my ID to tracker'' @ [NL]) \<in> set (log_turn ret t ts) \<longleftrightarrow>
     (Time_Serv.tracker_addr ts, cmdID @ [NUL]) \<in> set (snd (TimeServ_round ret from t ts))"
  by (simp add: round_announces) (simp add: log_turn_def)

text \<open>
  On a host whose own name cannot be resolved, the time server dies of an uncaught exception, although its socket is
  ready: the address is asked for only to print the port.
\<close>

theorem unresolved_hostname_ends_server:
  assumes "timeserv_start (ts_resolver env) argv now = Inr ts" and "fst (Udp_init (ts_socket env) 0 False) = Inr fd"
    and "ts_sockname env = Inr sin" and "s_addr sin = 0" and "\<not> ts_hostname_fails env" and "ts_hostname env = None"
  shows "fst (timeserv_main env now argv) = Uncaught (Str ''socket error in gethostname(): returned 0'')"
  using assms by (simp add: timeserv_main_def running_line_def GetNetworkAddress_def)

end
