(* ===== verification/Part_Graph.thy ===== *)
theory Part_Graph
  imports Graph_IO "HOL-Library.Multiset"
begin

text \<open>
  The partitioner of \<open>utils/partgraph.cpp\<close>: it deals the nodes of a graph into groups, swaps
  pairs of nodes of different groups at random as long as that does not make the number of edges
  between groups larger, and writes the graph with the group of each node as its label.

  The values \<open>rand()\<close> returns are a sequence; a function takes the position of the next one and
  returns the position after the last it used.  \<open>None\<close> is a division by zero, an access out of
  range, or a loop that does not end.
\<close>

section \<open>Data\<close>

record Vertex =
  vid :: int
  vedges :: "int list"

text \<open>The counters of edges, \<open>int\<close>s in the program, are unbounded: they would overflow with \<open>2^31\<close> edges between groups.\<close>

definition countHyperEdges :: "Vertex list \<Rightarrow> int" where
  "countHyperEdges part =
    fold (\<lambda>v count. fold (\<lambda>edge count.
        let external = \<not> list_ex (\<lambda>v2. edge = vid v2) part
        in if external then count + 1 else count) (vedges v) count) part 0"

section \<open>One optimisation step\<close>

text \<open>The loop that draws until the second group differs from the first.\<close>

partial_function (option) pick_other :: "(nat \<Rightarrow> nat) \<Rightarrow> nat \<Rightarrow> nat \<Rightarrow> nat \<Rightarrow> (nat \<times> nat) option" where
  "pick_other rand n part1 k =
    (if rand k mod n = part1 then pick_other rand n part1 (Suc k) else Some (rand k mod n, Suc k))"

definition swap_vertices :: "nat \<Rightarrow> nat \<Rightarrow> nat \<Rightarrow> nat \<Rightarrow> Vertex list list \<Rightarrow> Vertex list list" where
  "swap_vertices part1 vert1 part2 vert2 nodes =
    (let a = nodes ! part1 ! vert1; b = nodes ! part2 ! vert2;
         nodes1 = nodes[part1 := (nodes ! part1)[vert1 := b]]
     in nodes1[part2 := (nodes1 ! part2)[vert2 := a]])"

definition optimizePartitions :: "(nat \<Rightarrow> nat) \<Rightarrow> nat \<Rightarrow> Vertex list list \<Rightarrow> (Vertex list list \<times> nat) option" where
  "optimizePartitions rand k nodes =
    (if length nodes = 0 then None
     else let part1 = rand k mod length nodes
       in (case pick_other rand (length nodes) part1 (Suc k) of
             None \<Rightarrow> None
           | Some (part2, k2) \<Rightarrow>
               if length (nodes ! part1) = 0 \<or> length (nodes ! part2) = 0 then None
               else
                 let vert1 = rand k2 mod length (nodes ! part1);
                     vert2 = rand (Suc k2) mod length (nodes ! part2);
                     edgeCount = countHyperEdges (nodes ! part1) + countHyperEdges (nodes ! part2);
                     nodes1 = swap_vertices part1 vert1 part2 vert2 nodes;
                     newEdgeCount = countHyperEdges (nodes1 ! part1) + countHyperEdges (nodes1 ! part2)
                 in Some (if edgeCount < newEdgeCount then swap_vertices part1 vert1 part2 vert2 nodes1 else nodes1,
                          k2 + 2)))"

text \<open>The loop of \<open>main\<close> until a key is pressed, after \<open>n\<close> steps.\<close>

fun optimizations :: "(nat \<Rightarrow> nat) \<Rightarrow> nat \<Rightarrow> nat \<Rightarrow> Vertex list list \<Rightarrow> (Vertex list list \<times> nat) option" where
  "optimizations rand 0 k nodes = Some (nodes, k)"
| "optimizations rand (Suc n) k nodes =
    (case optimizePartitions rand k nodes of
       None \<Rightarrow> None
     | Some (nodes', k') \<Rightarrow> optimizations rand n k' nodes')"

section \<open>Loading, saving, printing\<close>

definition vertex_of :: "GraphEdge list \<Rightarrow> GraphNode \<Rightarrow> Vertex" where
  "vertex_of edges n =
    \<lparr>vid = sint (node_id n),
     vedges = map (\<lambda>e. sint (edge_to e)) (filter (\<lambda>e. edge_from e = node_id n) edges)\<rparr>"

definition loadGraph :: "string option \<Rightarrow> Vertex list list \<Rightarrow> (Vertex list list \<times> GraphEdge list) option" where
  "loadGraph file verts =
    (case Parse file ([], []) of
       None \<Rightarrow> None
     | Some (ok, nodes, edges) \<Rightarrow>
         Some (fold (\<lambda>(i, n) verts.
             verts[i mod length verts := verts ! (i mod length verts) @ [vertex_of edges n]])
           (enumerate 0 nodes) verts, edges))"

definition saveGraph :: "string \<Rightarrow> Vertex list list \<Rightarrow> GraphEdge list \<Rightarrow> string" where
  "saveGraph gname verts edges =
    InitGraph gname @
    concat (map (\<lambda>(i, vgroup). concat (map (\<lambda>v. WriteNode (word_of_int (vid v)) (int i)) vgroup)) (enumerate 0 verts)) @
    concat (map (\<lambda>e. WriteEdge (edge_from e) (edge_to e) (edge_label e)) edges) @
    CloseGraph"

definition printPartitions :: "Vertex list list \<Rightarrow> string" where
  "printPartitions nodes =
    ''Partitioned graph.  Each line is one partition.  First (number) is the partition external edge count.'' @ [NL] @
    concat (map (\<lambda>part. ''('' @ show_int (countHyperEdges part) @ '')'' @
      concat (map (\<lambda>v. '' '' @ show_int (vid v)) part) @ [NL]) nodes) @
    ''Total edges: '' @ show_int (fold (\<lambda>part total. total + countHyperEdges part) nodes 0) @ [NL, NL]"

text \<open>\<open>main\<close> up to the optimisation: the exit code, or the groups and edges to work on.\<close>

definition partgraph_start :: "string \<Rightarrow> string option \<Rightarrow> (int + Vertex list list \<times> GraphEdge list) option" where
  "partgraph_start arg file =
    (let groupCount = atoi arg
     in if groupCount < 2 then Some (Inl 2)
        else (case loadGraph file (replicate (nat groupCount) []) of
                None \<Rightarrow> None
              | Some (nodes, edges) \<Rightarrow>
                  if list_ex (\<lambda>part. length part < 1) nodes then Some (Inl 3) else Some (Inr (nodes, edges))))"

section \<open>Counting and swapping\<close>

definition total_edges :: "Vertex list list \<Rightarrow> int" where
  "total_edges nodes = sum_list (map countHyperEdges nodes)"

lemma map_update_same: "f y = f (xs ! p) \<Longrightarrow> map f (xs[p := y]) = map f xs"
  by (cases "p < length xs") (simp_all add: map_update list_update_same_conv list_update_beyond not_less)

lemma swap_length [simp]:
  "length (swap_vertices p1 v1 p2 v2 nodes) = length nodes"
  "map length (swap_vertices p1 v1 p2 v2 nodes) = map length nodes"
  by (simp_all add: swap_vertices_def Let_def map_update_same)

lemma swap_parts:
  assumes "p1 \<noteq> p2" "p1 < length nodes" "p2 < length nodes"
  shows "swap_vertices p1 v1 p2 v2 nodes =
    nodes[p1 := (nodes ! p1)[v1 := nodes ! p2 ! v2], p2 := (nodes ! p2)[v2 := nodes ! p1 ! v1]]"
  using assms by (simp add: swap_vertices_def)

lemma swap_twice:
  assumes "p1 \<noteq> p2" "p1 < length nodes" "p2 < length nodes"
    "v1 < length (nodes ! p1)" "v2 < length (nodes ! p2)"
  shows "swap_vertices p1 v1 p2 v2 (swap_vertices p1 v1 p2 v2 nodes) = nodes"
proof (rule nth_equalityI)
  fix i
  assume "i < length (swap_vertices p1 v1 p2 v2 (swap_vertices p1 v1 p2 v2 nodes))"
  then show "swap_vertices p1 v1 p2 v2 (swap_vertices p1 v1 p2 v2 nodes) ! i = nodes ! i"
    using assms by (auto simp: swap_parts nth_list_update)
qed simp

lemma sum_list_upd: "p < length xs \<Longrightarrow> sum_list (xs[p := y]) + xs ! p = sum_list xs + y"
  for xs :: "'a::comm_monoid_add list"
proof (induction xs arbitrary: p)
  case Nil
  then show ?case by simp
next
  case (Cons x xs)
  then show ?case by (cases p) (simp_all add: add_ac)
qed

lemma sum_list_upd2:
  fixes xs :: "'a::comm_monoid_add list"
  assumes "p \<noteq> q" "p < length xs" "q < length xs"
  shows "sum_list (xs[p := y, q := z]) + (xs ! p + xs ! q) = sum_list xs + (y + z)"
proof -
  have "sum_list (xs[p := y, q := z]) + xs ! q = sum_list (xs[p := y]) + z"
    using sum_list_upd [of q "xs[p := y]" z] assms by simp
  then have "sum_list (xs[p := y, q := z]) + xs ! q + xs ! p = (sum_list (xs[p := y]) + xs ! p) + z"
    by (simp add: add_ac)
  also have "\<dots> = sum_list xs + y + z" using sum_list_upd [OF assms(2), of y] by simp
  finally show ?thesis by (simp add: add_ac)
qed

lemma swap_mset:
  assumes "p1 \<noteq> p2" "p1 < length nodes" "p2 < length nodes"
    "v1 < length (nodes ! p1)" "v2 < length (nodes ! p2)"
  shows "mset (concat (swap_vertices p1 v1 p2 v2 nodes)) = mset (concat nodes)"
proof -
  let ?A = "nodes ! p1" and ?B = "nodes ! p2"
  let ?A' = "?A[v1 := ?B ! v2]" and ?B' = "?B[v2 := ?A ! v1]"
  have a: "?A ! v1 \<in># mset ?A" and b: "?B ! v2 \<in># mset ?B" using assms by simp_all
  have "mset ?A' + mset ?B' = add_mset (?B ! v2) (mset ?A - {#?A ! v1#}) + add_mset (?A ! v1) (mset ?B - {#?B ! v2#})"
    using assms by (simp add: mset_update)
  also have "\<dots> = add_mset (?A ! v1) (mset ?A - {#?A ! v1#}) + add_mset (?B ! v2) (mset ?B - {#?B ! v2#})"
    by simp
  also have "\<dots> = mset ?A + mset ?B" using insert_DiffM [OF a] insert_DiffM [OF b] by simp
  finally have AB: "mset ?A' + mset ?B' = mset ?A + mset ?B" .
  have "sum_list (map mset (nodes[p1 := ?A', p2 := ?B'])) + (mset ?A + mset ?B) =
      sum_list (map mset nodes) + (mset ?A' + mset ?B')"
    using sum_list_upd2 [OF assms(1), of "map mset nodes" "mset ?A'" "mset ?B'"] assms
    by (simp add: map_update)
  then have "sum_list (map mset (nodes[p1 := ?A', p2 := ?B'])) = sum_list (map mset nodes)"
    unfolding AB by simp
  then show ?thesis unfolding swap_parts [OF assms(1-3)] by (simp add: mset_concat)
qed

lemma swap_total:
  assumes "p1 \<noteq> p2" "p1 < length nodes" "p2 < length nodes"
  shows "total_edges (swap_vertices p1 v1 p2 v2 nodes) +
      (countHyperEdges (nodes ! p1) + countHyperEdges (nodes ! p2)) =
    total_edges nodes + (countHyperEdges (swap_vertices p1 v1 p2 v2 nodes ! p1) +
      countHyperEdges (swap_vertices p1 v1 p2 v2 nodes ! p2))"
  using sum_list_upd2 [OF assms(1), of "map countHyperEdges nodes"] assms
  by (simp add: swap_parts total_edges_def map_update)

lemma pick_other_result:
  assumes "pick_other rand n p k = Some (q, k')"
  shows "q \<noteq> p \<and> (\<exists>j. q = rand j mod n)"
proof -
  have "fst (q, k') \<noteq> p \<and> (\<exists>j. fst (q, k') = rand j mod n)"
    using assms
  proof (rule pick_other.raw_induct [where P = "\<lambda>rand n p k r. fst r \<noteq> p \<and> (\<exists>j. fst r = rand j mod n)", rotated])
    fix W and rand :: "nat \<Rightarrow> nat" and n part1 k r
    assume IH: "\<And>rand n p k r. W rand n p k = Some r \<Longrightarrow> fst r \<noteq> p \<and> (\<exists>j. fst r = rand j mod n)"
      and eq: "(if rand k mod n = part1 then W rand n part1 (Suc k) else Some (rand k mod n, Suc k)) = Some r"
    show "fst r \<noteq> part1 \<and> (\<exists>j. fst r = rand j mod n)"
    proof (cases "rand k mod n = part1")
      case True
      with eq IH show ?thesis by simp
    next
      case False
      with eq show ?thesis by auto
    qed
  qed
  then show ?thesis by simp
qed

lemma optimize_cases:
  assumes "optimizePartitions rand k nodes = Some (nodes', k')"
  obtains p1 p2 v1 v2 where "p1 \<noteq> p2" "p1 < length nodes" "p2 < length nodes"
    "v1 < length (nodes ! p1)" "v2 < length (nodes ! p2)"
    "nodes' = nodes \<or> nodes' = swap_vertices p1 v1 p2 v2 nodes \<and>
      countHyperEdges (nodes' ! p1) + countHyperEdges (nodes' ! p2) \<le>
        countHyperEdges (nodes ! p1) + countHyperEdges (nodes ! p2)"
proof -
  have ne: "length nodes \<noteq> 0" using assms by (auto simp: optimizePartitions_def)
  let ?p1 = "rand k mod length nodes"
  obtain p2 k2 where p2: "pick_other rand (length nodes) ?p1 (Suc k) = Some (p2, k2)"
    using assms ne by (auto simp: optimizePartitions_def Let_def split: option.splits)
  have d: "p2 \<noteq> ?p1" "p2 < length nodes"
    using pick_other_result [OF p2] ne by auto
  have d1: "?p1 < length nodes" using ne by simp
  let ?v1 = "rand k2 mod length (nodes ! ?p1)" and ?v2 = "rand (Suc k2) mod length (nodes ! p2)"
  let ?s = "swap_vertices ?p1 ?v1 p2 ?v2"
  have l: "length (nodes ! ?p1) \<noteq> 0" "length (nodes ! p2) \<noteq> 0"
    using assms ne p2 by (auto simp: optimizePartitions_def Let_def split: if_splits)
  then have v: "?v1 < length (nodes ! ?p1)" "?v2 < length (nodes ! p2)" by simp_all
  have tw: "?s (?s nodes) = nodes" using d d1 v by (intro swap_twice) auto
  have res: "nodes' = (if countHyperEdges (nodes ! ?p1) + countHyperEdges (nodes ! p2) <
        countHyperEdges (?s nodes ! ?p1) + countHyperEdges (?s nodes ! p2)
      then ?s (?s nodes) else ?s nodes)"
    using assms ne p2 l by (simp add: optimizePartitions_def Let_def)
  show ?thesis
    by (rule that [of ?p1 p2 ?v1 ?v2]) (use d d1 v res tw in \<open>auto simp: not_less\<close>)
qed

lemma optimize_step:
  assumes "optimizePartitions rand k nodes = Some (nodes', k')"
  shows "mset (concat nodes') = mset (concat nodes)" "map length nodes' = map length nodes"
    "total_edges nodes' \<le> total_edges nodes"
proof -
  obtain p1 p2 v1 v2 where p: "p1 \<noteq> p2" "p1 < length nodes" "p2 < length nodes"
      "v1 < length (nodes ! p1)" "v2 < length (nodes ! p2)"
    and r: "nodes' = nodes \<or> nodes' = swap_vertices p1 v1 p2 v2 nodes \<and>
      countHyperEdges (nodes' ! p1) + countHyperEdges (nodes' ! p2) \<le>
        countHyperEdges (nodes ! p1) + countHyperEdges (nodes ! p2)"
    by (rule optimize_cases [OF assms])
  show "mset (concat nodes') = mset (concat nodes)" "map length nodes' = map length nodes"
    using r swap_mset [OF p] by auto
  show "total_edges nodes' \<le> total_edges nodes"
    using r swap_total [OF p(1-3), of v1 v2] by auto
qed

lemma optimizations_inv:
  assumes "optimizations rand n k nodes = Some (nodes', k')"
  shows "mset (concat nodes') = mset (concat nodes) \<and> map length nodes' = map length nodes \<and>
    total_edges nodes' \<le> total_edges nodes"
  using assms
proof (induction n arbitrary: k nodes)
  case 0
  then show ?case by simp
next
  case (Suc n)
  then obtain nodes1 k1 where o: "optimizePartitions rand k nodes = Some (nodes1, k1)"
    and "optimizations rand n k1 nodes1 = Some (nodes', k')"
    by (auto split: option.splits)
  with Suc.IH [of k1 nodes1] optimize_step [OF o] show ?case by simp
qed

lemma pick_other_returns:
  "rand (k + j) mod n \<noteq> p \<Longrightarrow> \<exists>r. pick_other rand n p k = Some r"
proof (induction j arbitrary: k)
  case 0
  then show ?case by (simp add: pick_other.simps)
next
  case (Suc j)
  then have "\<exists>r. pick_other rand n p (Suc k) = Some r" by simp
  then show ?case by (subst pick_other.simps) auto
qed

definition varied :: "(nat \<Rightarrow> nat) \<Rightarrow> nat \<Rightarrow> bool" where
  "varied rand n \<longleftrightarrow> (\<forall>k. \<exists>j>k. rand j mod n \<noteq> rand k mod n)"

lemma counting_varied: "varied (\<lambda>k. k) 2"
  unfolding varied_def
proof
  fix k :: nat
  have "Suc k mod 2 \<noteq> k mod 2" by presburger
  then show "\<exists>j>k. j mod 2 \<noteq> k mod 2" by blast
qed

lemma optimize_returns:
  assumes "nodes \<noteq> []" "[] \<notin> set nodes" "varied rand (length nodes)"
  shows "\<exists>r. optimizePartitions rand k nodes = Some r"
proof -
  obtain j where "j > k" "rand j mod length nodes \<noteq> rand k mod length nodes"
    using assms(3) by (auto simp: varied_def)
  then have "\<exists>r. pick_other rand (length nodes) (rand k mod length nodes) (Suc k) = Some r"
    using pick_other_returns [of rand "Suc k" "j - Suc k" "length nodes" "rand k mod length nodes"] by simp
  then obtain q k2 where q: "pick_other rand (length nodes) (rand k mod length nodes) (Suc k) = Some (q, k2)"
    by auto
  have "q < length nodes" using pick_other_result [OF q] assms(1) by auto
  then have "nodes ! q \<noteq> []" "nodes ! (rand k mod length nodes) \<noteq> []"
    using assms(1,2) nth_mem by (metis, metis length_greater_0_conv mod_less_divisor)
  then show ?thesis using assms(1) q by (simp add: optimizePartitions_def Let_def)
qed

lemma optimizations_return:
  assumes "nodes \<noteq> []" "[] \<notin> set nodes" "varied rand (length nodes)"
  shows "\<exists>r. optimizations rand n k nodes = Some r"
  using assms
proof (induction n arbitrary: k nodes)
  case 0
  then show ?case by simp
next
  case (Suc n)
  obtain nodes1 k1 where o: "optimizePartitions rand k nodes = Some (nodes1, k1)"
    using optimize_returns [OF Suc.prems] by (metis surj_pair)
  have lens: "map length nodes1 = map length nodes" by (rule optimize_step(2) [OF o])
  then have "length nodes1 = length nodes" by (metis length_map)
  moreover have "0 \<notin> set (map length nodes1)" unfolding lens using Suc.prems(2) by auto
  then have "[] \<notin> set nodes1" by force
  ultimately show ?case
    using Suc.IH [of nodes1 k1] Suc.prems o by (cases "nodes1 = []") auto
qed

section \<open>Dealing the nodes into groups\<close>

definition deal :: "GraphEdge list \<Rightarrow> nat \<Rightarrow> GraphNode list \<Rightarrow> Vertex list list" where
  "deal edges g nodes = fold (\<lambda>(i, n) verts.
      verts[i mod length verts := verts ! (i mod length verts) @ [vertex_of edges n]])
    (enumerate 0 nodes) (replicate g [])"

lemma length_deal [simp]: "length (deal edges g nodes) = g"
  by (induction nodes rule: rev_induct) (simp_all add: deal_def enumerate_append_eq)

lemma deal_snoc:
  "deal edges g (nodes @ [n]) = (deal edges g nodes)
     [length nodes mod g := deal edges g nodes ! (length nodes mod g) @ [vertex_of edges n]]"
  using length_deal [of edges g nodes] by (simp add: deal_def enumerate_append_eq)

lemma nth_deal:
  "j < g \<Longrightarrow> deal edges g nodes ! j =
     map (\<lambda>i. vertex_of edges (nodes ! i)) (filter (\<lambda>i. i mod g = j) [0..<length nodes])"
proof (induction nodes arbitrary: j rule: rev_induct)
  case Nil
  then show ?case by (simp add: deal_def)
next
  case (snoc n nodes)
  have "map (\<lambda>i. vertex_of edges ((nodes @ [n]) ! i)) (filter (\<lambda>i. i mod g = j) [0..<length nodes]) =
      map (\<lambda>i. vertex_of edges (nodes ! i)) (filter (\<lambda>i. i mod g = j) [0..<length nodes])"
    by (simp add: nth_append)
  then show ?case
    using snoc by (auto simp: deal_snoc nth_list_update)
qed

lemma mset_deal: "0 < g \<Longrightarrow> mset (concat (deal edges g nodes)) = mset (map (vertex_of edges) nodes)"
proof (induction nodes rule: rev_induct)
  case Nil
  then show ?case by (simp add: deal_def)
next
  case (snoc n nodes)
  let ?d = "deal edges g nodes" and ?j = "length nodes mod g"
  have "sum_list ((map mset ?d)[?j := mset (?d ! ?j) + {#vertex_of edges n#}]) + mset (?d ! ?j) =
      sum_list (map mset ?d) + (mset (?d ! ?j) + {#vertex_of edges n#})"
    using sum_list_upd [of ?j "map mset ?d"] snoc.prems by simp
  then have "sum_list (map mset (?d[?j := ?d ! ?j @ [vertex_of edges n]])) =
      sum_list (map mset ?d) + {#vertex_of edges n#}"
    by (simp add: map_update add_ac)
  then show ?case using snoc by (simp add: deal_snoc mset_concat)
qed

lemma deal_empty_iff:
  assumes "0 < g"
  shows "[] \<in> set (deal edges g nodes) \<longleftrightarrow> length nodes < g"
proof
  assume "[] \<in> set (deal edges g nodes)"
  then obtain j where j: "j < g" "deal edges g nodes ! j = []" by (auto simp: in_set_conv_nth)
  then have "filter (\<lambda>i. i mod g = j) [0..<length nodes] = []" by (simp add: nth_deal)
  then have "\<forall>i < length nodes. i mod g \<noteq> j" by (simp add: filter_empty_conv)
  then have "\<not> j < length nodes" using j(1) mod_less [of j g] by blast
  with j(1) show "length nodes < g" by simp
next
  assume l: "length nodes < g"
  then have "deal edges g nodes ! (length nodes) = []"
    by (auto simp: nth_deal filter_empty_conv)
  with l show "[] \<in> set (deal edges g nodes)" by (metis length_deal nth_mem)
qed

lemma start_result:
  assumes "partgraph_start arg file = Some (Inr (verts, edges))"
  obtains ok ns where "Parse file ([], []) = Some (ok, ns, edges)" "verts = deal edges (nat (atoi arg)) ns"
    "2 \<le> atoi arg" "[] \<notin> set verts"
proof -
  have g: "2 \<le> atoi arg" using assms by (auto simp: partgraph_start_def Let_def split: if_splits)
  obtain ok ns es where p: "Parse file ([], []) = Some (ok, ns, es)"
    using assms g by (cases "Parse file ([], [])") (auto simp: partgraph_start_def Let_def loadGraph_def)
  then have "es = edges" "verts = deal es (nat (atoi arg)) ns" "[] \<notin> set verts"
    using assms g by (auto simp: partgraph_start_def Let_def loadGraph_def deal_def list_ex_iff split: if_splits)
  then show ?thesis using p g that by simp
qed

section \<open>The graph that is saved\<close>

definition saved_nodes :: "Vertex list list \<Rightarrow> GraphNode list" where
  "saved_nodes verts = concat (map (\<lambda>(i, vgroup).
     map (\<lambda>v. \<lparr>node_id = word_of_int (vid v), node_label = int i\<rparr>) vgroup) (enumerate 0 verts))"

lemma saveGraph_write: "saveGraph gname verts edges = write_graph gname (saved_nodes verts) edges"
proof -
  have "concat (map (\<lambda>(i, vgroup). concat (map (\<lambda>v. WriteNode (word_of_int (vid v)) (int i)) vgroup)) xs) =
      concat (map (\<lambda>n. WriteNode (node_id n) (node_label n)) (concat (map (\<lambda>(i, vgroup).
        map (\<lambda>v. \<lparr>node_id = word_of_int (vid v), node_label = int i\<rparr>) vgroup) xs)))" for xs
    by (induction xs) (auto simp: comp_def)
  then show ?thesis by (simp add: saveGraph_def write_graph_def saved_nodes_def)
qed

lemma saved_ids: "map node_id (saved_nodes verts) = map (\<lambda>v. word_of_int (vid v)) (concat verts)"
proof -
  have "map node_id (concat (map (\<lambda>(i, vgroup).
      map (\<lambda>v. \<lparr>node_id = word_of_int (vid v), node_label = int i\<rparr>) vgroup) (enumerate n verts))) =
    map (\<lambda>v. word_of_int (vid v)) (concat verts)" for n
    by (induction verts arbitrary: n) (simp_all add: comp_def)
  then show ?thesis by (simp add: saved_nodes_def)
qed

lemma saved_labels: "n \<in> set (saved_nodes verts) \<Longrightarrow> 0 \<le> node_label n \<and> node_label n < int (length verts)"
  by (auto simp: saved_nodes_def in_set_enumerate_eq)

lemma vertex_id [simp]: "word_of_int (vid (vertex_of edges n)) = node_id n"
  by (simp add: vertex_of_def)

section \<open>Properties\<close>

text \<open>C25. The optimisation, for as long as it runs: with at least two groups, none empty, and a random
  number generator that does not get stuck on one group, every step ends; the groups keep their
  sizes, no node is lost or duplicated, and the number of edges between groups never grows.
\<close>

theorem optimizations_improve:
  assumes "nodes \<noteq> []" and "[] \<notin> set nodes" and "varied rand (length nodes)"
  shows "\<exists>nodes' k'. optimizations rand n k nodes = Some (nodes', k') \<and>
    mset (concat nodes') = mset (concat nodes) \<and> map length nodes' = map length nodes \<and>
    sum_list (map countHyperEdges nodes') \<le> sum_list (map countHyperEdges nodes)"
proof -
  obtain nodes' k' where o: "optimizations rand n k nodes = Some (nodes', k')"
    using optimizations_return [OF assms, of n k] by auto
  with optimizations_inv [OF o] show ?thesis by (simp add: total_edges_def)
qed

theorem optimizations_improve_witness:
  "\<exists>nodes' k'. optimizations (\<lambda>k. k) 3 0 [[\<lparr>vid = 1, vedges = [2]\<rparr>], [\<lparr>vid = 2, vedges = []\<rparr>]] = Some (nodes', k') \<and>
     map length nodes' = [1, 1]"
proof -
  show ?thesis
    using counting_varied optimizations_improve [of "[[\<lparr>vid = 1, vedges = [2]\<rparr>], [\<lparr>vid = 2, vedges = []\<rparr>]]" "\<lambda>k. k" 3 0]
    by (auto simp: numeral_2_eq_2)
qed

lemma saved_graph:
  assumes "Parse file ([], []) = Some (ok, ns, edges)"
    and "list_all (\<lambda>n. small_id (node_id n) \<and> node_id n \<noteq> 0) ns" and "list_all edge_ok edges"
    and "partgraph_start arg file = Some (Inr (verts, edges))"
    and "optimizations rand n k verts = Some (verts', k')" and "yr20 \<le> now"
  shows "Parse (Some (saveGraph (graph_name now) verts' edges)) ([], []) =
      Some (True, map read_node (saved_nodes verts'), map read_edge edges)"
    "mset (map node_id (saved_nodes verts')) = mset (map node_id ns)"
    "length verts' = nat (atoi arg)" "2 \<le> atoi arg"
proof -
  let ?s = "saved_nodes verts'"
  have verts: "verts = deal edges (nat (atoi arg)) ns" and g: "2 \<le> atoi arg"
    by (rule start_result [OF assms(4)]; use assms(1) in simp)+
  note inv = optimizations_inv [OF assms(5)]
  have len: "length verts' = nat (atoi arg)"
    using inv verts by (metis length_deal length_map)
  have "mset (map node_id ?s) = image_mset (\<lambda>v. word_of_int (vid v)) (mset (concat verts'))"
    by (simp add: saved_ids)
  also have "\<dots> = image_mset (\<lambda>v. word_of_int (vid v)) (mset (map (vertex_of edges) ns))"
    using inv g by (simp add: verts mset_deal)
  also have "\<dots> = mset (map node_id ns)" by (simp add: multiset.map_comp comp_def)
  finally have ids: "mset (map node_id ?s) = mset (map node_id ns)" .
  have "list_all node_ok ?s"
    unfolding list_all_iff
  proof
    fix n assume n: "n \<in> set ?s"
    have "node_id n \<in> set (map node_id ns)"
      using n mset_eq_setD [OF ids] by auto
    moreover have "node_label n < 2 ^ 31"
      using saved_labels [OF n] as_int32_bounds [of "strtol arg"] len g by (simp add: atoi_def)
    ultimately show "node_ok n"
      using assms(2) saved_labels [OF n] by (auto simp: node_ok_def list_all_iff signed_range_def)
  qed
  then show "Parse (Some (saveGraph (graph_name now) verts' edges)) ([], []) =
      Some (True, map read_node ?s, map read_edge edges)"
    unfolding saveGraph_write by (rule Parse_written [OF graph_name_ok [OF assms(6)] _ assms(3)])
  show "mset (map node_id ?s) = mset (map node_id ns)" "length verts' = nat (atoi arg)" "2 \<le> atoi arg"
    by (fact ids len g)+
qed

text \<open>The partitioner preserves the graph: for a file with ids from 1 to \<open>2^31 - 1\<close>, whatever swaps
  were made, the file it saves parses to the same nodes, in some order, each labelled with a
  group (group 0 as "no label"), and to the same edges.
\<close>

theorem partgraph_preserves_graph:
  assumes "Parse file ([], []) = Some (ok, ns, edges)"
    and "list_all (\<lambda>n. small_id (node_id n) \<and> node_id n \<noteq> 0) ns" and "list_all edge_ok edges"
    and "partgraph_start arg file = Some (Inr (verts, edges))"
    and "optimizations rand n k verts = Some (verts', k')" and "yr20 \<le> now"
  shows "\<exists>ns'. Parse (Some (saveGraph (graph_name now) verts' edges)) ([], []) =
      Some (True, ns', map read_edge edges) \<and>
    mset (map node_id ns') = mset (map node_id ns) \<and>
    (\<forall>n \<in> set ns'. node_label n = - 1 \<or> 0 < node_label n \<and> node_label n < atoi arg)"
proof -
  note s = saved_graph [OF assms]
  have "map node_id (map read_node (saved_nodes verts')) = map node_id (saved_nodes verts')" by (simp add: read_node_def)
  moreover have "node_label n = - 1 \<or> 0 < node_label n \<and> node_label n < atoi arg"
    if "n \<in> set (map read_node (saved_nodes verts'))" for n
    using that saved_labels s(3,4) by (fastforce simp: read_node_def read_label_def)
  ultimately show ?thesis using s(1,2) by metis
qed

lemma atoi_two: "atoi ''2'' = 2"
proof -
  have "atoi (show_int 2 @ []) = 2" by (rule atoi_show_int) (simp_all add: signed_range_def digits_end_def)
  moreover have "show_int 2 = ''2''" by (simp add: show_int_def show_nat.simps char_of_def bit_0)
  ultimately show ?thesis by simp
qed

lemma tiny_start: "partgraph_start ''2'' (Some tiny_graph) =
   Some (Inr (deal [\<lparr>edge_from = 1, edge_to = 2, edge_label = 3\<rparr>] 2
     [\<lparr>node_id = 1, node_label = 5\<rparr>, \<lparr>node_id = 2, node_label = 5\<rparr>], [\<lparr>edge_from = 1, edge_to = 2, edge_label = 3\<rparr>]))"
proof -
  let ?es = "[\<lparr>edge_from = 1, edge_to = 2, edge_label = 3\<rparr>]"
  let ?ns = "[\<lparr>node_id = 1, node_label = 5\<rparr>, \<lparr>node_id = 2, node_label = 5\<rparr>]"
  have "[] \<notin> set (deal ?es 2 ?ns)" by (subst deal_empty_iff) simp_all
  then have "\<not> list_ex (\<lambda>part. length part < 1) (deal ?es 2 ?ns)" by (auto simp: list_ex_iff)
  then show ?thesis
    by (simp add: partgraph_start_def atoi_two loadGraph_def tiny_parse flip: deal_def)
qed

theorem partgraph_preserves_graph_witness:
  "\<exists>ns'. Parse (Some (saveGraph (graph_name 1700000000000)
     (deal [\<lparr>edge_from = 1, edge_to = 2, edge_label = 3\<rparr>] 2 [\<lparr>node_id = 1, node_label = 5\<rparr>, \<lparr>node_id = 2, node_label = 5\<rparr>])
     [\<lparr>edge_from = 1, edge_to = 2, edge_label = 3\<rparr>])) ([], []) =
   Some (True, ns', [\<lparr>edge_from = 1, edge_to = 2, edge_label = 3\<rparr>]) \<and> mset (map node_id ns') = {#1, 2#}"
proof -
  let ?es = "[\<lparr>edge_from = 1, edge_to = 2, edge_label = 3\<rparr>]"
  have "list_all edge_ok ?es" by (simp add: edge_ok_def small_id_def signed_range_def)
  moreover have "optimizations (\<lambda>k. k) 0 0 (deal ?es 2 [\<lparr>node_id = 1, node_label = 5\<rparr>, \<lparr>node_id = 2, node_label = 5\<rparr>]) =
      Some (deal ?es 2 [\<lparr>node_id = 1, node_label = 5\<rparr>, \<lparr>node_id = 2, node_label = 5\<rparr>], 0)" by simp
  ultimately show ?thesis
    using partgraph_preserves_graph [OF tiny_parse _ _ tiny_start, of "\<lambda>k. k" 0 0 _ 0 1700000000000]
    by (auto simp: small_id_def yr20_def read_edge_def read_label_def)
qed

section \<open>What the number it prints counts\<close>

text \<open>The reference: an edge of the graph whose ends are in one group.\<close>

definition internal_edge :: "Vertex list list \<Rightarrow> GraphEdge \<Rightarrow> bool" where
  "internal_edge verts e \<longleftrightarrow>
    list_ex (\<lambda>part. sint (edge_from e) \<in> set (map vid part) \<and> sint (edge_to e) \<in> set (map vid part)) verts"

lemma sint_inject: "sint a = sint b \<longleftrightarrow> a = b" for a b :: u32
  by (auto intro: signed_word_eqI)

lemma countHyperEdges_eq:
  "countHyperEdges part = int (sum_list (map (\<lambda>v. length (filter (\<lambda>x. x \<notin> set (map vid part)) (vedges v))) part))"
proof -
  have inner: "fold (\<lambda>x count. if P x then count + 1 else count) xs c = c + int (length (filter P xs))" for P xs c
    by (induction xs arbitrary: c) simp_all
  have outer: "fold (\<lambda>v c. c + int (g v)) vs c = c + int (sum_list (map g vs))" for g :: "Vertex \<Rightarrow> nat" and vs c
    by (induction vs arbitrary: c) simp_all
  have "(\<lambda>x. \<not> list_ex (\<lambda>v2. x = vid v2) part) = (\<lambda>x. x \<notin> set (map vid part))"
    by (auto simp: list_ex_iff fun_eq_iff)
  then show ?thesis by (simp only: countHyperEdges_def Let_def inner outer) simp
qed

lemma sum_filter_swap:
  "sum_list (map (\<lambda>x. length (filter (Q x) es)) xs) = sum_list (map (\<lambda>e. length (filter (\<lambda>x. Q x e) xs)) es)"
proof (induction xs)
  case Nil
  then show ?case by (simp add: sum_list_triv)
next
  case (Cons x xs)
  have "length (filter (Q x) es) = sum_list (map (\<lambda>e. if Q x e then 1 else 0) es)"
    by (induction es) simp_all
  then show ?case using Cons by (simp flip: sum_list_addf) (intro arg_cong [where f = sum_list] map_cong; simp)
qed

lemma filter_one:
  assumes "distinct (map h xs)"
  shows "length (filter (\<lambda>x. h x = a \<and> Q x) xs) = (if \<exists>x \<in> set xs. h x = a \<and> Q x then 1 else 0)"
  using assms
proof (induction xs)
  case Nil
  then show ?case by simp
next
  case (Cons x xs)
  show ?case
  proof (cases "h x = a")
    case True
    then have "h y \<noteq> a" if "y \<in> set xs" for y using Cons.prems that by (auto intro: rev_image_eqI)
    then show ?thesis by auto
  next
    case False
    then show ?thesis using Cons by auto
  qed
qed

definition vertex_in_parts :: "Vertex list list \<Rightarrow> (Vertex list \<times> Vertex) list" where
  "vertex_in_parts verts = concat (map (\<lambda>part. map (Pair part) part) verts)"

lemma vertex_in_parts: "(part, v) \<in> set (vertex_in_parts verts) \<longleftrightarrow> part \<in> set verts \<and> v \<in> set part"
  by (auto simp: vertex_in_parts_def)

lemma total_by_vertex:
  assumes "\<forall>v \<in> set (concat verts). vedges v = map (\<lambda>e. sint (edge_to e)) (filter (\<lambda>e. sint (edge_from e) = vid v) edges)"
  shows "total_edges verts = int (sum_list (map (\<lambda>x. length (filter (\<lambda>e. vid (snd x) = sint (edge_from e) \<and>
    sint (edge_to e) \<notin> set (map vid (fst x))) edges)) (vertex_in_parts verts)))"
  using assms
proof (induction verts)
  case Nil
  then show ?case by (simp add: total_edges_def vertex_in_parts_def)
next
  case (Cons part verts)
  have "map (\<lambda>v. length (filter (\<lambda>x. x \<notin> set (map vid part)) (vedges v))) part =
      map (\<lambda>v. length (filter (\<lambda>e. vid v = sint (edge_from e) \<and> sint (edge_to e) \<notin> set (map vid part)) edges)) part"
    using Cons.prems by (intro map_cong refl) (auto simp: filter_map comp_def conj_commute intro!: arg_cong [where f = length] filter_cong)
  then have "countHyperEdges part = int (sum_list (map (\<lambda>v. length (filter (\<lambda>e. vid v = sint (edge_from e) \<and>
      sint (edge_to e) \<notin> set (map vid part)) edges)) part))"
    by (simp only: countHyperEdges_eq)
  moreover have "total_edges verts = int (sum_list (map (\<lambda>x. length (filter (\<lambda>e. vid (snd x) = sint (edge_from e) \<and>
    sint (edge_to e) \<notin> set (map vid (fst x))) edges)) (vertex_in_parts verts)))"
    using Cons by simp
  ultimately show ?case by (simp add: total_edges_def vertex_in_parts_def comp_def)
qed

lemma total_is_cut:
  assumes d: "distinct (map vid (concat verts))"
    and "\<forall>v \<in> set (concat verts). vedges v = map (\<lambda>e. sint (edge_to e)) (filter (\<lambda>e. sint (edge_from e) = vid v) edges)"
    and "\<forall>e \<in> set edges. sint (edge_from e) \<in> set (map vid (concat verts))"
  shows "total_edges verts = int (length (filter (\<lambda>e. \<not> internal_edge verts e) edges))"
proof -
  let ?xs = "vertex_in_parts verts" and ?h = "\<lambda>x. vid (snd x)"
  have h: "map ?h ?xs = map vid (concat verts)"
    by (induction verts) (simp_all add: vertex_in_parts_def comp_def)
  have one: "length (filter (\<lambda>x. ?h x = sint (edge_from e) \<and> sint (edge_to e) \<notin> set (map vid (fst x))) ?xs) =
      (if internal_edge verts e then 0 else 1)" if e: "e \<in> set edges" for e
  proof -
    obtain p v where pv: "(p, v) \<in> set ?xs" "vid v = sint (edge_from e)"
      using assms(3) e by (auto simp: vertex_in_parts)
    have same: "q = p" if "q \<in> set verts" "w \<in> set q" "vid w = sint (edge_from e)" for q w
    proof -
      have "inj_on ?h (set ?xs)" using d unfolding h [symmetric] distinct_map by simp
      moreover have "(q, w) \<in> set ?xs" using that by (simp add: vertex_in_parts)
      ultimately show ?thesis using pv that(3) by (metis inj_onD fst_conv snd_conv)
    qed
    have "(\<exists>x \<in> set ?xs. ?h x = sint (edge_from e) \<and> sint (edge_to e) \<notin> set (map vid (fst x))) \<longleftrightarrow>
        sint (edge_to e) \<notin> set (map vid p)"
    proof
      assume "\<exists>x \<in> set ?xs. ?h x = sint (edge_from e) \<and> sint (edge_to e) \<notin> set (map vid (fst x))"
      then obtain q w where "q \<in> set verts" "w \<in> set q" "vid w = sint (edge_from e)" "sint (edge_to e) \<notin> set (map vid q)"
        by (auto simp: vertex_in_parts)
      then show "sint (edge_to e) \<notin> set (map vid p)" using same by blast
    next
      assume "sint (edge_to e) \<notin> set (map vid p)"
      then show "\<exists>x \<in> set ?xs. ?h x = sint (edge_from e) \<and> sint (edge_to e) \<notin> set (map vid (fst x))"
        using pv by (intro bexI [OF _ pv(1)]) simp
    qed
    moreover have "internal_edge verts e \<longleftrightarrow> sint (edge_to e) \<in> set (map vid p)"
    proof
      assume "internal_edge verts e"
      then obtain q w where "q \<in> set verts" "w \<in> set q" "vid w = sint (edge_from e)" "sint (edge_to e) \<in> set (map vid q)"
        unfolding internal_edge_def list_ex_iff by (metis (no_types, lifting) imageE list.set_map)
      then show "sint (edge_to e) \<in> set (map vid p)" using same by blast
    next
      assume "sint (edge_to e) \<in> set (map vid p)"
      moreover have "p \<in> set verts" "v \<in> set p" using pv(1) by (simp_all add: vertex_in_parts)
      ultimately show "internal_edge verts e"
        using pv(2) unfolding internal_edge_def list_ex_iff by (metis image_eqI list.set_map)
    qed
    ultimately show ?thesis using filter_one [of ?h ?xs] d h by simp
  qed
  have ones: "sum_list (map (\<lambda>e. if P e then 0 else 1) es) = length (filter (\<lambda>e. \<not> P e) es)"
    for P and es :: "GraphEdge list"
    by (induction es) simp_all
  have "map (\<lambda>e. length (filter (\<lambda>x. ?h x = sint (edge_from e) \<and> sint (edge_to e) \<notin> set (map vid (fst x))) ?xs)) edges =
      map (\<lambda>e. if internal_edge verts e then 0 else 1) edges"
    using one by (intro map_cong refl) simp
  then show ?thesis
    unfolding total_by_vertex [OF assms(2)]
      sum_filter_swap [where Q = "\<lambda>x e. ?h x = sint (edge_from e) \<and> sint (edge_to e) \<notin> set (map vid (fst x))"]
    by (simp only: ones)
qed

lemma optimized_total:
  assumes "Parse file ([], []) = Some (ok, ns, edges)" and "distinct (map node_id ns)"
    and "\<forall>e \<in> set edges. edge_from e \<in> set (map node_id ns)"
    and "partgraph_start arg file = Some (Inr (verts, edges))"
    and "optimizations rand n k verts = Some (verts', k')"
  shows "total_edges verts' = int (length (filter (\<lambda>e. \<not> internal_edge verts' e) edges))"
proof -
  have verts: "verts = deal edges (nat (atoi arg)) ns" and g: "2 \<le> atoi arg"
    by (rule start_result [OF assms(4)]; use assms(1) in simp)+
  have m: "mset (concat verts') = mset (map (vertex_of edges) ns)"
    using optimizations_inv [OF assms(5)] g by (simp add: verts mset_deal)
  then have set: "set (concat verts') = vertex_of edges ` set ns" by (metis mset_eq_setD set_map)
  have "mset (map vid (concat verts')) = image_mset vid (mset (concat verts'))" by simp
  also have "\<dots> = mset (map (\<lambda>n. sint (node_id n)) ns)" by (simp add: m vertex_of_def comp_def multiset.map_comp)
  finally have ids: "mset (map vid (concat verts')) = mset (map (\<lambda>n. sint (node_id n)) ns)" .
  have "distinct (map (\<lambda>n. sint (node_id n)) ns)"
    using assms(2) by (simp add: distinct_map inj_on_def signed_word_eqI)
  then have "distinct (map vid (concat verts'))" using ids by (metis mset_eq_imp_distinct_iff)
  moreover have "\<forall>v \<in> set (concat verts'). vedges v = map (\<lambda>e. sint (edge_to e)) (filter (\<lambda>e. sint (edge_from e) = vid v) edges)"
    unfolding set by (simp add: vertex_of_def sint_inject)
  moreover have "\<forall>e \<in> set edges. sint (edge_from e) \<in> set (map vid (concat verts'))"
    unfolding mset_eq_setD [OF ids] using assms(3) by auto
  ultimately show ?thesis using total_is_cut by blast
qed

text \<open>At every moment of its work the total the partitioner prints is the size of the cut, counted
  from the edge list of the file: the number of edges whose ends are not in one group.
\<close>

theorem printed_total_is_cut:
  assumes "Parse file ([], []) = Some (ok, ns, edges)" and "distinct (map node_id ns)"
    and "\<forall>e \<in> set edges. edge_from e \<in> set (map node_id ns)"
    and "partgraph_start arg file = Some (Inr (verts, edges))"
    and "optimizations rand n k verts = Some (verts', k')"
  shows "sum_list (map countHyperEdges verts') = int (length (filter (\<lambda>e. \<not> internal_edge verts' e) edges))"
  using optimized_total [OF assms] by (simp add: total_edges_def)

theorem printed_total_is_cut_witness:
  "sum_list (map countHyperEdges (deal [\<lparr>edge_from = 1, edge_to = 2, edge_label = 3\<rparr>] 2
      [\<lparr>node_id = 1, node_label = 5\<rparr>, \<lparr>node_id = 2, node_label = 5\<rparr>])) = 1"
proof -
  let ?es = "[\<lparr>edge_from = 1, edge_to = 2, edge_label = 3\<rparr>]"
  let ?verts = "deal ?es 2 [\<lparr>node_id = 1, node_label = 5\<rparr>, \<lparr>node_id = 2, node_label = 5\<rparr>]"
  have "optimizations (\<lambda>k. k) 0 0 ?verts = Some (?verts, 0)" by simp
  then have "sum_list (map countHyperEdges ?verts) = int (length (filter (\<lambda>e. \<not> internal_edge ?verts e) ?es))"
    by (intro printed_total_is_cut [OF tiny_parse _ _ tiny_start, of "\<lambda>k. k" 0 0 _ 0]) simp_all
  then show ?thesis by (simp add: internal_edge_def deal_def vertex_of_def numeral_2_eq_2)
qed

end
