(* ===== verification/Part_Main.thy ===== *)
theory Part_Main
  imports Part_Graph
begin

text \<open>
  \<open>main\<close> of \<open>utils/partgraph.cpp\<close> from its arguments to the file it saves and the text it prints,
  and what the saved file is: the same graph, its labels a balanced partition whose cut is the
  printed number.  The steps until a key is pressed and the seconds they take are arguments.
\<close>

section \<open>The program\<close>

record part_run =
  exit_code :: int
  printed :: string
  saved :: "(string \<times> string) option"

definition partgraph_usage :: "string \<Rightarrow> string" where
  "partgraph_usage prog =
    ''distributAr (distributed Architecture framework) graph optimizer'' @ [NL] @
    ''usage: '' @ prog @ '' filename.dot #partitions'' @ [NL]"

definition empty_group_message :: "nat \<Rightarrow> int \<Rightarrow> string" where
  "empty_group_message i groupCount =
    ''Error: group '' @ show_nat i @ '' is empty!  '' @ [NL] @
    ''Not enough vertices in a graph to partition it into '' @ show_int groupCount @ '' groups.'' @ [NL]"

definition report_run :: "nat \<Rightarrow> int \<Rightarrow> Vertex list list \<Rightarrow> string \<Rightarrow> string" where
  "report_run optCount runtime nodes graphName =
    ''Performed '' @ show_nat optCount @ '' optimizations in '' @ show_int runtime @ '' seconds.'' @ [NL] @
    printPartitions nodes @
    ''Saving optimized graph.'' @ [NL] @
    ''Graph saved to '' @ graphName @ [NL]"

definition partgraph_main :: "(string \<Rightarrow> string option) \<Rightarrow> (nat \<Rightarrow> nat) \<Rightarrow> nat \<Rightarrow> int \<Rightarrow> int \<Rightarrow> string list \<Rightarrow> part_run option" where
  "partgraph_main files rand optCount runtime now argv =
    (if length argv < 3 then Some \<lparr>exit_code = 1, printed = partgraph_usage (argv ! 0), saved = None\<rparr>
     else let dotFileName = argv ! 1; groupCount = atoi (argv ! 2)
       in if groupCount < 2
          then Some \<lparr>exit_code = 2, printed = ''Invalid group size!'' @ [NL], saved = None\<rparr>
          else let loading = ''Loading graph from '' @ dotFileName @ [NL]
            in case loadGraph (files dotFileName) (replicate (nat groupCount) []) of
                 None \<Rightarrow> None
               | Some (nodes, edges) \<Rightarrow>
                   (case find (\<lambda>i. length (nodes ! i) < 1) [0..<length nodes] of
                      Some i \<Rightarrow>
                        Some \<lparr>exit_code = 3, printed = loading @ empty_group_message i groupCount, saved = None\<rparr>
                    | None \<Rightarrow>
                        (case optimizations rand optCount 0 nodes of
                           None \<Rightarrow> None
                         | Some (nodes', _) \<Rightarrow>
                             let graphName = graph_name now @ ''.dot''
                             in Some \<lparr>exit_code = 0,
                                  printed = loading @ ''Optiminzing partitions. Press any key to stop.'' @ [NL] @
                                    report_run optCount runtime nodes' graphName,
                                  saved = Some (graphName, saveGraph (graph_name now) nodes' edges)\<rparr>)))"

text \<open>
  The test for a key: \<open>select\<close> is the kernel, asked at each turn whether descriptor 0 can be read without
  waiting.  The number of turns in \<open>partgraph_main\<close> is that of the answers before the first one that is not 0,
  an error of \<open>select\<close> among them.
\<close>

record select_args =
  nfds :: int
  readfds :: "int set"
  tv_sec :: int
  tv_usec :: int

definition kbhit :: "(select_args \<Rightarrow> int) \<Rightarrow> int" where
  "kbhit select =
    (let STDIN = 0; rdset = insert STDIN {}
     in select \<lparr>nfds = STDIN + 1, readfds = rdset, tv_sec = 0, tv_usec = 0\<rparr>)"

fun until_key :: "(nat \<Rightarrow> nat) \<Rightarrow> (select_args \<Rightarrow> int) list \<Rightarrow> nat \<Rightarrow> Vertex list list \<Rightarrow> (Vertex list list \<times> nat) option" where
  "until_key rand [] k nodes = Some (nodes, k)"
| "until_key rand (s # ss) k nodes =
    (if kbhit s \<noteq> 0 then Some (nodes, k)
     else case optimizePartitions rand k nodes of
       None \<Rightarrow> None
     | Some (nodes', k') \<Rightarrow> until_key rand ss k' nodes')"

lemma until_key_optimizations:
  "until_key rand ss k nodes = optimizations rand (length (takeWhile (\<lambda>s. kbhit s = 0) ss)) k nodes"
  by (induction ss arbitrary: k nodes) (auto split: option.split)

section \<open>Groups as labels\<close>

text \<open>The reference on the file alone: the ends of an edge carry one label.\<close>

definition same_label :: "GraphNode list \<Rightarrow> GraphEdge \<Rightarrow> bool" where
  "same_label ns e \<longleftrightarrow>
    list_ex (\<lambda>n. node_id n = edge_from e \<and> list_ex (\<lambda>m. node_id m = edge_to e \<and> node_label m = node_label n) ns) ns"

definition label_cut :: "GraphNode list \<Rightarrow> GraphEdge list \<Rightarrow> nat" where
  "label_cut ns es = length (filter (\<lambda>e. \<not> same_label ns e) es)"

text \<open>The graph with every node labelled by its position in the file, round robin.\<close>

definition round_robin :: "nat \<Rightarrow> GraphNode list \<Rightarrow> GraphNode list" where
  "round_robin g ns = map (\<lambda>(i, n). n\<lparr>node_label := int (i mod g)\<rparr>) (enumerate 0 ns)"

lemma same_label_iff:
  "same_label ns e \<longleftrightarrow> (\<exists>n \<in> set ns. \<exists>m \<in> set ns. node_id n = edge_from e \<and> node_id m = edge_to e \<and> node_label m = node_label n)"
  by (auto simp: same_label_def list_ex_iff)

lemma read_label_inject: "0 \<le> a \<Longrightarrow> 0 \<le> b \<Longrightarrow> read_label a = read_label b \<longleftrightarrow> a = b"
  by (simp add: read_label_def)

lemma set_enumerate_0: "set (enumerate 0 xs) = (\<lambda>i. (i, xs ! i)) ` {..<length xs}"
  by (auto simp: in_set_enumerate_eq)

lemma saved_node_iff:
  "n \<in> set (saved_nodes verts) \<longleftrightarrow>
     (\<exists>i < length verts. \<exists>v \<in> set (verts ! i). n = \<lparr>node_id = word_of_int (vid v), node_label = int i\<rparr>)"
  by (auto simp: saved_nodes_def set_enumerate_0)

text \<open>Vertices whose ids come from a file.\<close>

definition from_file :: "Vertex list list \<Rightarrow> bool" where
  "from_file verts \<longleftrightarrow> (\<forall>v \<in> set (concat verts). sint (word_of_int (vid v) :: u32) = vid v)"

lemma same_label_read:
  assumes "\<forall>n \<in> set ns. 0 \<le> node_label n"
  shows "same_label (map read_node ns) e \<longleftrightarrow> same_label ns e"
  unfolding same_label_iff using assms read_label_inject by (auto simp: read_node_def)

lemma internal_is_label:
  assumes "from_file verts"
  shows "internal_edge verts e \<longleftrightarrow> same_label (saved_nodes verts) e"
proof -
  have eq: "vid v = sint w \<longleftrightarrow> word_of_int (vid v) = w" if "i < length verts" "v \<in> set (verts ! i)" for i v and w :: u32
  proof -
    have "sint (word_of_int (vid v) :: u32) = vid v"
      using assms that(2) nth_mem [OF that(1)] by (auto simp: from_file_def)
    then show ?thesis by auto
  qed
  have "internal_edge verts e \<longleftrightarrow>
      (\<exists>i < length verts. \<exists>v \<in> set (verts ! i). \<exists>u \<in> set (verts ! i). vid v = sint (edge_from e) \<and> vid u = sint (edge_to e))"
    unfolding internal_edge_def list_ex_iff set_conv_nth [of verts] by (auto simp: image_iff eq_commute)
  also have "\<dots> \<longleftrightarrow> (\<exists>i < length verts. \<exists>v \<in> set (verts ! i). \<exists>u \<in> set (verts ! i).
      word_of_int (vid v) = edge_from e \<and> word_of_int (vid u) = edge_to e)"
    using eq by blast
  also have "\<dots> \<longleftrightarrow> same_label (saved_nodes verts) e"
    unfolding same_label_iff Bex_def saved_node_iff by fastforce
  finally show ?thesis .
qed

section \<open>The groups at the start\<close>

lemma count_residue:
  "j < g \<Longrightarrow> length (filter (\<lambda>i. i mod g = j) [0..<m]) = m div g + (if j < m mod g then 1 else 0)"
  by (induction m) (auto simp: mod_Suc div_Suc)

lemma deal_size: "j < g \<Longrightarrow> length (deal edges g ns ! j) = length ns div g + (if j < length ns mod g then 1 else 0)"
  by (simp add: nth_deal count_residue)

lemma relabel: "n\<lparr>node_label := l\<rparr> = \<lparr>node_id = node_id n, node_label = l\<rparr>" for n :: GraphNode
  by (cases n) simp

lemma saved_deal: "0 < g \<Longrightarrow> set (saved_nodes (deal edges g ns)) = set (round_robin g ns)"
proof -
  assume g: "0 < g"
  have "n \<in> set (saved_nodes (deal edges g ns)) \<longleftrightarrow>
      (\<exists>x < length ns. n = \<lparr>node_id = node_id (ns ! x), node_label = int (x mod g)\<rparr>)" for n
    using g unfolding saved_node_iff by (fastforce simp: nth_deal)
  moreover have "n \<in> set (round_robin g ns) \<longleftrightarrow>
      (\<exists>x < length ns. n = \<lparr>node_id = node_id (ns ! x), node_label = int (x mod g)\<rparr>)" for n
    unfolding round_robin_def set_map set_enumerate_0 image_image by (auto simp: image_iff relabel)
  ultimately show ?thesis by blast
qed

lemma saved_group_size:
  assumes "j < length verts"
  shows "length (filter (\<lambda>n. node_label n = read_label (int j)) (map read_node (saved_nodes verts))) = length (verts ! j)"
proof -
  let ?saved = "\<lambda>k verts. concat (map (\<lambda>(i, vgroup).
     map (\<lambda>v. \<lparr>node_id = word_of_int (vid v), node_label = int i\<rparr>) vgroup) (enumerate k verts))"
  have count: "length (filter (\<lambda>n. node_label n = int j) (?saved k verts)) =
      (if k \<le> j \<and> j < k + length verts then length (verts ! (j - k)) else 0)" for k and verts :: "Vertex list list"
    by (induction verts arbitrary: k) (auto simp: comp_def nth_Cons')
  have "filter (\<lambda>n. node_label n = read_label (int j)) (map read_node (saved_nodes verts)) =
      map read_node (filter (\<lambda>n. node_label n = int j) (saved_nodes verts))"
    unfolding filter_map comp_def using saved_labels read_label_inject
    by (intro arg_cong [where f = "map read_node"] filter_cong refl) (auto simp: read_node_def)
  then show ?thesis using assms count [of 0 verts] by (simp add: saved_nodes_def)
qed

section \<open>Running the program\<close>

lemma total_printed:
  "\<exists>pre. printPartitions nodes = pre @ ''Total edges: '' @ show_int (total_edges nodes) @ [NL, NL]"
proof -
  have "fold (\<lambda>part total. total + countHyperEdges part) nodes a = a + total_edges nodes" for a
    by (induction nodes arbitrary: a) (simp_all add: total_edges_def)
  then show ?thesis by (simp add: printPartitions_def)
qed

lemma started:
  assumes "Parse f ([], []) = Some (ok, ns, edges)" and "atoi arg = int g" and "2 \<le> g" and "g \<le> length ns"
  shows "loadGraph f (replicate g []) = Some (deal edges g ns, edges)"
    "find (\<lambda>i. length (deal edges g ns ! i) < 1) [0..<length (deal edges g ns)] = None"
    "partgraph_start arg f = Some (Inr (deal edges g ns, edges))"
proof -
  show l: "loadGraph f (replicate g []) = Some (deal edges g ns, edges)"
    using assms(1) by (simp add: loadGraph_def deal_def)
  have e: "[] \<notin> set (deal edges g ns)" using assms(3,4) by (simp add: deal_empty_iff)
  then show "find (\<lambda>i. length (deal edges g ns ! i) < 1) [0..<length (deal edges g ns)] = None"
    unfolding find_None_iff by (metis One_nat_def atLeastLessThan_iff length_0_conv less_Suc0 nth_mem set_upt)
  show "partgraph_start arg f = Some (Inr (deal edges g ns, edges))"
    using assms(2,3) l e by (auto simp: partgraph_start_def list_ex_iff)
qed

lemma optimized_from_file:
  assumes "optimizations rand n k (deal edges g ns) = Some (verts, k')" "0 < g"
  shows "from_file verts"
proof -
  have "mset (concat verts) = mset (map (vertex_of edges) ns)"
    using optimizations_inv [OF assms(1)] assms(2) by (simp add: mset_deal)
  then have "set (concat verts) = vertex_of edges ` set ns" by (metis mset_eq_setD set_map)
  then show ?thesis unfolding from_file_def by (simp add: vertex_of_def)
qed

lemma total_is_label_cut:
  assumes "Parse f ([], []) = Some (ok, ns, edges)" and "distinct (map node_id ns)"
    and "\<forall>e \<in> set edges. edge_from e \<in> set (map node_id ns)"
    and "atoi arg = int g" and "2 \<le> g" and "g \<le> length ns"
    and "optimizations rand n k (deal edges g ns) = Some (verts, k')"
  shows "total_edges verts = int (label_cut (saved_nodes verts) edges)"
  using optimized_total [OF assms(1-3) started(3) [OF assms(1,4-6)] assms(7)]
    internal_is_label [OF optimized_from_file [OF assms(7)]] assms(5)
  by (simp add: label_cut_def)

lemma main_runs:
  assumes "Parse (files name) ([], []) = Some (ok, ns, edges)" and "atoi arg = int g" and "2 \<le> g"
    and "g \<le> length ns" and "varied rand g"
  obtains verts k' where "optimizations rand n 0 (deal edges g ns) = Some (verts, k')"
    and "partgraph_main files rand n runtime now [prog, name, arg] = Some \<lparr>exit_code = 0,
      printed = ''Loading graph from '' @ name @ [NL] @ ''Optiminzing partitions. Press any key to stop.'' @ [NL] @
        report_run n runtime verts (graph_name now @ ''.dot''),
      saved = Some (graph_name now @ ''.dot'', saveGraph (graph_name now) verts edges)\<rparr>"
proof -
  note s = started [OF assms(1-4)]
  have "deal edges g ns \<noteq> []" "[] \<notin> set (deal edges g ns)"
    using assms(3,4) by (auto simp: deal_empty_iff simp flip: length_greater_0_conv)
  then obtain verts k' where o: "optimizations rand n 0 (deal edges g ns) = Some (verts, k')"
    using optimizations_return [of "deal edges g ns" rand n 0] assms(5) by auto
  show ?thesis
    using that [OF o] s(1,2) o assms(2,3) by (simp add: partgraph_main_def Let_def)
qed

lemma main_partitions:
  assumes "Parse (files name) ([], []) = Some (ok, ns, edges)" and "distinct (map node_id ns)"
    and "list_all (\<lambda>n. small_id (node_id n) \<and> node_id n \<noteq> 0) ns" and "list_all edge_ok edges"
    and "\<forall>e \<in> set edges. edge_from e \<in> set (map node_id ns)"
    and "atoi arg = int g" and "2 \<le> g" and "g \<le> length ns" and "varied rand g" and "yr20 \<le> now"
  shows "\<exists>out txt ns'. partgraph_main files rand n runtime now [prog, name, arg] = Some \<lparr>exit_code = 0,
      printed = out @ ''Total edges: '' @ show_int (int (label_cut ns' edges)) @ [NL, NL] @
        ''Saving optimized graph.'' @ [NL] @ ''Graph saved to '' @ graph_name now @ ''.dot'' @ [NL],
      saved = Some (graph_name now @ ''.dot'', txt)\<rparr> \<and>
    Parse (Some txt) ([], []) = Some (True, ns', map read_edge edges) \<and>
    mset (map node_id ns') = mset (map node_id ns) \<and>
    (\<forall>j < g. length (filter (\<lambda>n. node_label n = read_label (int j)) ns') =
      length ns div g + (if j < length ns mod g then 1 else 0)) \<and>
    (\<forall>m \<in> set ns'. node_label m < int g) \<and>
    label_cut ns' edges \<le> label_cut (round_robin g ns) edges"
proof -
  obtain verts k' where o: "optimizations rand n 0 (deal edges g ns) = Some (verts, k')"
    and run: "partgraph_main files rand n runtime now [prog, name, arg] = Some \<lparr>exit_code = 0,
      printed = ''Loading graph from '' @ name @ [NL] @ ''Optiminzing partitions. Press any key to stop.'' @ [NL] @
        report_run n runtime verts (graph_name now @ ''.dot''),
      saved = Some (graph_name now @ ''.dot'', saveGraph (graph_name now) verts edges)\<rparr>"
    by (rule main_runs [where files = files and name = name, OF assms(1,6-9)])
  let ?ns = "map read_node (saved_nodes verts)"
  note inv = optimizations_inv [OF o] and cut = total_is_label_cut [OF assms(1,2,5-8)]
  have lens: "map length verts = map length (deal edges g ns)" using inv by simp
  then have g: "length verts = g" by (metis length_deal length_map)
  have label0: "\<forall>n \<in> set (saved_nodes verts). 0 \<le> node_label n" using saved_labels by blast
  note s = saved_graph [OF assms(1,3,4) started(3) [OF assms(1,6-8)] o assms(10)]
  have total: "total_edges verts = int (label_cut ?ns edges)"
    using cut [OF o] same_label_read [OF label0] by (simp add: label_cut_def)
  have "total_edges (deal edges g ns) = int (label_cut (saved_nodes (deal edges g ns)) edges)"
    using cut [of rand 0 0 "deal edges g ns" 0] by simp
  then have start: "total_edges (deal edges g ns) = int (label_cut (round_robin g ns) edges)"
    using saved_deal [of g edges ns] assms(7) by (simp add: label_cut_def same_label_iff)
  have sizes: "length (filter (\<lambda>n. node_label n = read_label (int j)) ?ns) =
      length ns div g + (if j < length ns mod g then 1 else 0)" if "j < g" for j
    using saved_group_size [of j verts] deal_size [OF that, of edges ns] arg_cong [OF lens, of "\<lambda>ls. ls ! j"] that g by simp
  obtain pre where "printPartitions verts = pre @ ''Total edges: '' @ show_int (int (label_cut ?ns edges)) @ [NL, NL]"
    using total_printed [of verts] total by metis
  then have "\<exists>out. ''Loading graph from '' @ name @ [NL] @ ''Optiminzing partitions. Press any key to stop.'' @ [NL] @
        report_run n runtime verts (graph_name now @ ''.dot'') =
      out @ ''Total edges: '' @ show_int (int (label_cut ?ns edges)) @ [NL, NL] @
        ''Saving optimized graph.'' @ [NL] @ ''Graph saved to '' @ graph_name now @ ''.dot'' @ [NL]"
    by (intro exI [of _ "''Loading graph from '' @ name @ [NL] @ ''Optiminzing partitions. Press any key to stop.'' @ [NL] @
      ''Performed '' @ show_nat n @ '' optimizations in '' @ show_int runtime @ '' seconds.'' @ [NL] @ pre"])
      (simp add: report_run_def)
  moreover have "mset (map node_id ?ns) = mset (map node_id ns)" using s(2) by (simp add: read_node_def comp_def)
  moreover have "label_cut ?ns edges \<le> label_cut (round_robin g ns) edges" using inv total start by simp
  moreover have "\<forall>m \<in> set ?ns. node_label m < int g"
    using saved_labels [of _ verts] g assms(7) by (auto simp: read_node_def read_label_def)
  ultimately show ?thesis using run s(1) sizes by metis
qed

section \<open>Properties\<close>

text \<open>C22. The partitioner as a whole.  For a file with distinct ids from 1 to \<open>2^31 - 1\<close> and at least as
  many nodes as groups, and random numbers that vary, it ends with status 0 whenever the key is
  pressed, and saves a file that parses to the same nodes and edges.  The labels in that file are
  groups of equal size, up to one node; the total it prints is the number of edges of the file
  whose ends have different labels, and is no more than the round-robin labelling has.
\<close>

theorem partgraph_main_partitions:
  assumes "Parse (files name) ([], []) = Some (ok, ns, edges)" and "distinct (map node_id ns)"
    and "list_all (\<lambda>n. small_id (node_id n) \<and> node_id n \<noteq> 0) ns" and "list_all edge_ok edges"
    and "\<forall>e \<in> set edges. edge_from e \<in> set (map node_id ns)"
    and "atoi arg = int g" and "2 \<le> g" and "g \<le> length ns" and "varied rand g" and "yr20 \<le> now"
  shows "\<exists>out txt ns'. partgraph_main files rand n runtime now [prog, name, arg] = Some \<lparr>exit_code = 0,
      printed = out @ ''Total edges: '' @ show_int (int (label_cut ns' edges)) @ [NL, NL] @
        ''Saving optimized graph.'' @ [NL] @ ''Graph saved to '' @ graph_name now @ ''.dot'' @ [NL],
      saved = Some (graph_name now @ ''.dot'', txt)\<rparr> \<and>
    Parse (Some txt) ([], []) = Some (True, ns', map read_edge edges) \<and>
    mset (map node_id ns') = mset (map node_id ns) \<and>
    (\<forall>j < g. length (filter (\<lambda>n. node_label n = read_label (int j)) ns') =
      length ns div g + (if j < length ns mod g then 1 else 0)) \<and>
    (\<forall>m \<in> set ns'. node_label m < int g) \<and>
    label_cut ns' edges \<le> label_cut (round_robin g ns) edges"
  by (rule main_partitions [where files = files and name = name, OF assms])

theorem partgraph_main_partitions_witness:
  "\<exists>out txt ns'. partgraph_main (\<lambda>name. Some tiny_graph) (\<lambda>k. k) 3 1 1700000000000 [''partgraph'', ''g.dot'', ''2''] =
      Some \<lparr>exit_code = 0, printed = out, saved = Some (graph_name 1700000000000 @ ''.dot'', txt)\<rparr> \<and>
    Parse (Some txt) ([], []) = Some (True, ns', [\<lparr>edge_from = 1, edge_to = 2, edge_label = 3\<rparr>]) \<and>
    mset (map node_id ns') = {#1, 2#}"
proof -
  have "list_all edge_ok [\<lparr>edge_from = 1, edge_to = 2, edge_label = 3\<rparr>]"
    by (simp add: edge_ok_def small_id_def signed_range_def)
  moreover have "atoi ''2'' = int 2" by (simp add: atoi_two)
  ultimately show ?thesis
    using partgraph_main_partitions [where files = "\<lambda>name. Some tiny_graph" and name = "''g.dot''" and
        arg = "''2''" and g = 2 and rand = "\<lambda>k. k" and n = 3 and runtime = 1 and prog = "''partgraph''" and
        now = 1700000000000, OF tiny_parse]
      counting_varied
    by (force simp: small_id_def yr20_def read_edge_def read_label_def)
qed

text \<open>With fewer nodes than groups it saves nothing, whatever the random numbers: it names the first
  empty group, which is the number of nodes, and ends with status 3.  A file that cannot be opened
  counts as a graph without nodes.
\<close>

theorem partgraph_main_refuses:
  assumes "Parse (files name) ([], []) = Some (ok, ns, edges)" and "atoi arg = int g" and "2 \<le> g" and "length ns < g"
  shows "partgraph_main files rand n runtime now [prog, name, arg] = Some \<lparr>exit_code = 3,
    printed = ''Loading graph from '' @ name @ [NL] @ empty_group_message (length ns) (int g), saved = None\<rparr>"
proof -
  have size: "length (deal edges g ns ! i) < 1 \<longleftrightarrow> length ns \<le> i" if "i < g" for i
    using assms(4) that by (simp add: deal_size)
  have "find (\<lambda>i. length (deal edges g ns ! i) < 1) [0..<length (deal edges g ns)] = Some (length ns)"
    unfolding find_Some_iff using assms(4) size by (intro exI [of _ "length ns"]) auto
  then show ?thesis
    using assms(1-3) by (simp add: partgraph_main_def Let_def loadGraph_def flip: deal_def)
qed

theorem partgraph_main_refuses_witness:
  "partgraph_main (\<lambda>name. None) (\<lambda>k. 0) 0 0 0 [''partgraph'', ''nofile'', ''2''] = Some \<lparr>exit_code = 3,
    printed = ''Loading graph from nofile'' @ [NL] @ empty_group_message 0 2, saved = None\<rparr>"
  using partgraph_main_refuses [where files = "\<lambda>name. None" and name = "''nofile''" and ok = True and ns = "[]" and
      edges = "[]" and arg = "''2''" and g = 2 and rand = "\<lambda>k. 0" and n = 0 and runtime = 0 and prog = "''partgraph''" and now = 0]
  by (simp add: Parse_def atoi_two)

end
