(* ===== verification/Graph_Gen.thy ===== *)
theory Graph_Gen
  imports Graph_IO Prelude
begin

text \<open>
  The generator of random graphs of \<open>utils/graph.cpp\<close>.  The values \<open>rand()\<close> returns are a sequence,
  as in the partitioner; \<open>None\<close> is a division by zero or a loop that never ends.  \<open>logNetSize\<close>, the logarithm of the size
  rounded up, is computed in floating point and is an argument.
\<close>

definition GenerateParameters :: "(nat \<Rightarrow> nat) \<Rightarrow> nat \<Rightarrow> nat \<Rightarrow> ((nat \<times> nat \<times> nat \<times> nat) \<times> nat) option" where
  "GenerateParameters rand k logNetSize =
    (if logNetSize = 0 then None
     else let connectivity = 10 + rand k mod logNetSize;
              weight = 5 + rand (Suc k) mod MAX_OUTPUT_NODES
       in Some ((connectivity, weight, connectivity * 10, weight), k + 2))"

text \<open>The loop of \<open>Connect\<close>: the text it writes and the next position in the random sequence.\<close>

fun connect_loop :: "(nat \<Rightarrow> nat) \<Rightarrow> nat \<Rightarrow> u32 \<Rightarrow> nat \<Rightarrow> nat \<Rightarrow> nat \<Rightarrow> string \<times> nat" where
  "connect_loop rand 0 cluster clusterCount weight k = ([], k)"
| "connect_loop rand (Suc n) cluster clusterCount weight k =
    (let destination = 1 + rand k mod clusterCount;
         (rest, k') = connect_loop rand n cluster clusterCount weight (Suc k)
     in (WriteEdge cluster (of_nat destination) (int weight) @ rest, k'))"

definition Connect :: "(nat \<Rightarrow> nat) \<Rightarrow> u32 \<Rightarrow> nat \<Rightarrow> nat \<Rightarrow> nat \<Rightarrow> nat \<Rightarrow> (string \<times> nat) option" where
  "Connect rand cluster clusterCount avgConnectivity avgWeight k =
    (if avgConnectivity = 0 \<or> avgWeight = 0 then None
     else let connectivity = rand k mod avgConnectivity + rand (k + 1) mod avgConnectivity;
              weight = rand (k + 2) mod avgWeight + rand (k + 3) mod avgWeight
       in if clusterCount = 0 \<and> connectivity > 0 then None
          else Some (connect_loop rand connectivity cluster clusterCount weight (k + 4)))"

fun connect_all :: "(nat \<Rightarrow> nat) \<Rightarrow> nat list \<Rightarrow> nat \<Rightarrow> nat \<Rightarrow> nat \<Rightarrow> nat \<Rightarrow> (string \<times> nat) option" where
  "connect_all rand [] networkSize avgConnectivity avgWeight k = Some ([], k)"
| "connect_all rand (c # cs) networkSize avgConnectivity avgWeight k =
    (case Connect rand (of_nat c) networkSize avgConnectivity avgWeight k of
       None \<Rightarrow> None
     | Some (s, k') \<Rightarrow>
         (case connect_all rand cs networkSize avgConnectivity avgWeight k' of
            None \<Rightarrow> None
          | Some (rest, k'') \<Rightarrow> Some (s @ rest, k'')))"

text \<open>The loop that writes the nodes; its counter is unsigned, and wraps.\<close>

partial_function (option) write_nodes :: "u32 \<Rightarrow> u32 \<Rightarrow> string option" where
  "write_nodes i networkSize =
    (if i \<le> networkSize then
       (let nodePerCluster = 1000
        in Option.bind (write_nodes (i + 1) networkSize) (\<lambda>rest. Some (WriteNode i nodePerCluster @ rest)))
     else Some [])"

definition BuildNetwork :: "(nat \<Rightarrow> nat) \<Rightarrow> string \<Rightarrow> nat \<Rightarrow> nat \<Rightarrow> nat \<Rightarrow> nat \<Rightarrow> (string \<times> nat) option" where
  "BuildNetwork rand gname networkSize avgConnectivity avgWeight k =
    (case write_nodes 1 (of_nat networkSize) of
       None \<Rightarrow> None
     | Some nodes \<Rightarrow>
         (case connect_all rand [1..<Suc networkSize] networkSize avgConnectivity avgWeight k of
            None \<Rightarrow> None
          | Some (edges, k') \<Rightarrow> Some (InitGraph gname @ nodes @ edges @ CloseGraph, k')))"

lemma write_nodes_all:
  assumes "Suc n < 2 ^ 32" "m \<le> Suc n"
  shows "write_nodes (of_nat m) (of_nat n) = Some (concat (map (\<lambda>i. WriteNode (of_nat i) 1000) [m..<Suc n]))"
  using assms(2)
proof (induction "Suc n - m" arbitrary: m)
  case 0
  then have "m = Suc n" by simp
  moreover have "\<not> (of_nat (Suc n) :: u32) \<le> of_nat n"
    using assms(1) by (simp add: word_le_nat_alt unat_of_nat take_bit_nat_eq_self del: of_nat_Suc)
  ultimately show ?case by (subst write_nodes.simps) simp
next
  case (Suc d)
  then have m: "m \<le> n" by simp
  then have "(of_nat m :: u32) \<le> of_nat n"
    using assms(1) by (simp add: word_le_nat_alt unat_of_nat take_bit_nat_eq_self)
  moreover have "write_nodes (of_nat (Suc m)) (of_nat n) = Some (concat (map (\<lambda>i. WriteNode (of_nat i) 1000) [Suc m..<Suc n]))"
    using Suc m by (intro Suc.hyps(1)) simp_all
  moreover have "[m..<Suc n] = m # [Suc m..<Suc n]" using m by (simp add: upt_conv_Cons)
  ultimately show ?case by (subst write_nodes.simps) (simp add: add.commute del: upt_Suc)
qed

text \<open>For the largest unsigned number the loop does not end.\<close>

lemma write_nodes_forever: "write_nodes i (- 1) = None"
proof -
  have "n \<noteq> - 1" if "write_nodes i n = Some s" for i n s
    by (rule write_nodes.raw_induct [where P = "\<lambda>i n s. n \<noteq> - 1", OF _ that])
      (auto simp: bind_eq_Some_conv split: if_splits)
  then show ?thesis by (metis not_Some_eq)
qed

lemma write_nodes_from_1:
  "Suc n < 2 ^ 32 \<Longrightarrow> write_nodes 1 (of_nat n) = Some (concat (map (\<lambda>i. WriteNode (of_nat i) 1000) [1..<Suc n]))"
  using write_nodes_all [of n 1] by simp

section \<open>The edges it writes\<close>

definition write_edges :: "GraphEdge list \<Rightarrow> string" where
  "write_edges es = concat (map (\<lambda>e. WriteEdge (edge_from e) (edge_to e) (edge_label e)) es)"

lemma write_edges_simps [simp]:
  "write_edges [] = []"
  "write_edges (e # es) = WriteEdge (edge_from e) (edge_to e) (edge_label e) @ write_edges es"
  "write_edges (es @ fs) = write_edges es @ write_edges fs"
  by (simp_all add: write_edges_def)

text \<open>Edges from clusters of a list to clusters from 1 to \<open>n\<close>, with weights up to \<open>w\<close>.\<close>

definition edge_in :: "nat list \<Rightarrow> nat \<Rightarrow> nat \<Rightarrow> GraphEdge \<Rightarrow> bool" where
  "edge_in cs n w e \<longleftrightarrow> edge_from e \<in> of_nat ` set cs \<and> edge_to e \<in> of_nat ` {1..n} \<and>
     0 \<le> edge_label e \<and> edge_label e \<le> int w"

lemma connect_loop_edges:
  "0 < n \<Longrightarrow> \<exists>es k'. connect_loop rand m (of_nat c) n w k = (write_edges es, k') \<and> length es = m \<and>
     list_all (edge_in [c] n w) es"
proof (induction m arbitrary: k)
  case 0
  then show ?case by auto
next
  case (Suc m)
  obtain es k' where "connect_loop rand m (of_nat c) n w (Suc k) = (write_edges es, k')" "length es = m"
      "list_all (edge_in [c] n w) es"
    using Suc by blast
  moreover have "Suc (rand k mod n) \<in> {1..n}" using Suc.prems by (simp add: Suc_leI)
  then have "edge_in [c] n w \<lparr>edge_from = of_nat c, edge_to = of_nat (1 + rand k mod n), edge_label = int w\<rparr>"
    unfolding edge_in_def by force
  ultimately show ?case
    by (intro exI [of _ "\<lparr>edge_from = of_nat c, edge_to = of_nat (1 + rand k mod n), edge_label = int w\<rparr> # es"]
        exI [of _ k']) (simp add: Let_def)
qed

lemma edge_in_mono: "edge_in cs n w e \<Longrightarrow> set cs \<subseteq> set ds \<Longrightarrow> w \<le> v \<Longrightarrow> edge_in ds n v e"
  unfolding edge_in_def by (auto intro: order_trans)

lemma Connect_edges:
  assumes "0 < n" "0 < ac" "0 < aw"
  shows "\<exists>es k'. Connect rand (of_nat c) n ac aw k = Some (write_edges es, k') \<and> list_all (edge_in [c] n (2 * aw)) es"
proof -
  let ?w = "rand (k + 2) mod aw + rand (k + 3) mod aw"
  obtain es k' where e: "connect_loop rand (rand k mod ac + rand (k + 1) mod ac) (of_nat c) n ?w (k + 4) = (write_edges es, k')"
      "list_all (edge_in [c] n ?w) es"
    using connect_loop_edges [OF assms(1)] by blast
  have "?w \<le> 2 * aw"
    using mod_less_divisor [OF assms(3), of "rand (k + 2)"] mod_less_divisor [OF assms(3), of "rand (k + 3)"]
    by linarith
  then have "list_all (edge_in [c] n (2 * aw)) es" using e(2) by (auto simp: list_all_iff intro: edge_in_mono)
  moreover have "Connect rand (of_nat c) n ac aw k = Some (write_edges es, k')"
    using e(1) assms by (simp add: Connect_def Let_def)
  ultimately show ?thesis by blast
qed

lemma connect_all_edges:
  assumes "0 < n" "0 < ac" "0 < aw"
  shows "\<exists>es k'. connect_all rand cs n ac aw k = Some (write_edges es, k') \<and> list_all (edge_in cs n (2 * aw)) es"
proof (induction cs arbitrary: k)
  case Nil
  show ?case by (intro exI [of _ "[]"]) simp
next
  case (Cons c cs)
  obtain es k1 where 1: "Connect rand (of_nat c) n ac aw k = Some (write_edges es, k1)"
      "list_all (edge_in [c] n (2 * aw)) es"
    using Connect_edges [OF assms] by blast
  obtain fs k2 where 2: "connect_all rand cs n ac aw k1 = Some (write_edges fs, k2)"
      "list_all (edge_in cs n (2 * aw)) fs"
    using Cons by blast
  have "edge_in (c # cs) n (2 * aw) e" if "e \<in> set es" for e
    using edge_in_mono [of "[c]" n "2 * aw" e "c # cs" "2 * aw"] 1(2) that by (auto simp: list_all_iff)
  moreover have "edge_in (c # cs) n (2 * aw) e" if "e \<in> set fs" for e
    using edge_in_mono [of cs n "2 * aw" e "c # cs" "2 * aw"] 2(2) that by (auto simp: list_all_iff)
  ultimately have "list_all (edge_in (c # cs) n (2 * aw)) (es @ fs)" by (auto simp: list_all_iff)
  then show ?case using 1(1) 2(1) by (intro exI [of _ "es @ fs"] exI [of _ k2]) simp
qed

lemma of_nat_id: "0 < i \<Longrightarrow> i < 2 ^ 31 \<Longrightarrow> small_id (of_nat i) \<and> (of_nat i :: u32) \<noteq> 0"
proof -
  assume i: "0 < i" "i < 2 ^ 31"
  then have "unat (of_nat i :: u32) = i" by (simp add: unat_of_nat take_bit_nat_eq_self)
  moreover from this have "uint (of_nat i :: u32) = int i" by (simp add: uint_nat)
  ultimately show ?thesis using i by (auto simp: small_id_def)
qed

text \<open>
  \<open>main\<close> with its argument: the size is read by \<open>atoi\<close> into an \<open>int\<close> and passed on as unsigned.
  The generator is not seeded.
\<close>

definition graph_main :: "(nat \<Rightarrow> nat) \<Rightarrow> (nat \<Rightarrow> nat) \<Rightarrow> int \<Rightarrow> string \<Rightarrow> (string \<times> nat) option" where
  "graph_main rand logNetSize now arg =
    (let networkSize = unat (word_of_int (atoi arg) :: u32)
     in case GenerateParameters rand 0 (logNetSize networkSize) of
          None \<Rightarrow> None
        | Some ((connectivity, weight, IOconnectivity, IOweight), k) \<Rightarrow>
            BuildNetwork rand (graph_name now) networkSize connectivity weight k)"

text \<open>The whole program: what it prints, and the name and the text of the file it writes.\<close>

definition graph_usage :: "string \<Rightarrow> string" where
  "graph_usage prog =
    ''distributAr (distributed Architecture framework) random graph generator'' @ [NL] @
    ''usage: '' @ prog @ '' <# of nodes>'' @ [NL]"

definition graph_program :: "(nat \<Rightarrow> nat) \<Rightarrow> (nat \<Rightarrow> nat) \<Rightarrow> int \<Rightarrow> string list \<Rightarrow> (string \<times> (string \<times> string) option) option" where
  "graph_program rand logNetSize now argv =
    (if length argv \<noteq> 2 then Some (graph_usage (argv ! 0), None)
     else case graph_main rand logNetSize now (argv ! 1) of
            None \<Rightarrow> None
          | Some (text, k) \<Rightarrow>
              Some (''Generating a random graph with '' @ show_int (atoi (argv ! 1)) @ '' nodes.'' @ [NL] @ ''Done.'' @ [NL],
                Some (graph_name now @ ''.dot'', text)))"

section \<open>Properties\<close>

text \<open>
  The generator's files are readable: for any sequence of random numbers, a network of \<open>n\<close>
  clusters is written to a file that parses to nodes 1 to \<open>n\<close>, each with 1000 nodes, and edges
  among exactly these ids.
\<close>

lemma BuildNetwork_readable:
  assumes "0 < n" and "n < 2 ^ 31" and "0 < ac" and "0 < aw" and "aw < 2 ^ 30" and "yr20 \<le> now"
  shows "\<exists>out k' es. BuildNetwork rand (graph_name now) n ac aw k = Some (out, k') \<and>
    Parse (Some out) ([], []) = Some (True, map (\<lambda>i. \<lparr>node_id = of_nat i, node_label = 1000\<rparr>) [1..<Suc n], es) \<and>
    (\<forall>e \<in> set es. edge_from e \<in> of_nat ` {1..n} \<and> edge_to e \<in> of_nat ` {1..n} \<and> edge_ok e)"
proof -
  obtain es k' where c: "connect_all rand [1..<Suc n] n ac aw k = Some (write_edges es, k')"
      "list_all (edge_in [1..<Suc n] n (2 * aw)) es"
    using connect_all_edges [OF assms(1,3,4)] by blast
  let ?ns = "map (\<lambda>i. \<lparr>node_id = of_nat i, node_label = 1000\<rparr>) [1..<Suc n]"
  have written: "BuildNetwork rand (graph_name now) n ac aw k = Some (write_graph (graph_name now) ?ns es, k')"
    using c(1) assms(2) by (simp add: BuildNetwork_def write_nodes_from_1 write_graph_def write_edges_def comp_def del: upt_Suc)
  have ids: "edge_from e \<in> of_nat ` {1..n} \<and> edge_to e \<in> of_nat ` {1..n} \<and> edge_ok e" if "e \<in> set es" for e
  proof -
    have e: "edge_in [1..<Suc n] n (2 * aw) e" using c(2) that by (simp add: list_all_iff)
    have "small_id x" if "x \<in> of_nat ` {1..n}" for x :: u32
      using that assms(2) of_nat_id by auto
    then show ?thesis
      using e assms(5) by (auto simp: edge_in_def edge_ok_def signed_range_def atLeastLessThanSuc_atLeastAtMost simp del: upt_Suc)
  qed
  have "list_all node_ok ?ns"
    using assms(2) of_nat_id by (auto simp: list_all_iff node_ok_def signed_range_def simp del: upt_Suc)
  moreover have "list_all edge_ok es" using ids by (simp add: list_all_iff)
  ultimately have "Parse (Some (write_graph (graph_name now) ?ns es)) ([], []) =
      Some (True, map read_node ?ns, map read_edge es)"
    by (intro Parse_written graph_name_ok assms(6))
  moreover have "map read_node ?ns = ?ns" by (simp add: read_node_def read_label_def del: upt_Suc)
  moreover have "\<forall>e \<in> set (map read_edge es). edge_from e \<in> of_nat ` {1..n} \<and> edge_to e \<in> of_nat ` {1..n} \<and> edge_ok e"
    using ids by (auto simp: read_edge_def read_label_def edge_ok_def signed_range_def)
  ultimately show ?thesis using written by metis
qed

lemma graph_main_file:
  assumes "2 \<le> n" and "n < 2 ^ 31" and "0 < logNetSize n" and "yr20 \<le> now"
  shows "\<exists>out k' es. graph_main rand logNetSize now (show_int (int n)) = Some (out, k') \<and>
    Parse (Some out) ([], []) = Some (True, map (\<lambda>i. \<lparr>node_id = of_nat i, node_label = 1000\<rparr>) [1..<Suc n], es) \<and>
    (\<forall>e \<in> set es. edge_from e \<in> of_nat ` {1..n} \<and> edge_to e \<in> of_nat ` {1..n} \<and> edge_ok e)"
proof -
  have "atoi (show_int (int n)) = int n" using assms(2) atoi_show_int [of "int n" "[]"] by (simp add: signed_range_def digits_end_def)
  then have size: "unat (word_of_int (atoi (show_int (int n))) :: u32) = n"
    using assms(2) by (simp add: unat_of_nat take_bit_nat_eq_self)
  have "5 + rand 1 mod MAX_OUTPUT_NODES < 2 ^ 30"
    using mod_less_divisor [of MAX_OUTPUT_NODES "rand 1"] by (simp add: MAX_OUTPUT_NODES_def)
  then show ?thesis
    using BuildNetwork_readable [of n "10 + rand 0 mod logNetSize n" "5 + rand 1 mod MAX_OUTPUT_NODES" now rand "Suc (Suc 0)"] assms
    by (simp add: graph_main_def size GenerateParameters_def Let_def)
qed

text \<open>The generator's files are readable: called for a network of \<open>n\<close> clusters, at least two, it writes
  -- whatever the random numbers -- a file that parses to nodes 1 to \<open>n\<close>, each with 1000 nodes, and
  edges among exactly these ids.
\<close>

theorem graph_main_readable:
  assumes "2 \<le> n" and "n < 2 ^ 31" and "0 < logNetSize n" and "yr20 \<le> now"
  shows "\<exists>out k' es. graph_main rand logNetSize now (show_int (int n)) = Some (out, k') \<and>
    Parse (Some out) ([], []) = Some (True, map (\<lambda>i. \<lparr>node_id = of_nat i, node_label = 1000\<rparr>) [1..<Suc n], es) \<and>
    (\<forall>e \<in> set es. edge_from e \<in> of_nat ` {1..n} \<and> edge_to e \<in> of_nat ` {1..n})"
  using graph_main_file [where logNetSize = logNetSize, OF assms] by blast

theorem graph_main_readable_witness:
  "\<exists>out k' es. graph_main (\<lambda>k. k) (\<lambda>n. 1) 1700000000000 (show_int 2) = Some (out, k') \<and>
    Parse (Some out) ([], []) = Some (True, [\<lparr>node_id = 1, node_label = 1000\<rparr>, \<lparr>node_id = 2, node_label = 1000\<rparr>], es)"
proof -
  have "[1..<Suc 2] = [1, 2]" by (simp add: upt_rec)
  then show ?thesis
    using graph_main_readable [of 2 "\<lambda>n. 1" 1700000000000 "\<lambda>k. k"] by (auto simp: yr20_def)
qed

text \<open>A size of \<open>-1\<close> becomes the largest unsigned integer, and the generator never ends.\<close>

theorem negative_size_never_ends: "graph_main rand logNetSize now (show_int (- 1)) = None"
proof -
  have "atoi (show_int (- 1)) = - 1" using atoi_show_int [of "- 1" "[]"] by (simp add: signed_range_def digits_end_def)
  then have "of_nat (unat (word_of_int (atoi (show_int (- 1))) :: u32)) = (- 1 :: u32)" by simp
  then show ?thesis
    by (simp add: graph_main_def BuildNetwork_def write_nodes_forever Let_def del: of_nat_unat split: option.split)
qed

end
