(* ===== verification/Graph_Tools.thy ===== *)
theory Graph_Tools
  imports Part_Main Graph_Gen
begin

text \<open>
  The graph tools one after the other: \<open>utils/graph.cpp\<close> writes a file, \<open>utils/partgraph.cpp\<close>
  partitions it.
\<close>

lemma ids_from_1:
  assumes "n < 2 ^ 31"
  shows "distinct (map of_nat [1..<Suc n] :: u32 list)" "\<forall>i \<in> set [1..<Suc n]. small_id (of_nat i) \<and> (of_nat i :: u32) \<noteq> 0"
proof -
  have "inj_on (of_nat :: nat \<Rightarrow> u32) {1..<Suc n}"
    using assms by (intro inj_onI) (auto simp: word_of_nat_eq_iff take_bit_nat_eq_self)
  then show "distinct (map of_nat [1..<Suc n] :: u32 list)" by (simp add: distinct_map del: upt_Suc)
  show "\<forall>i \<in> set [1..<Suc n]. small_id (of_nat i) \<and> (of_nat i :: u32) \<noteq> 0"
    using assms of_nat_id by auto
qed

text \<open>C31. From nothing to a partitioned network.  For a size of at least the number of groups, whatever the
  random numbers of the generator and for numbers of the partitioner that vary, the generator ends and writes
  a file; and where the partitioner finds this file under its name it accepts it, ends with status 0 and
  saves a file with the clusters 1 to \<open>n\<close> and all edges, in balanced groups.  The labels of that file are
  groups, all below the number of groups: the counts of nodes per cluster that the generator wrote are gone,
  and the client would take the groups for them.
\<close>

theorem generated_graph_partitions:
  assumes "2 \<le> g" and "g \<le> n" and "n < 2 ^ 31" and "0 < logNetSize n" and "yr20 \<le> now" and "yr20 \<le> now'"
    and "varied rand' g"
  shows "\<exists>out txt es. graph_program rand logNetSize now [prog, show_int (int n)] =
      Some (out, Some (graph_name now @ ''.dot'', txt)) \<and>
    Parse (Some txt) ([], []) = Some (True, map (\<lambda>i. \<lparr>node_id = of_nat i, node_label = 1000\<rparr>) [1..<Suc n], es) \<and>
    (\<forall>files. files (graph_name now @ ''.dot'') = Some txt \<longrightarrow>
      (\<exists>r txt' ns'. partgraph_main files rand' k runtime now' [prog', graph_name now @ ''.dot'', show_int (int g)] = Some r \<and>
        exit_code r = 0 \<and> saved r = Some (graph_name now' @ ''.dot'', txt') \<and>
        Parse (Some txt') ([], []) = Some (True, ns', map read_edge es) \<and>
        mset (map node_id ns') = mset (map of_nat [1..<Suc n]) \<and>
        (\<forall>j < g. length (filter (\<lambda>m. node_label m = read_label (int j)) ns') = n div g + (if j < n mod g then 1 else 0)) \<and>
        (\<forall>m \<in> set ns'. node_label m < int g)))"
proof -
  let ?ns = "map (\<lambda>i. \<lparr>node_id = of_nat i, node_label = 1000\<rparr>) [1..<Suc n]" and ?name = "graph_name now @ ''.dot''"
  obtain tx k' es where gen: "graph_main rand logNetSize now (show_int (int n)) = Some (tx, k')"
      and p: "Parse (Some tx) ([], []) = Some (True, ?ns, es)"
      and es: "\<forall>e \<in> set es. edge_from e \<in> of_nat ` {1..n} \<and> edge_to e \<in> of_nat ` {1..n} \<and> edge_ok e"
    using graph_main_file [of n logNetSize now rand] assms(1-5) by auto
  obtain out where out: "graph_program rand logNetSize now [prog, show_int (int n)] = Some (out, Some (?name, tx))"
    using gen by (simp add: graph_program_def)
  have ids: "map node_id ?ns = map of_nat [1..<Suc n]" by simp
  have ok: "list_all (\<lambda>n. small_id (node_id n) \<and> node_id n \<noteq> 0) ?ns" "list_all edge_ok es" "distinct (map node_id ?ns)"
    unfolding ids using ids_from_1 [OF assms(3)] es by (auto simp: list_all_iff simp del: upt_Suc)
  have ends: "\<forall>e \<in> set es. edge_from e \<in> set (map node_id ?ns)"
    unfolding ids using es by (simp add: atLeastLessThanSuc_atLeastAtMost del: upt_Suc)
  have g: "atoi (show_int (int g)) = int g"
    using assms(2,3) atoi_show_int [of "int g" "[]"] by (simp add: signed_range_def digits_end_def)
  have len: "length ?ns = n" by simp
  then have lg: "g \<le> length ?ns" using assms(2) by simp
  have "\<exists>r txt' ns'. partgraph_main files rand' k runtime now' [prog', ?name, show_int (int g)] = Some r \<and>
        exit_code r = 0 \<and> saved r = Some (graph_name now' @ ''.dot'', txt') \<and>
        Parse (Some txt') ([], []) = Some (True, ns', map read_edge es) \<and>
        mset (map node_id ns') = mset (map of_nat [1..<Suc n]) \<and>
        (\<forall>j < g. length (filter (\<lambda>m. node_label m = read_label (int j)) ns') = n div g + (if j < n mod g then 1 else 0)) \<and>
        (\<forall>m \<in> set ns'. node_label m < int g)" if "files ?name = Some tx" for files
  proof -
    have pf: "Parse (files ?name) ([], []) = Some (True, ?ns, es)" using p that by simp
    show ?thesis
      using main_partitions [where files = files and name = ?name and arg = "show_int (int g)" and rand = rand' and n = k and
          runtime = runtime and now = now' and prog = prog', OF pf ok(3,1,2) ends g assms(1) lg assms(7,6)]
      unfolding ids len by (elim exE) (intro exI conjI, auto)
  qed
  with out p show ?thesis by blast
qed

text \<open>A network of three clusters in two groups.\<close>

theorem generated_graph_partitions_witness:
  "\<exists>out name txt r. graph_program (\<lambda>k. k) (\<lambda>n. 1) 1700000000000 [''graph'', show_int (int 3)] = Some (out, Some (name, txt)) \<and>
     partgraph_main (\<lambda>f. Some txt) (\<lambda>k. k) 7 1 1800000000000 [''neto'', name, show_int (int 2)] = Some r \<and> exit_code r = 0"
proof -
  let ?name = "graph_name 1700000000000 @ ''.dot''"
  have y: "yr20 \<le> 1700000000000" "yr20 \<le> 1800000000000" by (simp_all add: yr20_def)
  have h: "(2 :: nat) \<le> 2" "(2 :: nat) \<le> 3" "(3 :: nat) < 2 ^ 31" "(0 :: nat) < 1" by simp_all
  obtain out tx where g: "graph_program (\<lambda>k. k) (\<lambda>n. 1) 1700000000000 [''graph'', show_int (int 3)] = Some (out, Some (?name, tx))"
    and p: "\<forall>files. files ?name = Some tx \<longrightarrow>
      (\<exists>r. partgraph_main files (\<lambda>k. k) 7 1 1800000000000 [''neto'', ?name, show_int (int 2)] = Some r \<and> exit_code r = 0)"
    using generated_graph_partitions [where logNetSize = "\<lambda>n. 1" and rand = "\<lambda>k. k" and prog = "''graph''" and k = 7 and runtime = 1
        and prog' = "''neto''", OF h y counting_varied]
    by (elim exE conjE) (rule that, assumption, blast)
  show ?thesis using g p [rule_format, of "\<lambda>f. Some tx"] by blast
qed

end
