(* ===== verification/Dummy.thy ===== *)
theory Dummy
  imports Server
begin

text \<open>
  The test plug-in of \<open>dummy/dummy.cpp\<close>, an instance of \<open>icluster\<close>: it refuses commands, ignores
  its input, and fires between 50 and 449 impulses at random nodes each time it is polled, their
  times spreading from the clock forwards.  Its state is the position in the sequence of values
  \<open>rand()\<close> returns; \<open>clock k\<close> is the clock when a poll starts at position \<open>k\<close>.
\<close>

definition MAX_TIME_STEP :: nat where
  "MAX_TIME_STEP = 100"

definition MAX_OUT_NODES :: nat where
  "MAX_OUT_NODES = 2000"

fun dummy_loop :: "(nat \<Rightarrow> nat) \<Rightarrow> nat \<Rightarrow> Time \<Rightarrow> nat \<Rightarrow> (int \<times> Time) list \<times> nat" where
  "dummy_loop rand 0 lastTime k = ([], k)"
| "dummy_loop rand (Suc n) lastTime k =
    (let node = int (rand k mod MAX_OUT_NODES);
         next = lastTime + microseconds (int (rand (Suc k) mod MAX_TIME_STEP));
         (calls, k') = dummy_loop rand n next (k + 2)
     in ((node, lastTime) # calls, k'))"

definition dummy_read :: "(nat \<Rightarrow> nat) \<Rightarrow> (nat \<Rightarrow> Time) \<Rightarrow> nat \<Rightarrow> (int \<times> Time) list \<times> nat" where
  "dummy_read rand clock k =
    (let maxNodesFired = 50 + rand k mod 400 in dummy_loop rand maxNodesFired (clock k) (Suc k))"

definition DummyCluster :: "(nat \<Rightarrow> nat) \<Rightarrow> (nat \<Rightarrow> Time) \<Rightarrow> nat icluster" where
  "DummyCluster rand clock =
    \<lparr>command = (\<lambda>cmd c. (''NACK'', c)), input = (\<lambda>bb c. c), polled = dummy_read rand clock, waits = (\<lambda>c. False)\<rparr>"

lemma dummy_loop_calls:
  "fst (dummy_loop rand n t k) = calls \<Longrightarrow>
     length calls = n \<and> (n > 0 \<longrightarrow> snd (hd calls) = t) \<and> sorted (map snd calls) \<and>
     (\<forall>(i, x) \<in> set calls. 0 \<le> i \<and> i < 2000 \<and> t \<le> x \<and> x \<le> t + microseconds (99 * int n))"
proof (induction n arbitrary: t k calls)
  case 0
  then show ?case by auto
next
  case (Suc n)
  let ?t = "t + microseconds (int (rand (Suc k) mod MAX_TIME_STEP))"
  let ?cs = "fst (dummy_loop rand n ?t (k + 2))"
  have step: "t \<le> ?t" "?t \<le> t + microseconds 99" by (simp_all add: MAX_TIME_STEP_def)
  have c: "calls = (int (rand k mod MAX_OUT_NODES), t) # ?cs"
    using Suc.prems by (auto simp: Let_def split: prod.splits)
  note IH = Suc.IH [of ?t "k + 2" ?cs, OF refl]
  have "\<forall>(i, x) \<in> set ?cs. 0 \<le> i \<and> i < 2000 \<and> t \<le> x \<and> x \<le> t + microseconds (99 * int (Suc n))"
    using IH step by (auto simp: algebra_simps)
  moreover have "sorted (map snd calls)" using calculation IH by (auto simp: c)
  ultimately show ?case using IH by (auto simp: c MAX_OUT_NODES_def)
qed

lemma DummyCluster_input: "performInput (DummyCluster rand clock) s = Some s1 \<Longrightarrow>
    \<exists>q. s1 = s\<lparr>inQ := q\<rparr>" "\<exists>s1. performInput (DummyCluster rand clock) s = Some s1"
  by (cases s; auto simp: performInput_def DummyCluster_def split: if_splits)+

lemma dummy_calls_ok:
  assumes "\<forall>k. fresh_ok (envs k)" "\<forall>(i, x) \<in> set calls. lo \<le> x \<and> x < lo + microseconds (2 ^ 31)"
  shows "list_all (call_ok lo) (map (\<lambda>(k, i, t). (envs k, i, t)) (enumerate n calls))"
    "map call_time (map (\<lambda>(k, i, t). (envs k, i, t)) (enumerate n calls)) = map snd calls"
    "map call_node (map (\<lambda>(k, i, t). (envs k, i, t)) (enumerate n calls)) = map (\<lambda>(i, t). uint (word_of_int i :: u16)) calls"
  using assms
  by (induction calls arbitrary: n) (auto simp: call_ok_def call_time_def call_node_def)

lemma small_node: "0 \<le> i \<Longrightarrow> i < 2000 \<Longrightarrow> uint (word_of_int i :: u16) = i"
  by (simp add: uint_word_of_int_eq take_bit_int_eq_self)

text \<open>A server that runs the test plug-in loses nothing of its noise: each poll with an id makes
  between 50 and 449 impulses at nodes below 2000, all of which are, in their order, in the packets
  sent or in the current buffer.
\<close>

theorem dummy_impulses_sent:
  assumes "server_wf s" and "cluster_id s > 0" and "\<forall>k. fresh_ok (envs k)"
    and "base_ok lo (clock (cluster s)) (timeBuff s)"
    and "clock (cluster s) + microseconds (99 * 449) < lo + microseconds (2 ^ 31)"
  shows "\<exists>s' out fired. performIO (DummyCluster rand clock) envs s = Some (Inr (s', out)) \<and>
    concat (map (\<lambda>(dst, tb). nodes tb) out) @ nodes (timeBuff s') = nodes (timeBuff s) @ fired \<and>
    50 \<le> length fired \<and> length fired < 450 \<and> (\<forall>i \<in> set fired. 0 \<le> i \<and> i < 2000)"
proof -
  let ?C = "DummyCluster rand clock" and ?k = "cluster s"
  define n where "n = 50 + rand ?k mod 400"
  obtain calls c where p: "dummy_loop rand n (clock ?k) (Suc ?k) = (calls, c)" by (metis surj_pair)
  have n: "50 \<le> n" "n < 450" using mod_less_divisor [of 400 "rand ?k"] by (simp_all add: n_def)
  have calls: "length calls = n" "snd (hd calls) = clock ?k" "sorted (map snd calls)"
    "\<forall>(i, x) \<in> set calls. 0 \<le> i \<and> i < 2000 \<and> clock ?k \<le> x \<and> x \<le> clock ?k + microseconds (99 * int n)"
    using dummy_loop_calls [of rand n "clock ?k" "Suc ?k" calls] p n by auto
  obtain q where i: "performInput ?C s = Some (s\<lparr>inQ := q\<rparr>)" using DummyCluster_input by metis
  let ?ws = "map (\<lambda>(k, i, t). (envs k, i, t)) (enumerate 0 calls)" and ?s = "s\<lparr>inQ := q, cluster := c\<rparr>"
  have polled: "polled ?C (cluster s) = (calls, c)" using p by (simp add: DummyCluster_def dummy_read_def n_def)
  have run: "performIO ?C envs s = Server_writes ?ws ?s []"
    using assms(2) p by (simp add: performIO_eq i polled)
  have lo: "lo \<le> clock ?k" using assms(4) by (simp add: base_ok_def)
  have "\<forall>(i, x) \<in> set calls. lo \<le> x \<and> x < lo + microseconds (2 ^ 31)"
  proof (rule ballI, clarify)
    fix i x assume "(i, x) \<in> set calls"
    then have "clock ?k \<le> x" "x \<le> clock ?k + microseconds (99 * int n)" using calls(4) by blast+
    then show "lo \<le> x \<and> x < lo + microseconds (2 ^ 31)" using lo assms(5) n(2) by simp
  qed
  note ok = dummy_calls_ok [OF assms(3) this, of 0]
  have ne: "calls \<noteq> []" using calls(1) n(1) by auto
  then have "call_time (hd ?ws) = clock ?k" using calls(2) by (cases calls) (auto simp: call_time_def)
  then have base: "base_ok lo (call_time (hd ?ws)) (timeBuff ?s)" using assms(4) by simp
  have wf: "server_wf ?s" using assms(1) by (rule take_input_wf)
  have sorted: "sorted (map call_time ?ws)" using calls(3) ok(2) by metis
  obtain s' out where "Server_writes ?ws ?s [] = Some (Inr (s', out))"
      "concat (map (\<lambda>(dst, tb). nodes tb) out) @ nodes (timeBuff s') = nodes (timeBuff ?s) @ map call_node ?ws"
    using Server_writes_nodes [OF wf ok(1) sorted base, of "[]"] by auto
  moreover have "\<forall>i \<in> set (map call_node ?ws). 0 \<le> i \<and> i < 2000"
    unfolding ok(3) using calls(4) by (auto simp: small_node)
  ultimately show ?thesis using run n calls(1)
    by (intro exI [of _ s'] exI [of _ out] exI [of _ "map call_node ?ws"]) (simp del: map_map)
qed

definition dummy_server :: "nat server" where
  "dummy_server = Server_run_setup 0x0100007F 0x2823 7
     (Server_init 0 zeros zeros (replicate MAX_MSG_Q_SIZE sample_buffer) \<lparr>s_addr = 0, sin_port = 0\<rparr>
       \<lparr>s_addr = 0, sin_port = 0\<rparr> (replicate SERVER_BUFF NUL))"

theorem dummy_impulses_sent_witness:
  "\<exists>s' out fired. performIO (DummyCluster (\<lambda>k. k) (\<lambda>k. 1000)) (\<lambda>k. test_env) dummy_server = Some (Inr (s', out)) \<and>
    concat (map (\<lambda>(dst, tb). nodes tb) out) @ nodes (timeBuff s') = fired \<and> 50 \<le> length fired"
proof -
  have "server_wf dummy_server" unfolding dummy_server_def by (rule setup_wf) (simp_all add: zeros_def)
  moreover have d: "cluster_id dummy_server > 0" "tbtime (timeBuff dummy_server) = time_min"
    "nodes (timeBuff dummy_server) = []" "cluster dummy_server = 0"
    by (simp_all add: dummy_server_def Server_run_setup_def Server_init_def TimeBuffer_init_def nodes_eq)
  moreover have "base_ok 0 1000 (timeBuff dummy_server)" by (simp add: base_ok_def d) (simp add: time_min_def)
  ultimately show ?thesis
    using dummy_impulses_sent [of dummy_server "\<lambda>k. test_env" 0 "\<lambda>k. 1000" "\<lambda>k. k"] test_env_ok by auto
qed

end
