(* ===== verification/Serial.thy ===== *)
theory Serial
  imports Iostreams
begin

text \<open>
  The templates of \<open>lib/serial.h\<close>: numbers, vectors, sets and hash maps as text, every number
  followed by a blank and every container by its size.  \<open>serialize\<close> is the text it appends to a
  stream in good state; \<open>deserialize\<close> takes the object it reads into and gives the state of the
  stream, the object and the stream.  The overloads become functions whose first argument is the
  overload for the elements.  Uninitialised locals are arguments (\<open>size0\<close>, \<open>t0\<close>, \<open>k0\<close>).

  Everything rests on the law of a \<open>codec\<close>: reading what was written succeeds and merges the value
  into the object.  For a number merging is overwriting, for a container it is adding the elements.
\<close>

type_synonym 'a serializer = "'a \<Rightarrow> string"
type_synonym 'a deserializer = "'a \<Rightarrow> istream \<Rightarrow> bool \<times> 'a \<times> istream"

section \<open>Writing\<close>

definition serialize_int :: "int serializer" where
  "serialize_int t = show_int t @ '' ''"

definition serialize_unsigned :: "u32 serializer" where
  "serialize_unsigned t = show_word t @ '' ''"

definition serialize_size :: "nat \<Rightarrow> string" where
  "serialize_size n = show_nat n @ '' ''"

definition serialize_vector :: "'a serializer \<Rightarrow> 'a list serializer" where
  "serialize_vector put v = serialize_size (length v) @ concat (map put v)"

text \<open>A set is traversed in increasing order.\<close>

definition serialize_set :: "'a::linorder serializer \<Rightarrow> 'a set serializer" where
  "serialize_set put s = serialize_size (card s) @ concat (map put (sorted_list_of_set s))"

text \<open>A hash map is given by its entries in the order of its iterators.\<close>

definition serialize_map :: "'k serializer \<Rightarrow> 'v serializer \<Rightarrow> ('k \<times> 'v) list serializer" where
  "serialize_map putk putv m = serialize_size (length m) @ concat (map (\<lambda>(k, v). putk k @ putv v) m)"

section \<open>Reading\<close>

definition deserialize_int :: "int deserializer" where
  "deserialize_int out is = (let (v, is') = get_signed 32 out is in (good is', v, is'))"

definition deserialize_unsigned :: "u32 deserializer" where
  "deserialize_unsigned out is = (let (v, is') = get_unsigned out is in (good is', v, is'))"

text \<open>The loop over the elements; the variable \<open>t\<close> is declared outside it.\<close>

fun insert_loop :: "'a deserializer \<Rightarrow> ('a \<Rightarrow> 'c \<Rightarrow> 'c) \<Rightarrow> nat \<Rightarrow> 'a \<Rightarrow> 'c \<Rightarrow> istream \<Rightarrow> 'c \<times> istream" where
  "insert_loop get ins 0 t c is = (c, is)"
| "insert_loop get ins (Suc n) t c is =
    (let (ok, t', is') = get t is in insert_loop get ins n t' (ins t' c) is')"

definition deserialize_inserter :: "'a deserializer \<Rightarrow> ('a \<Rightarrow> 'c \<Rightarrow> 'c) \<Rightarrow> u64 \<Rightarrow> 'a \<Rightarrow> 'c deserializer" where
  "deserialize_inserter get ins size0 t0 c is =
    (let (size, is1) = get_unsigned size0 is;
         (c', is2) = insert_loop get ins (unat size) t0 c is1
     in (good is2, c', is2))"

definition deserialize_vector :: "'a deserializer \<Rightarrow> u64 \<Rightarrow> 'a \<Rightarrow> 'a list deserializer" where
  "deserialize_vector get = deserialize_inserter get (\<lambda>t v. v @ [t])"

definition deserialize_set :: "'a deserializer \<Rightarrow> u64 \<Rightarrow> 'a \<Rightarrow> 'a set deserializer" where
  "deserialize_set get = deserialize_inserter get insert"

fun map_loop :: "'k deserializer \<Rightarrow> 'v deserializer \<Rightarrow> nat \<Rightarrow> 'k \<Rightarrow> 'v \<Rightarrow> ('k \<rightharpoonup> 'v) \<Rightarrow> istream \<Rightarrow> ('k \<rightharpoonup> 'v) \<times> istream" where
  "map_loop getk getv 0 k v m is = (m, is)"
| "map_loop getk getv (Suc n) k v m is =
    (let (ok, k', is1) = getk k is; (ok, v', is2) = getv v is1
     in map_loop getk getv n k' v' (m(k' \<mapsto> v')) is2)"

definition deserialize_map :: "'k deserializer \<Rightarrow> 'v deserializer \<Rightarrow> u64 \<Rightarrow> 'k \<Rightarrow> 'v \<Rightarrow> ('k \<rightharpoonup> 'v) deserializer" where
  "deserialize_map getk getv size0 k0 v0 m is =
    (let (size, is1) = get_unsigned size0 is;
         (m', is2) = map_loop getk getv (unat size) k0 v0 m is1
     in (good is2, m', is2))"

section \<open>The law of a codec\<close>

abbreviation (input) stream :: "string \<Rightarrow> istream" where
  "stream s \<equiv> \<lparr>inp = s, eofbit = False, failbit = False\<rparr>"

text \<open>
  A written value, after any white space, is read and merged into the object; the blank that
  ends it is left in the stream.
\<close>

locale codec =
  fixes put :: "'v serializer"
    and get :: "'v deserializer"
    and valid :: "'v \<Rightarrow> bool"
    and merge :: "'v \<Rightarrow> 'v \<Rightarrow> 'v"
  assumes read_written: "valid v \<Longrightarrow> list_all is_space w \<Longrightarrow>
    get old (stream (w @ put v @ r)) = (True, merge old v, stream (CHR '' '' # r))"

text \<open>The values a variable takes that values are read into one after the other.\<close>

fun readings :: "('v \<Rightarrow> 'v \<Rightarrow> 'v) \<Rightarrow> 'v \<Rightarrow> 'v list \<Rightarrow> 'v list" where
  "readings merge t [] = []"
| "readings merge t (v # vs) = merge t v # readings merge (merge t v) vs"

lemma length_readings [simp]: "length (readings merge t vs) = length vs"
  by (induction vs arbitrary: t) simp_all

lemma readings_overwrite [simp]: "readings (\<lambda>t v. v) t vs = vs"
  by (induction vs arbitrary: t) simp_all

lemma readings_append: "readings (@) t vs = map (\<lambda>n. t @ concat (take (Suc n) vs)) [0..<length vs]"
proof (induction vs arbitrary: t)
  case Nil
  then show ?case by simp
next
  case (Cons v vs)
  have "[0..<length (v # vs)] = 0 # map Suc [0..<length vs]"
    by (simp add: map_Suc_upt upt_conv_Cons del: upt_Suc)
  with Cons show ?case by simp
qed

lemma size_word: "n < 2 ^ 64 \<Longrightarrow> unat (of_nat n :: u64) = n"
  by (simp add: unat_of_nat take_bit_nat_eq_self)

lemma size_read:
  assumes "n < 2 ^ 64" "list_all is_space w"
  shows "get_unsigned (size0 :: u64) (stream (w @ serialize_size n @ r)) = (of_nat n, stream (CHR '' '' # r))"
proof -
  have "serialize_size n = show_word (of_nat n :: u64) @ '' ''"
    by (simp add: serialize_size_def show_word_def size_word [OF assms(1)])
  then show ?thesis
    using unsigned_field.get_after_space [where v = "of_nat n :: u64" and r = "CHR '' '' # r" and w = w] assms(2) by simp
qed

context codec
begin

lemma read_next: "valid v \<Longrightarrow> get old (stream (CHR '' '' # put v @ r)) = (True, merge old v, stream (CHR '' '' # r))"
  using read_written [of v "'' ''"] by simp

lemma insert_loop_written:
  "list_all valid vs \<Longrightarrow>
     insert_loop get ins (length vs) t c (stream (CHR '' '' # concat (map put vs) @ r)) =
       (fold ins (readings merge t vs) c, stream (CHR '' '' # r))"
  by (induction vs arbitrary: t c) (simp_all add: read_next)

lemma inserter_written:
  assumes "list_all valid vs" "length vs < 2 ^ 64" "list_all is_space w"
  shows "deserialize_inserter get ins size0 t0 c (stream (w @ serialize_size (length vs) @ concat (map put vs) @ r)) =
    (True, fold ins (readings merge t0 vs) c, stream (CHR '' '' # r))"
  by (simp add: size_word [OF assms(2)] deserialize_inserter_def size_read [OF assms(2,3)] insert_loop_written [OF assms(1)] good_def)

lemma vector_read:
  "list_all valid vs \<Longrightarrow> length vs < 2 ^ 64 \<Longrightarrow> list_all is_space w \<Longrightarrow>
     deserialize_vector get size0 t0 c (stream (w @ serialize_vector put vs @ r)) =
       (True, c @ readings merge t0 vs, stream (CHR '' '' # r))"
proof -
  have "fold (\<lambda>t v. v @ [t]) ts c = c @ ts" for ts and c :: "'b list" by (induction ts arbitrary: c) simp_all
  then show "list_all valid vs \<Longrightarrow> length vs < 2 ^ 64 \<Longrightarrow> list_all is_space w \<Longrightarrow> ?thesis"
    using inserter_written [of vs w "\<lambda>t v. v @ [t]" size0 t0 c r]
    by (simp add: deserialize_vector_def serialize_vector_def)
qed

end

text \<open>
  Codecs that overwrite: their vectors and sets are codecs again.  (\<open>serialize\<close> is declared so
  that vectors of containers compile; \<open>deserialize\<close> is not.)
\<close>

locale value_codec = codec put get valid "\<lambda>t v. v"
  for put :: "'v serializer" and get :: "'v deserializer" and valid :: "'v \<Rightarrow> bool"

sublocale value_codec \<subseteq> vectors: codec "serialize_vector put" "deserialize_vector get size0 t0"
    "\<lambda>v. list_all valid v \<and> length v < 2 ^ 64" "(@)" for size0 t0
  by unfold_locales (simp add: vector_read)

locale ordered_codec = value_codec put get valid
  for put :: "'v::linorder serializer" and get :: "'v deserializer" and valid :: "'v \<Rightarrow> bool"

sublocale ordered_codec \<subseteq> sets: codec "serialize_set put" "deserialize_set get size0 t0"
    "\<lambda>s. finite s \<and> (\<forall>v \<in> s. valid v) \<and> card s < 2 ^ 64" "(\<union>)" for size0 t0
proof unfold_locales
  fix s old :: "'v set" and w r :: string
  assume s: "finite s \<and> (\<forall>v \<in> s. valid v) \<and> card s < 2 ^ 64" and w: "list_all is_space w"
  have "fold insert (sorted_list_of_set s) old = old \<union> s"
    using s by (simp add: union_set_fold [symmetric] Un_commute)
  then show "deserialize_set get size0 t0 old (stream (w @ serialize_set put s @ r)) =
      (True, old \<union> s, stream (CHR '' '' # r))"
    using inserter_written [of "sorted_list_of_set s" w insert size0 t0 old r] s w
    by (simp add: deserialize_set_def serialize_set_def list_all_iff)
qed

text \<open>
  Numbers also leave their variable alone when the text has ended, so a container whose text is
  cut off is filled up with its last element.
\<close>

definition ended :: "istream \<Rightarrow> bool" where
  "ended is \<longleftrightarrow> \<not> failbit is \<and> \<not> eofbit is \<and> list_all is_space (inp is) \<or> failbit is"

locale scalar_codec = value_codec put get valid
  for put :: "'v serializer" and get :: "'v deserializer" and valid :: "'v \<Rightarrow> bool" +
  assumes read_ended: "ended is \<Longrightarrow> \<exists>is'. get old is = (False, old, is') \<and> failbit is'"
begin

lemma insert_loop_ended:
  "ended is \<Longrightarrow> \<exists>is'. insert_loop get ins (Suc n) t c is = ((ins t ^^ Suc n) c, is') \<and> failbit is'"
proof (induction n arbitrary: "is" c)
  case 0
  then show ?case using read_ended [of "is" t] by auto
next
  case (Suc n)
  obtain is' where g: "get t is = (False, t, is')" "failbit is'" using read_ended [OF Suc.prems] by blast
  then have "ended is'" by (simp add: ended_def)
  from Suc.IH [OF this, of "ins t c"] g show ?case by (auto simp: funpow_swap1)
qed

lemma insert_loop_truncated:
  "list_all valid vs \<Longrightarrow>
     \<exists>is'. insert_loop get ins (length vs + Suc n) t c (stream (CHR '' '' # concat (map put vs))) =
       ((ins (last (t # vs)) ^^ Suc n) (fold ins vs c), is') \<and> failbit is'"
proof (induction vs arbitrary: t c)
  case Nil
  show ?case using insert_loop_ended [of "stream '' ''" ins n t c] by (simp add: ended_def)
next
  case (Cons v vs)
  from Cons.IH [of v "ins v c"] Cons.prems show ?case by (simp add: read_next)
qed

lemma vector_truncated:
  assumes "list_all valid vs" "length vs + Suc n < 2 ^ 64"
  shows "\<exists>is'. deserialize_vector get size0 t0 c (stream (serialize_size (length vs + Suc n) @ concat (map put vs))) =
    (False, c @ vs @ replicate (Suc n) (last (t0 # vs)), is')"
proof -
  have f: "fold (\<lambda>t v. v @ [t]) ts c = c @ ts" for ts and c :: "'v list" by (induction ts arbitrary: c) simp_all
  have p: "((\<lambda>v. v @ [t]) ^^ k) c = c @ replicate k t" for k t and c :: "'v list"
    by (induction k) (simp_all add: replicate_append_same)
  show ?thesis
    using size_word [OF assms(2)] size_read [OF assms(2), of "[]" size0 "concat (map put vs)"]
      insert_loop_truncated [OF assms(1), of "\<lambda>t v. v @ [t]" n t0 c]
    by (auto simp: deserialize_vector_def deserialize_inserter_def good_def f p replicate_append_same simp del: of_nat_add insert_loop.simps)
qed

end

text \<open>The loop over the entries of a map, with the codecs of its keys and its values.\<close>

definition entry_valid :: "('k \<Rightarrow> bool) \<Rightarrow> ('v \<Rightarrow> bool) \<Rightarrow> 'k \<times> 'v \<Rightarrow> bool" where
  "entry_valid validk validv e \<longleftrightarrow> validk (fst e) \<and> validv (snd e)"

locale map_codec = K: value_codec putk getk validk + V: codec putv getv validv mergev
  for putk :: "'k serializer" and getk :: "'k deserializer" and validk :: "'k \<Rightarrow> bool"
    and putv :: "'v serializer" and getv :: "'v deserializer" and validv :: "'v \<Rightarrow> bool"
    and mergev :: "'v \<Rightarrow> 'v \<Rightarrow> 'v"
begin

lemma map_loop_written:
  "list_all (entry_valid validk validv) es \<Longrightarrow>
     map_loop getk getv (length es) k v m (stream (CHR '' '' # concat (map (\<lambda>(k, v). putk k @ putv v) es) @ r)) =
       (m(map fst es [\<mapsto>] readings mergev v (map snd es)), stream (CHR '' '' # r))"
  by (induction es arbitrary: k v m)
    (simp_all add: entry_valid_def case_prod_beta K.read_next V.read_next)

lemma map_written:
  assumes "list_all (entry_valid validk validv) es" "length es < 2 ^ 64" "list_all is_space w"
  shows "deserialize_map getk getv size0 k0 v0 m (stream (w @ serialize_map putk putv es @ r)) =
    (True, m(map fst es [\<mapsto>] readings mergev v0 (map snd es)), stream (CHR '' '' # r))"
  by (simp add: size_word [OF assms(2)] deserialize_map_def serialize_map_def size_read [OF assms(2,3)] map_loop_written [OF assms(1)] good_def)

end

section \<open>Numbers\<close>

lemma get_ended:
  assumes "message_field put get valid" "ended is"
  shows "\<exists>is'. get old is = (old, is') \<and> failbit is'"
proof (cases "good is")
  case True
  then obtain w where "is = stream w" "list_all is_space w"
    using assms(2) by (cases "is") (auto simp: ended_def good_def)
  then show ?thesis using message_field.get_blank [OF assms(1)] by simp
next
  case False
  then show ?thesis using message_field.get_not_good [OF assms(1)] by simp
qed

interpretation int_codec: scalar_codec serialize_int deserialize_int "signed_range 32"
proof unfold_locales
  fix v old :: int and w r :: string
  assume "signed_range 32 v" "list_all is_space w"
  then show "deserialize_int old (stream (w @ serialize_int v @ r)) = (True, v, stream (CHR '' '' # r))"
    using signed_field.get_after_space [of 32 v "CHR '' '' # r" w old]
    by (simp add: deserialize_int_def serialize_int_def good_def)
next
  fix "is" :: istream and old :: int
  assume "ended is"
  then show "\<exists>is'. deserialize_int old is = (False, old, is') \<and> failbit is'"
    using get_ended [OF signed_field.message_field_axioms [of 32], of "is" old]
    by (auto simp: deserialize_int_def good_def)
qed

interpretation unsigned_codec: scalar_codec serialize_unsigned deserialize_unsigned "\<lambda>_. True"
proof unfold_locales
  fix v old :: u32 and w r :: string
  assume "list_all is_space w"
  then show "deserialize_unsigned old (stream (w @ serialize_unsigned v @ r)) = (True, v, stream (CHR '' '' # r))"
    using unsigned_field.get_after_space [where v = v and r = "CHR '' '' # r" and w = w and old = old]
    by (simp add: deserialize_unsigned_def serialize_unsigned_def good_def)
next
  fix "is" :: istream and old :: u32
  assume "ended is"
  then show "\<exists>is'. deserialize_unsigned old is = (False, old, is') \<and> failbit is'"
    using get_ended [OF unsigned_field.message_field_axioms, of "is" old]
    by (auto simp: deserialize_unsigned_def good_def)
qed

interpretation int_sets: ordered_codec serialize_int deserialize_int "signed_range 32"
  by unfold_locales

interpretation unsigned_sets: ordered_codec serialize_unsigned deserialize_unsigned "\<lambda>_. True"
  by unfold_locales

interpretation int_int_maps: map_codec serialize_int deserialize_int "signed_range 32"
    serialize_int deserialize_int "signed_range 32" "\<lambda>t v. v"
  by unfold_locales

interpretation int_vector_maps: map_codec serialize_int deserialize_int "signed_range 32"
    "serialize_vector serialize_int" "deserialize_vector deserialize_int size0 t0"
    "\<lambda>v. list_all (signed_range 32) v \<and> length v < 2 ^ 64" "(@)" for size0 t0
  by unfold_locales

text \<open>Assigning distinct keys one after the other.\<close>

lemma map_upds_distinct: "distinct ks \<Longrightarrow> length ks = length vs \<Longrightarrow> m(ks [\<mapsto>] vs) = m ++ map_of (zip ks vs)"
proof -
  assume "distinct ks" "length ks = length vs"
  then have "map_of (rev (zip ks vs)) = map_of (zip ks vs)"
    by (subst map_of_inject_set) (simp_all flip: rev_map)
  then show ?thesis by (simp add: map_upds_def)
qed

section \<open>Properties\<close>

text \<open>C26. Numbers, vectors, sets and maps written to a text are read back: into a vector behind its
  elements, into a set and into a map beside theirs, each leaving the rest of the text.
\<close>

theorem serial_roundtrip:
  assumes "list_all (signed_range 32) v" and "length v < 2 ^ 64"
    and "list_all (\<lambda>(k, x). signed_range 32 k \<and> signed_range 32 x) m" and "length m < 2 ^ 64" and "distinct (map fst m)"
    and "finite s" and "card s < 2 ^ 64"
  shows "\<exists>is1 is2. deserialize_vector deserialize_int size1 t1 v0 (istringstream
        (serialize_vector serialize_int v @ serialize_set serialize_unsigned s @ serialize_map serialize_int serialize_int m)) =
      (True, v0 @ v, is1) \<and>
    deserialize_set deserialize_unsigned size2 t2 s0 is1 = (True, s0 \<union> s, is2) \<and>
    deserialize_map deserialize_int deserialize_int size3 k3 x3 m0 is2 =
      (True, m0 ++ map_of m, stream '' '')"
proof -
  have entries: "list_all (entry_valid (signed_range 32) (signed_range 32)) m"
    using assms(3) by (auto simp: list_all_iff entry_valid_def)
  have "m0(map fst m [\<mapsto>] map snd m) = m0 ++ map_of m"
    using assms(5) by (simp add: map_upds_distinct zip_map_fst_snd)
  then show ?thesis
    using int_codec.vectors.read_written [of v "[]"] assms(1,2)
      unsigned_sets.sets.read_written [of s "'' ''"] assms(6,7)
      int_int_maps.map_written [OF entries assms(4), of "'' ''" _ _ _ _ "[]"]
    by (simp add: istringstream_def)
qed

theorem serial_roundtrip_witness:
  "\<exists>is1 is2. deserialize_vector deserialize_int 0 0 [] (istringstream
        (serialize_vector serialize_int [-5, 7] @ serialize_set serialize_unsigned {3, 9} @ serialize_map serialize_int serialize_int [(1, 2)])) =
      (True, [-5, 7], is1) \<and>
    deserialize_set deserialize_unsigned 0 0 {} is1 = (True, {3, 9}, is2) \<and>
    deserialize_map deserialize_int deserialize_int 0 0 0 Map.empty is2 = (True, [1 \<mapsto> 2], stream '' '')"
  using serial_roundtrip [of "[-5, 7]" "[(1, 2)]" "{3, 9}" 0 0 "[]" 0 0 "{}" 0 0 0 Map.empty]
  by (simp add: signed_range_def)

text \<open>A vector whose text ends early is not rejected before it is filled: the missing elements are
  copies of the last one read, or of the uninitialised variable, and only the result says so.
\<close>

theorem truncated_vector_filled:
  assumes "list_all (signed_range 32) v" and "length v + Suc n < 2 ^ 64"
  shows "\<exists>is'. deserialize_vector deserialize_int size0 t0 v0
      (istringstream (serialize_size (length v + Suc n) @ concat (map serialize_int v))) =
    (False, v0 @ v @ replicate (Suc n) (if v = [] then t0 else last v), is')"
  using int_codec.vector_truncated [OF assms] by (simp add: istringstream_def)

theorem truncated_vector_filled_witness:
  "\<exists>is'. deserialize_vector deserialize_int 0 77 []
      (istringstream (serialize_size 4 @ concat (map serialize_int [10, 20]))) = (False, [10, 20, 20, 20], is')"
proof -
  have n: "length [10, 20 :: int] + Suc 1 = 4" "replicate (Suc 1) (20 :: int) = [20, 20]" by simp_all
  have "list_all (signed_range 32) [10, 20]" by (simp add: signed_range_def)
  from truncated_vector_filled [OF this, of 1 0 77 "[]"] show ?thesis unfolding n by (simp add: n(2))
qed

text \<open>A map of vectors does not survive: the vector the values are read into is never emptied, so an
  entry comes back with the elements of all entries written before it in front of its own.
\<close>

theorem map_of_vectors_accumulates:
  assumes "list_all (\<lambda>(k, v). signed_range 32 k \<and> list_all (signed_range 32) v \<and> length v < 2 ^ 64) m"
    and "length m < 2 ^ 64" and "distinct (map fst m)" and "i < length m"
  shows "\<exists>m' is'. deserialize_map deserialize_int (deserialize_vector deserialize_int size1 t1) size0 k0 [] Map.empty
      (istringstream (serialize_map serialize_int (serialize_vector serialize_int) m)) = (True, m', is') \<and>
    m' (fst (m ! i)) = Some (concat (take i (map snd m)) @ snd (m ! i))"
proof -
  have entries: "list_all (entry_valid (signed_range 32) (\<lambda>v. list_all (signed_range 32) v \<and> length v < 2 ^ 64)) m"
    using assms(1) by (simp add: list_all_iff entry_valid_def case_prod_beta)
  let ?vs = "readings (@) [] (map snd m)"
  have "(Map.empty(map fst m [\<mapsto>] ?vs)) (map fst m ! i) = Some (?vs ! i)"
    using assms(3,4) by (simp add: map_upds_distinct map_of_zip_nth del: nth_map)
  moreover have "?vs ! i = concat (take i (map snd m)) @ snd (m ! i)"
    using assms(4) by (simp add: readings_append take_Suc_conv_app_nth)
  ultimately show ?thesis
    using int_vector_maps.map_written [OF entries assms(2), of "[]" size1 t1 size0 k0 "[]" Map.empty "[]"] assms(4)
    by (simp add: istringstream_def)
qed

theorem map_of_vectors_accumulates_witness:
  "\<exists>m' is'. deserialize_map deserialize_int (deserialize_vector deserialize_int 0 0) 0 0 [] Map.empty
      (istringstream (serialize_map serialize_int (serialize_vector serialize_int) [(1, [5]), (2, [6])])) = (True, m', is') \<and>
    m' 2 = Some [5, 6]"
  using map_of_vectors_accumulates [of "[(1, [5]), (2, [6])]" 1 0 0 0 0] by (simp add: signed_range_def)

end
