(* ===== verification/Spec2Isabelle.thy ===== *)
theory Spec2Isabelle
  imports Free_Queue_Threads Network_Threads World Client_Tracker Client_Main Tracker_Main Time_Serv_Main Deploy Graph_Tools Dummy Serial Server_Main
begin

text \<open>
  A verification development for distributAr, a framework that runs clusters of spiking nodes on
  several hosts.  A server process loads clusters from plug-ins, one thread each; a cluster fires
  impulses, which its server collects into a buffer and multicasts to the group of its cluster
  id; a dispatch loop hands the buffers of remote and local clusters to the servers that
  subscribed to them.  A tracker gives out cluster ids and knows the addresses of the servers, a
  time server lets the hosts agree on the time.

  Theories, in the order of the program's layers:

  \<^item> \<open>Prelude\<close>: the types and constants of \<open>lib/main.h\<close>, clock arithmetic, bytes, hash maps.
  \<^item> \<open>Fifo\<close>: the interface of a queue as locales, with the lemmas its clients use.
  \<^item> \<open>Free_Queue\<close>, \<open>Free_Queue_Threads\<close>: \<open>lib/queue.h\<close>, run alone and by two threads.  Every
    interleaving is a bounded queue, and the threads never touch one slot at the same time.
  \<^item> \<open>Block_Queue\<close>: \<open>lib/blockq.h\<close> with mutex and condition variable, for any number of
    threads: order; calls come to rest with nobody asleep while an element is stored.
  \<^item> \<open>Locking\<close>: the interface of a lock and of a program whose threads use it, as locales: whole sections
    are atomic.
  \<^item> \<open>Spin_Lock\<close>: \<open>lib/spinlock.h\<close>, mutual exclusion; it is a lock in the sense of \<open>Locking\<close>.
  \<^item> \<open>Iostreams\<close>: the string streams the text protocol is written with, as a contract between
    printing and extracting a field; \<open>atoi\<close> and \<open>getline\<close>; bounds on what is printed.
  \<^item> \<open>Misc\<close>: \<open>lib/misc.h\<close> and the printing of times in \<open>lib/misc.cpp\<close>.
  \<^item> \<open>Serial\<close>: \<open>lib/serial.h\<close>.  The law of a codec is a locale; vectors, sets and maps over a
    codec are codecs again, and what goes wrong with maps of containers and with cut-off texts.
  \<^item> \<open>Udp\<close>: \<open>lib/udp.cpp\<close> over the results of its system calls.
  \<^item> \<open>Time_Sync\<close>: \<open>lib/timesync.cpp\<close>, the client of the time server: the measured offset, its
    convergence, and the conversion of times.
  \<^item> \<open>Time_Serv\<close>, \<open>Time_Serv_Main\<close>: \<open>utils/timeserv.cpp\<close>, the time server, how old its last
    announcement can be, its output and its failures.
  \<^item> \<open>Time_Buff\<close>: \<open>lib/timebuff.h\<close>, the buffer of impulses, its operations and its bytes on
    the wire.
  \<^item> \<open>Network\<close>: \<open>network.cpp\<close>: subscriptions, joined groups (the kernel may refuse a request),
    routing table, both also while \<open>RUN\<close> changes the ids of servers, and the filter for packets that are
    old or out of order.
  \<^item> \<open>Network_Threads\<close>: the same methods access by access, for any number of threads under the
    spin lock, the ids of the servers fixed: why the rest may take them as single steps.
  \<^item> \<open>Server\<close>: the methods of \<open>server.cpp\<close>: commands, input to the cluster, output of the
    cluster.  A cluster is a parameter, the record \<open>icluster\<close> of what a plug-in defines.
  \<^item> \<open>Server_Run\<close>: the loop of \<open>Server::run\<close>, what holds after any number of its rounds.
  \<^item> \<open>Dummy\<close>: the plug-in of \<open>dummy/dummy.cpp\<close>, an instance of \<open>icluster\<close>, run by a server.
  \<^item> \<open>Main_Loop\<close>: the dispatch loop of \<open>main.cpp\<close>, who gets which buffer in a turn.
  \<^item> \<open>Start_Up\<close>: the arguments of \<open>main.cpp\<close>, and the servers they start.
  \<^item> \<open>Server_Main\<close>: \<open>main\<close> of \<open>main.cpp\<close> up to its loop, with output, failing sockets and handlers.
  \<^item> \<open>Process_Run\<close>: a whole server process as a step relation, the dispatch loop and the servers'
    commands and polls interleaved in any way, and its invariant.
  \<^item> \<open>Process_Input\<close>: what the clusters of a process are given over any run.
  \<^item> \<open>Delivery\<close>: the way of an impulse from a server on one host to the queues on another; a datagram
    that arrives twice in its life time is delivered twice.
  \<^item> \<open>World\<close>: all hosts together, exchanging packets that may be lost, delayed, doubled or
    reordered: nothing a cluster is given is made up.
  \<^item> \<open>Tracker\<close>: \<open>utils/tracker.cpp\<close>: the registry and its messages.
  \<^item> \<open>Registry\<close>: what the tracker promises, an abstract registry, and that every run of the tracker is a run
    of it; the ids it gives out are unique, and servers are found under theirs.
  \<^item> \<open>Tracker_Main\<close>: \<open>main\<close> of the tracker, its handlers and its log.
  \<^item> \<open>Graph_IO\<close>: \<open>utils/graphio.cpp\<close>, graphs as text: what is written is read back.
  \<^item> \<open>Graph_Gen\<close>: \<open>utils/graph.cpp\<close>, random graphs, and that the files are readable.
  \<^item> \<open>Part_Graph\<close>: \<open>utils/partgraph.cpp\<close>: the optimisation ends, loses nothing and never makes the
    cut larger; the number it prints is the cut; the saved file is the same graph.
  \<^item> \<open>Part_Main\<close>: the partitioner from its arguments to the file it saves: the same graph, its
    labels balanced groups whose cut is the printed number.
  \<^item> \<open>Graph_Tools\<close>: generator and partitioner one after the other.
  \<^item> \<open>Client\<close>: \<open>utils/client.cpp\<close>: its commands, and retries.
  \<^item> \<open>Client_Create\<close>: what the client says to tracker and clusters while it builds a network from
    a graph file, phase by phase, and that it ends when they cooperate.
  \<^item> \<open>Deploy\<close>: the servers that get these commands: what they subscribe to is what the file says.
  \<^item> \<open>Client_Tracker\<close>: the client's questions and the tracker's answers: what \<open>list\<close> prints.
  \<^item> \<open>Client_Main\<close>: the client as a program: usage, wrong arguments, exit status, a socket that cannot be made, and
    \<open>connect\<close> and \<open>drop\<close> from the command line to the server.
  \<^item> This theory: properties of conversations between the programs (tracker and server, time
    server and client, client and server).

  How code becomes definitions.  A class is a record, a method a function from the state to the
  new state and what it sends; threads are step relations with one step per access to shared
  memory.  Whatever a method reads from outside is an argument: results of system calls,
  datagrams, readings of the clock, the values of \<open>rand()\<close>, the value of an uninitialised
  variable, the order in which a loop over an \<open>unordered_map\<close> visits the keys (any order that
  \<open>iterates\<close> allows).  An exception is the left side of a sum, undefined behaviour and the end of
  the process are values (\<open>net_error\<close>, \<open>stopped\<close>, \<open>run_end\<close>) or, in the client and the graph
  tools, \<open>None\<close>; a call that may never return is an option.  Datagrams of text end in a zero
  character like the program's.

  Loops.  \<open>Server_write\<close>, \<open>Udp_Write\<close>, \<open>pick_other\<close>, \<open>write_nodes\<close> and \<open>waitClusters\<close> are
  \<open>partial_function\<close>s: \<open>Server_write_returns\<close> shows that the first always ends, \<open>Udp_Write_spec\<close>
  says exactly when the second does, \<open>optimizations_improve\<close> that the third does for random
  numbers that vary, \<open>write_nodes_all\<close> and \<open>negative_size_never_ends\<close> when the fourth does; \<open>waitClusters\<close> waits for other hosts and need not end, but
  \<open>createNetwork_builds\<close> shows that it does once enough of them have joined.  The endless loops of
  the programs are step relations or single turns, and their invariants hold after any number of
  turns; only the tracker's bounds the number, by the \<open>2^32\<close> ids it can give out.  There is no fuel.

  Not modelled: the value of the floating-point expression in \<open>Server::run\<close> that adapts the polling
  rate (an argument), the logarithm in \<open>utils/graph.cpp\<close> (an argument), the creation of threads, the
  output of the commands of the client other than \<open>list\<close> and of the servers while they run, accesses
  without a lock to the ids of servers and to their vector while it grows, and the Windows branch
  of \<open>lib/udp.cpp\<close>.  A plug-in is a parameter whose operations return: exceptions it may throw, which the
  handlers of \<open>Server::run\<close> would catch, are left out.  Clock values and the \<open>int\<close> counters of edges in the
  partitioner are unbounded integers; the places where the program narrows times are written out.
\<close>

section \<open>A server gets its id from the tracker\<close>

text \<open>C9. A server without an id sends its request, the tracker's reply makes it adopt the id the tracker
  reserved and the multicast group of that id, and the request it repeats from then on with its
  new id is not answered and changes no registration.
\<close>

theorem server_gets_id_from_tracker:
  assumes "tracker_wf t" and "iterates ks (clusters t)" and "a \<notin> ran (clusters t)" and "next_id t \<noteq> 0"
    and "iterates ks1 ((clusters t)(next_id t \<mapsto> a))" and "server_wf s" and "cluster_id s = 0"
  shows "\<exists>request reply t1 s1 request1 t2.
    requestIdFromTracker s = [(tracker s, request @ [NUL])] \<and>
    tracker_command junk clock ks a request t = (t1, [(a, reply @ [NUL])]) \<and>
    parseCommand C junk' ks' ids reply s n = Inr (''ACK'', s1, n, []) \<and>
    cluster_id s1 = next_id t \<and> mCastGrp s1 = group_of (next_id t) \<and>
    clusters t1 = (clusters t)(cluster_id s1 \<mapsto> a) \<and>
    requestIdFromTracker s1 = [(tracker s, request1 @ [NUL])] \<and>
    tracker_command junk clock1 ks1 a request1 t1 = (t2, []) \<and> clusters t2 = clusters t1"
proof -
  let ?i = "next_id t"
  let ?t1 = "registered ?i a (clock 0) (t\<lparr>next_id := ?i + 1\<rparr>)"
  let ?s1 = "s\<lparr>cluster_id := ?i, mCastGrp := (mCastGrp s)\<lparr>s_addr := ucast (idToMulticast ?i)\<rparr>\<rparr>"
  let ?t2 = "registered ?i a (clock1 0) ?t1"
  have "findByValue ks a t = 0" using findByValue_eq(2) [OF assms(1,2)] assms(3) by blast
  then have c1: "tracker_command junk clock ks a (''ID '' @ show_word (0 :: ClusterID)) t =
      (?t1, [(a, (''RUN '' @ show_word ?i) @ [NUL])])"
    unfolding tracker_command_ID by simp
  have p: "parseCommand C junk' ks' ids (''RUN '' @ show_word ?i) s n = Inr (''ACK'', ?s1, n, [])"
    unfolding parse_RUN using assms(4,7) by simp
  have "clusters ?t1 j = Some a \<longleftrightarrow> j = ?i" for j using assms(3) by (auto simp: ran_def)
  then have "findByValue ks1 a ?t1 = ?i"
    using assms(5) by (intro find_single) simp_all
  then have c2: "tracker_command junk clock1 ks1 a (''ID '' @ show_word ?i) ?t1 = (?t2, [])"
    unfolding tracker_command_ID using assms(4) by simp
  have "mCastGrp ?s1 = group_of ?i" using assms(6) by (simp add: server_wf_def group_of_def)
  then show ?thesis
    using c1 p c2 assms(7)
    by (intro exI [of _ "''ID '' @ show_word (0 :: ClusterID)"] exI [of _ "''RUN '' @ show_word ?i"]
        exI [of _ ?t1] exI [of _ ?s1] exI [of _ "''ID '' @ show_word ?i"] exI [of _ ?t2])
      (simp add: requestIdFromTracker_def)
qed

definition new_server :: "unit server" where
  "new_server = Server_run_setup 0x0100007F 0x2823 0
     (Server_init () zeros zeros (replicate MAX_MSG_Q_SIZE sample_buffer) example_peer example_peer
       (replicate SERVER_BUFF NUL))"

lemma new_server_wf: "server_wf new_server"
  unfolding new_server_def by (rule setup_wf) (simp_all add: zeros_def)

theorem server_gets_id_from_tracker_witness:
  "\<exists>reply s1. parseCommand test_cluster 0 [] [0] reply new_server Network_init = Inr (''ACK'', s1, Network_init, []) \<and>
     cluster_id s1 = 1025 \<and> mCastGrp s1 = group_of 1025"
proof -
  have "cluster_id new_server = 0" by (simp add: new_server_def Server_run_setup_def)
  moreover have "iterates [1025] ((clusters Tracker_init)(next_id Tracker_init \<mapsto> example_addr))"
    by (simp add: init_tracker_wf iterates_def)
  moreover have "example_addr \<notin> ran (clusters Tracker_init)" "next_id Tracker_init \<noteq> 0"
    by (simp_all add: init_tracker_wf)
  ultimately show ?thesis
    using server_gets_id_from_tracker [OF init_tracker_wf(1,2) _ _ _ new_server_wf, of example_addr "[1025]"
        0 "\<lambda>k. 0" test_cluster 0 "[]" "[0]" Network_init "\<lambda>k. 1"] init_tracker_wf(3)
    by (metis (no_types, lifting))
qed

section \<open>A process finds the time server\<close>

lemma TIME_SERVER_ID_big: "TIME_SERVER_ID \<noteq> 0" "RESERVED_CLUSTER_ID < TIME_SERVER_ID"
  by (simp_all add: TIME_SERVER_ID_def RESERVED_CLUSTER_ID_def word_less_nat_alt)

lemma sync_receive_POINT:
  "sync_receive lip junk now (''POINT '' @ show_word TIME_SERVER_ID @ '' '' @ show_word (a :: u32) @ '' '' @
     show_word (p :: u16)) ts =
   ts\<lparr>serverAddr := \<lparr>s_addr = ucast (replaceLo lip (ucast a) (ucast (s_addr (trackerAddr ts)))), sin_port = p\<rparr>\<rparr>"
proof -
  let ?reply = "''POINT '' @ show_word TIME_SERVER_ID @ '' '' @ show_word a @ '' '' @ show_word p"
  obtain s1 s2 s3 s4 where "get_word [] (istringstream ?reply) = (''POINT'', s1)"
      "get_unsigned (junk_cid junk) s1 = (TIME_SERVER_ID, s2)" "get_unsigned (junk_ip junk) s2 = (ucast a :: IP, s3)"
      "get_unsigned (sin_port (serverAddr ts)) s3 = (p, s4)"
    by (rule POINT_fields)
  then show ?thesis by (simp add: sync_receive_def)
qed

text \<open>C19. From the announcement of the time server to a client that knows its address: if the client's
  question reaches the tracker within \<open>ENV_UPDATE_TIME\<close> of the announcement, the tracker's
  answer makes the client use the time server's address and port (unless that address is the
  loopback, which the client replaces by the tracker's).
\<close>

theorem client_finds_time_server:
  assumes "tracker_wf t" and "iterates ks (clusters t)"
    and "tracker_command junk clock ks a cmdID t = (t1, out1)"
    and "tracker_command junk' clock' ks' b getTimeServCmd t1 = (t2, out2)"
    and "clock' 0 \<le> clock 0 + ENV_UPDATE_TIME" and "ucast (s_addr a) \<noteq> lip"
  shows "\<exists>reply. out2 = [(b, reply @ [NUL])] \<and> serverAddr (sync_receive lip j now reply ts) = a"
proof -
  note own = own_id_registered [OF assms(1,2) TIME_SERVER_ID_big(1) assms(3) [unfolded cmdID_def]]
  have "clusters t1 TIME_SERVER_ID = Some a" "updateTime t1 TIME_SERVER_ID = Some (clock 0)"
    using own by simp_all
  then have out2: "out2 = [(b, (''POINT '' @ show_word TIME_SERVER_ID @ '' '' @ show_word (s_addr a) @ '' '' @
      show_word (sin_port a)) @ [NUL])]"
    using assms(4,5) unfolding getTimeServCmd_def tracker_command_GET
    by (auto simp: not_less split: if_splits)
  have "ucast (ucast (s_addr a) :: IP) = s_addr a" by transfer simp
  then have "serverAddr (sync_receive lip j now (''POINT '' @ show_word TIME_SERVER_ID @ '' '' @
      show_word (s_addr a) @ '' '' @ show_word (sin_port a)) ts) = a"
    unfolding sync_receive_POINT using assms(6) by (simp add: replaceLo_def)
  with out2 show ?thesis by blast
qed

theorem client_finds_time_server_witness:
  "\<exists>reply. serverAddr (sync_receive 0 \<lparr>junk_remote = 0, junk_cid = 0, junk_ip = 0\<rparr> 0 reply (TimeSync_init 1 2 0)) =
     example_addr"
proof -
  obtain t1 out1 where c1: "tracker_command 0 (\<lambda>k. 0) [] example_addr cmdID Tracker_init = (t1, out1)"
    by fastforce
  obtain t2 out2 where c2: "tracker_command 0 (\<lambda>k. seconds 90) [] example_peer getTimeServCmd t1 = (t2, out2)"
    by fastforce
  show ?thesis
    using client_finds_time_server [OF init_tracker_wf(1,2) c1 c2, of 0
        "\<lparr>junk_remote = 0, junk_cid = 0, junk_ip = 0\<rparr>" 0 "TimeSync_init 1 2 0"]
    by (auto simp: ENV_UPDATE_TIME_def example_addr_def)
qed

text \<open>What the time server prints is what the client measures with: on its reply the client updates
  its offset from the server's clock in microseconds, for every time up to the year 294247.
\<close>

theorem time_reply_understood:
  assumes "0 \<le> to_us t" and "to_us t < 2 ^ 63"
  shows "sync_receive lip j now (time_message t) ts = (calculate now (to_us t) ts)\<lparr>lastReply := now\<rparr>"
proof -
  let ?w = "word_of_int (to_us t) :: u64"
  have "uint ?w = to_us t" using assms by (simp add: uint_word_of_int)
  then have "unat ?w = nat (to_us t)" by (metis nat_uint_eq)
  then have s: "show_word ?w = show_int (to_us t)"
    using assms(1) by (simp add: show_word_def show_int_def)
  have "get_word [] (istringstream (''T'' @ '' '' @ show_int (to_us t))) =
      (''T'', \<lparr>inp = '' '' @ show_int (to_us t), eofbit = False, failbit = False\<rparr>)"
    using word_field.get_put [of "''T''" "'' '' @ show_int (to_us t)"]
    by (simp add: istringstream_def plain_word_def is_space_def less_eq_char_def)
  moreover have "get_signed 64 old \<lparr>inp = '' '' @ show_int (to_us t), eofbit = False, failbit = False\<rparr> =
      (to_us t, \<lparr>inp = [], eofbit = True, failbit = False\<rparr>)" for old
    using signed_field.get_last [where w = 64 and v = "to_us t" and old = old] assms by (simp add: signed_range_def)
  ultimately show ?thesis by (simp add: sync_receive_def time_message_def s)
qed

theorem time_reply_understood_witness:
  "sync_receive 0 \<lparr>junk_remote = 0, junk_cid = 0, junk_ip = 0\<rparr> 3000 (time_message 7000) (TimeSync_init 1 2 0) =
     (calculate 3000 7 (TimeSync_init 1 2 0))\<lparr>lastReply := 3000\<rparr>"
  using time_reply_understood [of 7000] by (simp add: to_us_def)

section \<open>Which way a connection goes\<close>

lemma id_arg_show: "small_id i \<Longrightarrow> id_arg (show_word i) = i"
  by (simp add: id_arg_def atoi_id)

text \<open>The two ways to connect clusters disagree about the direction.  \<open>connect A B\<close> makes \<open>B\<close>
  subscribe to \<open>A\<close>, as its usage text says; an edge from \<open>A\<close> to \<open>B\<close> of a graph file makes \<open>A\<close>
  subscribe to \<open>B\<close>, so that impulses flow against the edge.
\<close>

theorem edges_connect_backwards:
  assumes "known (edge_from e) st" and "known (edge_to e) st" and "reply_at st 0 = ''ACK''"
    and "edge_label e > 0" and "small_id (edge_to e)"
    and "cluster_id sA = edge_from e" and "cluster_id sB = edge_to e"
  shows "(\<exists>st1 m. connectEdges lip j [e] st = Some (True, st1) \<and>
      sent st1 = sent st @ [(addr_of (edge_from e) st, m @ [NUL])] \<and>
      parseCommand C junk ks ids m sA n = (case subscribe ids (edge_from e) (edge_to e) n of
        (n', reqs) \<Rightarrow> Inr (''ACK'', sA, n', reqs))) \<and>
    (\<exists>st2 m. client_main lip j files ''connect'' [show_word (edge_from e), show_word (edge_to e)] st = Some (1, st2) \<and>
      sent st2 = sent st @ [(addr_of (edge_to e) st, m @ [NUL])] \<and>
      parseCommand C junk ks ids m sB n = (case subscribe ids (edge_to e) (edge_from e) n of
        (n', reqs) \<Rightarrow> Inr (''ACK'', sB, n', reqs)))"
proof
  let ?m = "edge_command e"
  let ?st = "st\<lparr>reads := drop 1 (reads st), sent := sent st @ [(addr_of (edge_from e) st, ?m @ [NUL])]\<rparr>"
  have "connectEdges lip j [e] st = Some (True, ?st)"
    using connectEdges_sent [of st "[e]"] assms(1,3,4) by (simp add: acknowledged_def)
  moreover have "parseCommand C junk ks ids ?m sA n = (case subscribe ids (edge_from e) (edge_to e) n of
        (n', reqs) \<Rightarrow> Inr (''ACK'', sA, n', reqs))"
    unfolding edge_command_def using parse_CONNECT_label assms(6) by metis
  moreover have "sent ?st = sent st @ [(addr_of (edge_from e) st, ?m @ [NUL])]" by simp
  ultimately show "\<exists>st1 m. connectEdges lip j [e] st = Some (True, st1) \<and>
      sent st1 = sent st @ [(addr_of (edge_from e) st, m @ [NUL])] \<and>
      parseCommand C junk ks ids m sA n = (case subscribe ids (edge_from e) (edge_to e) n of
        (n', reqs) \<Rightarrow> Inr (''ACK'', sA, n', reqs))"
    by blast
next
  let ?m = "''CONNECT '' @ show_word (edge_from e)"
  let ?st = "after_attempts 1 (edge_to e) ?m st"
  have "client_main lip j files ''connect'' [show_word (edge_from e), show_word (edge_to e)] st = Some (1, ?st)"
    using assms(2,3,5)
    by (simp add: client_main_def command_and_reply_def id_arg_show command_known showReply_def wait_after_write)
  moreover have "sent ?st = sent st @ [(addr_of (edge_to e) st, ?m @ [NUL])]" by (simp add: after_attempts_def)
  moreover have "parseCommand C junk ks ids ?m sB n = (case subscribe ids (edge_to e) (edge_from e) n of
        (n', reqs) \<Rightarrow> Inr (''ACK'', sB, n', reqs))"
    unfolding parse_CONNECT assms(7) ..
  ultimately show "\<exists>st2 m. client_main lip j files ''connect'' [show_word (edge_from e), show_word (edge_to e)] st = Some (1, st2) \<and>
      sent st2 = sent st @ [(addr_of (edge_to e) st, m @ [NUL])] \<and>
      parseCommand C junk ks ids m sB n = (case subscribe ids (edge_to e) (edge_from e) n of
        (n', reqs) \<Rightarrow> Inr (''ACK'', sB, n', reqs))"
    by blast
qed

theorem edges_connect_backwards_witness:
  "\<exists>st st1 st2 m1 m2 reqs1 reqs2 n1 n2. connectEdges 0 \<lparr>old_cid = 0, old_ip = 0, old_port = 0\<rparr>
      [\<lparr>edge_from = 1, edge_to = 2, edge_label = 5\<rparr>] st = Some (True, st1) \<and>
    sent st1 = [(example_addr, m1 @ [NUL])] \<and>
    parseCommand test_cluster 0 [] [] m1 (new_server\<lparr>cluster_id := 1\<rparr>) Network_init =
      Inr (''ACK'', new_server\<lparr>cluster_id := 1\<rparr>, n1, reqs1) \<and>
    client_main 0 \<lparr>old_cid = 0, old_ip = 0, old_port = 0\<rparr> (\<lambda>f. None) ''connect'' [''1'', ''2''] st = Some (1, st2) \<and>
    sent st2 = [(example_peer, m2 @ [NUL])] \<and>
    parseCommand test_cluster 0 [] [] m2 (new_server\<lparr>cluster_id := 2\<rparr>) Network_init =
      Inr (''ACK'', new_server\<lparr>cluster_id := 2\<rparr>, n2, reqs2)"
proof -
  let ?e = "\<lparr>edge_from = 1, edge_to = 2, edge_label = 5\<rparr>" and ?j = "\<lparr>old_cid = 0, old_ip = 0, old_port = 0\<rparr>"
  define st where "st = \<lparr>addrs = [1 \<mapsto> example_addr, 2 \<mapsto> example_peer],
    reads = [SelectReady (Received (''ACK'' @ [NUL]) example_addr)], sent = []\<rparr>"
  have st: "known (edge_from ?e) st" "known (edge_to ?e) st" "reply_at st 0 = ''ACK''" "edge_label ?e > 0"
      "small_id (edge_to ?e)" "cluster_id (new_server\<lparr>cluster_id := 1\<rparr>) = edge_from ?e"
      "cluster_id (new_server\<lparr>cluster_id := 2\<rparr>) = edge_to ?e"
    by (simp_all add: st_def example_addr_def example_peer_def reply_at_def reply_text_def c_string_def small_id_def)
  have a: "addr_of 1 st = example_addr" "addr_of 2 st = example_peer" "sent st = []"
    by (simp_all add: st_def)
  have w: "show_word (1 :: u32) = ''1''" "show_word (2 :: u32) = ''2''"
    by (simp_all add: show_word_def show_nat.simps char_of_def bit_0)
  note both = edges_connect_backwards [OF st, of 0 ?j test_cluster 0 "[]" "[]" Network_init "\<lambda>f. None"]
  obtain n1 r1 where 1: "subscribe [] 1 2 Network_init = (n1, r1)" by fastforce
  obtain n2 r2 where 2: "subscribe [] 2 1 Network_init = (n2, r2)" by fastforce
  show ?thesis
    using both unfolding GraphEdge.select_convs 1 2 w a append_Nil prod.case by blast
qed

end
